(* ===== verification/Prelude.thy ===== *)
theory Prelude
  imports Main "HOL-Library.Word"
begin

text \<open>
  Shared vocabulary of the development: machine integers, C++ failures as values, and
  sequential effects. A member function that may throw is an \<open>('s, 'a) eff\<close>: it takes the
  state it runs on and gives either a failure or a value, together with the state it leaves.
  The state survives a failure, as it does in C++ when an exception leaves a function that has
  already written to an object. The theory also provides \<open>ensures\<close>, pre- and postconditions
  of effects, \<open>keeps\<close>, their invariants, and the collections \<open>eff_simps\<close> and \<open>keeps_rules\<close>
  through which the component theories run and compose effects.
\<close>

section \<open>Machine integers and failures\<close>

type_synonym u64 = "64 word"
type_synonym byte = "8 word"
type_synonym bytes = "byte list"

text \<open>
  What a call can end with instead of a value: a C++ exception, or undefined behaviour, of which
  the code has two kinds, the use of a null pointer and of a pointer that was never set.
\<close>

datatype exn =
    Invalid_argument string
  | Out_of_range string
  | Format_error string
  | Bad_alloc
  | System_error string

datatype failure =
    Thrown exn
  | Null_pointer
  | Unset_pointer

section \<open>Effects\<close>

type_synonym ('s, 'a) eff = "'s \<Rightarrow> (failure + 'a) \<times> 's"

named_theorems eff_simps \<open>how effects run\<close>
named_theorems keeps_rules \<open>effects that keep an invariant\<close>

definition eff_return :: "'a \<Rightarrow> ('s, 'a) eff" where
  "eff_return x s = (Inr x, s)"

definition eff_fail :: "failure \<Rightarrow> ('s, 'a) eff" where
  "eff_fail e s = (Inl e, s)"

definition eff_throw :: "exn \<Rightarrow> ('s, 'a) eff" where
  "eff_throw e = eff_fail (Thrown e)"

definition eff_gets :: "('s \<Rightarrow> 'a) \<Rightarrow> ('s, 'a) eff" where
  "eff_gets f s = (Inr (f s), s)"

definition eff_modify :: "('s \<Rightarrow> 's) \<Rightarrow> ('s, unit) eff" where
  "eff_modify f s = (Inr (), f s)"

definition eff_bind :: "('s, 'a) eff \<Rightarrow> ('a \<Rightarrow> ('s, 'b) eff) \<Rightarrow> ('s, 'b) eff" where
  "eff_bind m f s =
     (case m s of
        (Inl e, t) \<Rightarrow> (Inl e, t)
      | (Inr x, t) \<Rightarrow> f x t)"

definition eff_pure :: "('s \<Rightarrow> 'a \<times> 's) \<Rightarrow> ('s, 'a) eff" where
  \<comment> \<open>a member function that cannot throw\<close>
  "eff_pure f s = (let (x, t) = f s in (Inr x, t))"

lemma eff_run [eff_simps, simp]:
  "eff_return x s = (Inr x, s)"
  "eff_fail e s = (Inl e, s)"
  "eff_throw ex s = (Inl (Thrown ex), s)"
  "eff_gets f s = (Inr (f s), s)"
  "eff_modify g s = (Inr (), g s)"
  "eff_pure h s = (Inr (fst (h s)), snd (h s))"
  by (simp_all add: eff_return_def eff_fail_def eff_throw_def eff_gets_def eff_modify_def
      eff_pure_def split: prod.splits)

lemma eff_bind_run [eff_simps, simp]:
  "m s = (Inl e, t) \<Longrightarrow> eff_bind m f s = (Inl e, t)"
  "m s = (Inr x, t) \<Longrightarrow> eff_bind m f s = f x t"
  "n s = (Inr True, t) \<Longrightarrow> eff_bind n g s = g True t"
  "n s = (Inr False, t) \<Longrightarrow> eff_bind n g s = g False t"
  by (simp_all add: eff_bind_def)

lemma eff_bind_cases:
  assumes "eff_bind m f s = (r, u)"
  obtains (fails) e where "m s = (Inl e, u)" and "r = Inl e"
    | (continues) x t where "m s = (Inr x, t)" and "f x t = (r, u)"
  using assms by (auto simp: eff_bind_def split: prod.splits sum.splits)

lemma bind_split:
  "eff_bind m f s = (case m s of (Inl e, t) \<Rightarrow> (Inl e, t) | (Inr x, t) \<Rightarrow> f x t)"
  by (simp add: eff_bind_def)

text \<open>A loop that computes one value for each element and collects them in order.\<close>

fun eff_map :: "('a \<Rightarrow> ('s, 'b) eff) \<Rightarrow> 'a list \<Rightarrow> ('s, 'b list) eff" where
  "eff_map f [] = eff_return []"
| "eff_map f (x # xs) =
     eff_bind (f x) (\<lambda>y.
     eff_bind (eff_map f xs) (\<lambda>ys.
     eff_return (y # ys)))"

lemma eff_map_run:
  "(\<And>x. x \<in> set xs \<Longrightarrow> f x s = (Inr (g x), s)) \<Longrightarrow> eff_map f xs s = (Inr (map g xs), s)"
  by (induction xs) simp_all

lemma eff_bind_assoc: "eff_bind (eff_bind m f) g = eff_bind m (\<lambda>x. eff_bind (f x) g)"
  by (rule ext) (simp add: eff_bind_def split: prod.splits sum.splits)

lemma eff_bind_return_left [simp]: "eff_bind (eff_return x) f = f x"
  by (rule ext) (simp add: eff_bind_def)

lemma eff_bind_return_right: "eff_bind m eff_return = m"
  by (rule ext) (simp add: eff_bind_def split: prod.splits sum.splits)

section \<open>Pre- and postconditions of effects\<close>

text \<open>
  \<open>ensures P m Q F\<close>: from a state with \<open>P\<close>, \<open>m\<close> either returns with \<open>Q\<close> or fails with
  \<open>F\<close>. It is a total statement, since every effect of the model is a total function.
\<close>

definition ensures ::
  "('s \<Rightarrow> bool) \<Rightarrow> ('s, 'a) eff \<Rightarrow> ('a \<Rightarrow> 's \<Rightarrow> bool) \<Rightarrow> ('s \<Rightarrow> bool) \<Rightarrow> bool" where
  "ensures P m Q F \<longleftrightarrow>
     (\<forall>s. P s \<longrightarrow> (case m s of (Inl e, t) \<Rightarrow> F t | (Inr x, t) \<Rightarrow> Q x t))"

lemma ensuresI:
  "(\<And>s. P s \<Longrightarrow> case m s of (Inl e, t) \<Rightarrow> F t | (Inr x, t) \<Rightarrow> Q x t) \<Longrightarrow> ensures P m Q F"
  by (simp add: ensures_def)

lemma ensures_Inr: "ensures P m Q F \<Longrightarrow> P s \<Longrightarrow> m s = (Inr x, t) \<Longrightarrow> Q x t"
  by (force simp: ensures_def)

lemma ensures_Inl: "ensures P m Q F \<Longrightarrow> P s \<Longrightarrow> m s = (Inl e, t) \<Longrightarrow> F t"
  by (force simp: ensures_def)

lemma ensures_state: "ensures P m (\<lambda>_. I) I \<Longrightarrow> P s \<Longrightarrow> I (snd (m s))"
  by (cases "m s") (auto simp: ensures_def split: sum.splits prod.splits)

lemma ensures_weaken:
  assumes "ensures P' m Q' F'"
    and "\<And>s. P s \<Longrightarrow> P' s" and "\<And>x s. Q' x s \<Longrightarrow> Q x s" and "\<And>s. F' s \<Longrightarrow> F s"
  shows "ensures P m Q F"
  using assms by (fastforce simp: ensures_def split: prod.splits sum.splits)

lemma ensures_bind:
  assumes "ensures P m R F" and "\<And>x. ensures (R x) (f x) Q F"
  shows "ensures P (eff_bind m f) Q F"
proof (rule ensuresI)
  fix s assume "P s"
  then show "case eff_bind m f s of (Inl e, t) \<Rightarrow> F t | (Inr x, t) \<Rightarrow> Q x t"
    using assms by (cases "m s") (fastforce simp: ensures_def eff_bind_def split: sum.splits)
qed

section \<open>Invariants of effects\<close>

text \<open>
  \<open>keeps I m\<close>: the invariant holds after \<open>m\<close>, whether it returned or failed. The rules follow
  the shape of the effect, so that \<open>intro keeps_rules\<close> reduces the claim for a whole member
  function to its writes.
\<close>

definition keeps :: "('s \<Rightarrow> bool) \<Rightarrow> ('s, 'a) eff \<Rightarrow> bool" where
  "keeps I m \<longleftrightarrow> (\<forall>s. I s \<longrightarrow> I (snd (m s)))"

lemma keepsD: "keeps I m \<Longrightarrow> I s \<Longrightarrow> I (snd (m s))"
  by (simp add: keeps_def)

lemma keeps_run: "keeps I m \<Longrightarrow> I s \<Longrightarrow> m s = (r, t) \<Longrightarrow> I t"
  by (metis keepsD snd_conv)

lemma keeps_ensures: "keeps I m \<longleftrightarrow> ensures I m (\<lambda>_. I) I"
  by (simp add: keeps_def ensures_def split_beta sum.case_eq_if)

lemma keeps_atoms [keeps_rules]:
  "keeps I (eff_return x)" "keeps I (eff_fail e)" "keeps I (eff_throw ex)" "keeps I (eff_gets f)"
  by (simp_all add: keeps_def)

lemma keeps_modify: "(\<And>s. I s \<Longrightarrow> I (f s)) \<Longrightarrow> keeps I (eff_modify f)"
  by (simp add: keeps_def)

lemma keeps_bind [keeps_rules]:
  assumes "keeps I m" and "\<And>x. keeps I (f x)"
  shows "keeps I (eff_bind m f)"
  unfolding keeps_ensures
  by (rule ensures_bind [where R = "\<lambda>_. I"]) (use assms in \<open>simp_all add: keeps_ensures\<close>)

lemma keeps_if [keeps_rules]:
  "(b \<Longrightarrow> keeps I m) \<Longrightarrow> (\<not> b \<Longrightarrow> keeps I n) \<Longrightarrow> keeps I (if b then m else n)"
  by simp

lemma keeps_option [keeps_rules]:
  "(x = None \<Longrightarrow> keeps I m) \<Longrightarrow> (\<And>y. x = Some y \<Longrightarrow> keeps I (f y)) \<Longrightarrow>
   keeps I (case x of None \<Rightarrow> m | Some y \<Rightarrow> f y)"
  by (cases x) simp_all

lemma keeps_prod [keeps_rules]:
  "(\<And>a b. x = (a, b) \<Longrightarrow> keeps I (f a b)) \<Longrightarrow> keeps I (case x of (a, b) \<Rightarrow> f a b)"
  by (cases x) simp

lemma ensures_seq:
  assumes "keeps I m" and "\<And>x. ensures I (f x) Q I"
  shows "ensures I (eff_bind m f) Q I"
  by (rule ensures_bind [where R = "\<lambda>_. I"]) (use assms in \<open>simp_all add: keeps_ensures\<close>)

lemma ensures_read:
  assumes "\<And>x. ensures (\<lambda>s. P s \<and> g s = x) (f x) Q F"
  shows "ensures P (eff_bind (eff_gets g) f) Q F"
  using assms by (simp add: ensures_def)

section \<open>Maps\<close>

lemma map_upd_cases: "(m(k \<mapsto> v)) x = Some y \<longleftrightarrow> (x = k \<and> y = v) \<or> (x \<noteq> k \<and> m x = Some y)"
  by auto

text \<open>How an example that is computed is shown to be a result.\<close>

lemma ran: "\<not> Option.is_none x \<Longrightarrow> x = Some (the x)"
  by (cases x) simp_all

end
