(* ===== verification/Logger.thy ===== *)
theory Logger
  imports Prelude
begin

text \<open>
  \<open>common/log/Logger.h\<close>, \<open>common/log/Logger.cpp\<close>: severities with their order, the filter
  \<open>configure\<close> installs, and the four overloads of \<open>write\<close>. The sinks are Boost.Log's: the model keeps
  the parameters they are added with and the records that pass the filter.
\<close>

section \<open>Severities\<close>

datatype level = Trace | Debug | Info | Warning | Error | Fatal

fun severity :: "level \<Rightarrow> nat" where
  "severity Trace = 0"
| "severity Debug = 1"
| "severity Info = 2"
| "severity Warning = 3"
| "severity Error = 4"
| "severity Fatal = 5"

lemma severity_inject [simp]: "severity a = severity b \<longleftrightarrow> a = b"
  by (cases a; cases b) simp_all

instantiation level :: linorder
begin

definition less_eq_level :: "level \<Rightarrow> level \<Rightarrow> bool" where
  "less_eq_level a b \<longleftrightarrow> severity a \<le> severity b"

definition less_level :: "level \<Rightarrow> level \<Rightarrow> bool" where
  "less_level a b \<longleftrightarrow> severity a < severity b"

instance
  by standard (auto simp: less_eq_level_def less_level_def)

end

section \<open>The logging core\<close>

datatype sink =
    File_log string nat string \<comment> \<open>file name, rotation size, format; rotated at midnight\<close>
  | Console_log string

record log_core =
  log_filter :: level
  emitted :: "(level \<times> string) list" \<comment> \<open>history: records that passed the filter\<close>
  log_sinks :: "sink list"
  common_attributes :: bool

definition configure :: "level \<Rightarrow> log_core \<Rightarrow> log_core" where
  "configure lvl c =
     (let format = ''%LineID%: [%TimeStamp%]<%Severity%>: %Message%'';
          c1 = c\<lparr>log_sinks := log_sinks c @ [File_log ''log%3N.txt'' (10 * 1024 * 1024) format]\<rparr>;
          c2 = c1\<lparr>log_sinks := log_sinks c1 @ [Console_log format]\<rparr>;
          c3 = c2\<lparr>log_filter := lvl\<rparr>
      in c3\<lparr>common_attributes := True\<rparr>)"

definition log_message :: "string \<Rightarrow> string \<Rightarrow> string" where
  "log_message location body = ''['' @ location @ ''] '' @ body"

definition log_write :: "level \<Rightarrow> string \<Rightarrow> string \<Rightarrow> log_core \<Rightarrow> log_core" where
  "log_write lvl location body c =
     (let logMsg = log_message location body
      in if log_filter c \<le> lvl then c\<lparr>emitted := emitted c @ [(lvl, logMsg)]\<rparr> else c)"

text \<open>
  The overloads for Boost formats call \<open>str\<close>, which throws when arguments are missing; \<open>str\<close> is a
  parameter. The compiler may evaluate the arguments of the inner call in either order; both give
  the same exception to the caller only if one of them fails, so the order is an argument.
\<close>

definition log_write_text ::
  "('f \<Rightarrow> exn + string) \<Rightarrow> level \<Rightarrow> string \<Rightarrow> 'f \<Rightarrow> (log_core, unit) eff" where
  "log_write_text str lvl location body =
     (case str body of
        Inl e \<Rightarrow> eff_throw e
      | Inr t \<Rightarrow> eff_modify (log_write lvl location t))"

definition log_write_location ::
  "('f \<Rightarrow> exn + string) \<Rightarrow> level \<Rightarrow> 'f \<Rightarrow> string \<Rightarrow> (log_core, unit) eff" where
  "log_write_location str lvl location t =
     (case str location of
        Inl e \<Rightarrow> eff_throw e
      | Inr l \<Rightarrow> eff_modify (log_write lvl l t))"

definition log_write_both ::
  "('f \<Rightarrow> exn + string) \<Rightarrow> bool \<Rightarrow> level \<Rightarrow> 'f \<Rightarrow> 'f \<Rightarrow> (log_core, unit) eff" where
  "log_write_both str left_first lvl location body =
     (case (str location, str body) of
        (Inl e, Inl e') \<Rightarrow> eff_throw (if left_first then e else e')
      | (Inl e, Inr t) \<Rightarrow> eff_throw e
      | (Inr l, Inl e) \<Rightarrow> eff_throw e
      | (Inr l, Inr t) \<Rightarrow> eff_modify (log_write lvl l t))"

text \<open>Either one record is offered to the filter, or none and the caller gets an exception of \<open>str\<close>.\<close>

lemma log_write_both_cases:
  "(\<exists>l t. str location = Inr l \<and> str body = Inr t \<and> log_write_both str b lvl location body c = (Inr (), log_write lvl l t c)) \<or>
   (\<exists>e. (str location = Inl e \<or> str body = Inl e) \<and> log_write_both str b lvl location body c = (Inl (Thrown e), c))"
  by (cases "str location"; cases "str body") (auto simp: log_write_both_def)

text \<open>Configuring twice adds every sink twice, so each record would come out twice.\<close>

lemma configure_twice: "log_sinks (configure m (configure lvl c)) = log_sinks c @
   drop (length (log_sinks c)) (log_sinks (configure lvl c)) @ drop (length (log_sinks c)) (log_sinks (configure lvl c))"
  by (simp add: configure_def Let_def)

fun log_writes :: "(level \<times> string \<times> string) list \<Rightarrow> log_core \<Rightarrow> log_core" where
  "log_writes [] c = c"
| "log_writes ((l, loc, body) # rs) c = log_writes rs (log_write l loc body c)"

lemma log_writes_emitted:
  "emitted (log_writes rs c) = emitted c @
     map (\<lambda>(l, loc, body). (l, log_message loc body)) (filter (\<lambda>r. log_filter c \<le> fst r) rs)"
proof (induction rs arbitrary: c)
  case (Cons r rs)
  obtain l loc body where r: "r = (l, loc, body)" by (cases r)
  have "log_filter (log_write l loc body c) = log_filter c" by (simp add: log_write_def Let_def)
  with Cons [of "log_write l loc body c"] r show ?case by (simp add: log_write_def Let_def)
qed simp

section \<open>Properties\<close>

text \<open>After \<open>configure\<close> with a level, exactly the records at or above that level are emitted, in
  the order they were written and with the location in front, whatever was emitted before.\<close>

theorem configured_filter:
  "emitted (log_writes rs (configure lvl c)) = emitted c @
     map (\<lambda>(l, loc, body). (l, ''['' @ loc @ ''] '' @ body)) (filter (\<lambda>r. lvl \<le> fst r) rs)"
proof -
  have "log_filter (configure lvl c) = lvl" and "emitted (configure lvl c) = emitted c"
    by (simp_all add: configure_def Let_def)
  then show ?thesis by (simp only: log_writes_emitted) (simp add: log_message_def)
qed

end
