(* ===== verification/Task_Queue.thy ===== *)
theory Task_Queue
  imports Prelude "HOL-Library.Multiset"
begin

text \<open>
  \<open>common/ThreadSafeQueue.h\<close>, \<open>common/ThreadSafeQueue.cpp\<close>: a queue of tasks and the threads
  that empty it. The threads interleave, so the component is a state machine: one action is one
  step of one thread between two points where another thread can act. The mutex, the condition
  variable and \<open>quit_\<close> behave as the C++ standard says; the condition variable may wake a thread
  for no reason. Tasks are of any type.
\<close>

section \<open>State\<close>

text \<open>
  Where a worker is in \<open>ThreadSafeQueue::worker\<close>: before the test of the loop, before the lock,
  evaluating the predicate of \<open>cv_.wait\<close>, about to block after it was false, blocked, woken and
  waiting for the mutex, past the wait, running a task, at the final lock, and returned. From
  \<open>PredTest\<close> to \<open>PredFalse\<close> and in \<open>PastWait\<close> it holds the mutex.
\<close>

datatype 'a pc =
    LoopTest
  | Locking
  | PredTest
  | PredFalse
  | Blocked
  | Woken
  | PastWait
  | Running 'a
  | FinalLock
  | Returned

text \<open>How far the destructor is: not called, \<open>quit_\<close> set, \<open>notify_all\<close> done, all joined.\<close>

datatype dtor = NotCalled | QuitSet | Notified | Joined

record 'a pool =
  queueTasks :: "'a list"
  cv_mutex :: "nat option" \<comment> \<open>the worker that holds it\<close>
  quit :: bool
  threads :: "'a pc list"
  dtor_at :: dtor
  pushed :: "'a list" \<comment> \<open>history: everything pushed, in order\<close>
  taken :: "'a list" \<comment> \<open>history: everything popped, in order\<close>
  finished :: "'a list" \<comment> \<open>history: everything run to its end, in order\<close>

text \<open>\<open>start(threadCount)\<close> on a fresh queue.\<close>

definition started :: "nat \<Rightarrow> 'a pool" where
  "started n = \<lparr>queueTasks = [], cv_mutex = None, quit = False, threads = replicate n LoopTest,
     dtor_at = NotCalled, pushed = [], taken = [], finished = []\<rparr>"

section \<open>Actions\<close>

text \<open>
  \<open>Push x (Some i)\<close> is a push whose \<open>notify_one\<close> wakes worker \<open>i\<close>; \<open>Push x None\<close> one that finds
  nobody blocked. \<open>Finish i\<close> is the end of a task, whether it returned or threw a
  \<open>std::exception\<close>, which the worker catches.
\<close>

datatype 'a action =
    Push 'a "nat option"
  | TestQuit nat
  | Lock nat
  | TestPred nat
  | Block nat
  | SpuriousWake nat
  | Relock nat
  | Pop nat
  | Finish nat
  | Leave nat
  | SetQuit
  | NotifyAll
  | Join

definition set_pc :: "nat \<Rightarrow> 'a pc \<Rightarrow> 'a pool \<Rightarrow> 'a pool" where
  "set_pc i c p = p\<lparr>threads := (threads p)[i := c]\<rparr>"

definition at :: "'a pool \<Rightarrow> nat \<Rightarrow> 'a pc \<Rightarrow> bool" where
  "at p i c \<longleftrightarrow> i < length (threads p) \<and> threads p ! i = c"

definition wake :: "'a pc \<Rightarrow> 'a pc" where
  "wake c = (if c = Blocked then Woken else c)"

fun pool_step :: "'a action \<Rightarrow> 'a pool \<Rightarrow> 'a pool option" where
  "pool_step (Push x w) p =
     (if cv_mutex p = None \<and> dtor_at p = NotCalled then
        let p1 = p\<lparr>queueTasks := queueTasks p @ [x], pushed := pushed p @ [x]\<rparr>
        in case w of
             None \<Rightarrow> if Blocked \<in> set (threads p) then None else Some p1
           | Some i \<Rightarrow> if at p i Blocked then Some (set_pc i Woken p1) else None
      else None)"
| "pool_step (TestQuit i) p =
     (if at p i LoopTest then Some (set_pc i (if quit p then FinalLock else Locking) p) else None)"
| "pool_step (Lock i) p =
     (if at p i Locking \<and> cv_mutex p = None
      then Some (set_pc i PredTest (p\<lparr>cv_mutex := Some i\<rparr>)) else None)"
| "pool_step (TestPred i) p =
     (if at p i PredTest
      then Some (set_pc i (if queueTasks p \<noteq> [] \<or> quit p then PastWait else PredFalse) p)
      else None)"
| "pool_step (Block i) p =
     (if at p i PredFalse then Some (set_pc i Blocked (p\<lparr>cv_mutex := None\<rparr>)) else None)"
| "pool_step (SpuriousWake i) p =
     (if at p i Blocked then Some (set_pc i Woken p) else None)"
| "pool_step (Relock i) p =
     (if at p i Woken \<and> cv_mutex p = None
      then Some (set_pc i PredTest (p\<lparr>cv_mutex := Some i\<rparr>)) else None)"
| "pool_step (Pop i) p =
     (if at p i PastWait then
        case queueTasks p of
          x # xs \<Rightarrow>
            Some (set_pc i (Running x)
                    (p\<lparr>queueTasks := xs, taken := taken p @ [x], cv_mutex := None\<rparr>))
        | [] \<Rightarrow> Some (set_pc i LoopTest (p\<lparr>cv_mutex := None\<rparr>))
      else None)"
| "pool_step (Finish i) p =
     (if i < length (threads p) then
        case threads p ! i of
          Running x \<Rightarrow> Some (set_pc i LoopTest (p\<lparr>finished := finished p @ [x]\<rparr>))
        | _ \<Rightarrow> None
      else None)"
| "pool_step (Leave i) p =
     (if at p i FinalLock \<and> cv_mutex p = None then Some (set_pc i Returned p) else None)"
| "pool_step SetQuit p =
     (if dtor_at p = NotCalled then Some (p\<lparr>quit := True, dtor_at := QuitSet\<rparr>) else None)"
| "pool_step NotifyAll p =
     (if dtor_at p = QuitSet
      then Some (p\<lparr>threads := map wake (threads p), dtor_at := Notified\<rparr>) else None)"
| "pool_step Join p =
     (if dtor_at p = Notified \<and> (\<forall>c \<in> set (threads p). c = Returned)
      then Some (p\<lparr>dtor_at := Joined\<rparr>) else None)"

fun pool_run :: "'a action list \<Rightarrow> 'a pool \<Rightarrow> 'a pool option" where
  "pool_run [] p = Some p"
| "pool_run (a # as) p =
     (case pool_step a p of None \<Rightarrow> None | Some p' \<Rightarrow> pool_run as p')"

inductive pool_reach :: "nat \<Rightarrow> 'a pool \<Rightarrow> bool" for n :: nat where
  pool_start: "pool_reach n (started n)"
| pool_next: "pool_reach n p \<Longrightarrow> pool_step a p = Some p' \<Longrightarrow> pool_reach n p'"

lemma pool_run_reach: "pool_reach n p \<Longrightarrow> pool_run as p = Some p' \<Longrightarrow> pool_reach n p'"
  by (induction "as" arbitrary: p) (auto split: option.splits intro: pool_next)

section \<open>The invariant\<close>

definition holds_mutex :: "'a pc \<Rightarrow> bool" where
  "holds_mutex c \<longleftrightarrow> c \<in> {PredTest, PredFalse, PastWait}"

fun running :: "'a pc \<Rightarrow> 'a list" where
  "running (Running x) = [x]"
| "running _ = []"

definition in_progress :: "'a pool \<Rightarrow> 'a list" where
  "in_progress p = concat (map running (threads p))"

text \<open>
  A worker holds the mutex exactly when its program counter says so; tasks leave the queue in the
  order they came; and a popped task is either being run by one worker or finished.
\<close>

definition pool_inv :: "'a pool \<Rightarrow> bool" where
  "pool_inv p \<longleftrightarrow>
     (\<forall>i < length (threads p). holds_mutex (threads p ! i) \<longleftrightarrow> cv_mutex p = Some i) \<and>
     (\<forall>i. cv_mutex p = Some i \<longrightarrow> i < length (threads p)) \<and>
     pushed p = taken p @ queueTasks p \<and>
     mset (taken p) = mset (in_progress p) + mset (finished p)"

lemma running_not [simp]: "\<forall>x. c \<noteq> Running x \<Longrightarrow> running c = []"
  by (cases c) auto

lemma mset_in_progress_update:
  assumes "i < length ws"
  shows "mset (concat (map running (ws[i := c]))) + mset (running (ws ! i)) =
         mset (concat (map running ws)) + mset (running c)"
  using assms
proof (induction ws arbitrary: i)
  case (Cons w ws)
  then show ?case by (cases i) (auto simp: ac_simps)
qed simp

lemma set_pc_fields [simp]:
  "queueTasks (set_pc i c p) = queueTasks p" "cv_mutex (set_pc i c p) = cv_mutex p"
  "quit (set_pc i c p) = quit p" "dtor_at (set_pc i c p) = dtor_at p"
  "pushed (set_pc i c p) = pushed p" "taken (set_pc i c p) = taken p"
  "finished (set_pc i c p) = finished p" "threads (set_pc i c p) = (threads p)[i := c]"
  by (simp_all add: set_pc_def)

lemma pool_inv_set_pc:
  assumes "pool_inv p" and "i < length (threads p)"
    and "cv_mutex q = (if holds_mutex c then Some i
                       else if holds_mutex (threads p ! i) then None else cv_mutex p)"
    and "holds_mutex c \<Longrightarrow> \<not> holds_mutex (threads p ! i) \<Longrightarrow> cv_mutex p = None"
    and "threads q = threads p" and "pushed q = taken q @ queueTasks q"
    and "mset (taken q) + mset (running (threads p ! i)) + mset (finished p) =
         mset (taken p) + mset (running c) + mset (finished q)"
  shows "pool_inv (set_pc i c q)"
proof -
  have owner: "holds_mutex (threads p ! j) \<longleftrightarrow> cv_mutex p = Some j" if "j < length (threads p)" for j
    using that assms(1) by (simp add: pool_inv_def)
  have "holds_mutex ((threads p)[i := c] ! j) \<longleftrightarrow> cv_mutex q = Some j"
    if "j < length (threads p)" for j
    using that owner [of i] owner [of j] assms(2-4)
    by (cases "j = i") (auto split: if_splits)
  moreover have "j < length (threads p)" if "cv_mutex q = Some j" for j
    using that assms(1-3) by (auto simp: pool_inv_def split: if_splits)
  moreover have "mset (taken q) = mset (concat (map running ((threads p)[i := c]))) + mset (finished q)"
  proof -
    have "mset (taken p) = mset (concat (map running (threads p))) + mset (finished p)"
      using assms(1) by (simp add: pool_inv_def in_progress_def)
    with assms(7) mset_in_progress_update [OF assms(2), of c]
    have "mset (taken q) + (mset (running (threads p ! i)) + mset (finished p)) =
      mset (concat (map running ((threads p)[i := c]))) + mset (finished q) +
      (mset (running (threads p ! i)) + mset (finished p))"
      by (simp add: ac_simps)
    then show ?thesis by (simp only: add_right_cancel)
  qed
  ultimately show ?thesis
    using assms(5,6) by (simp add: pool_inv_def in_progress_def)
qed

lemma pool_inv_started: "pool_inv (started n)"
  by (simp add: pool_inv_def started_def in_progress_def holds_mutex_def)

lemma running_wake [simp]: "running (wake c) = running c"
  by (cases c) (simp_all add: wake_def)

lemma holds_wake [simp]: "holds_mutex (wake c) = holds_mutex c"
  by (simp add: wake_def holds_mutex_def)

text \<open>The two actions that move tasks, by case.\<close>

definition with_task :: "'a \<Rightarrow> 'a pool \<Rightarrow> 'a pool" where
  "with_task x p = p\<lparr>queueTasks := queueTasks p @ [x], pushed := pushed p @ [x]\<rparr>"

lemma push_step_cases [consumes 1]:
  assumes "pool_step (Push x w) p = Some p'"
  obtains (asleep) "p' = with_task x p"
    | (woken) i where "at p i Blocked" and "p' = set_pc i Woken (with_task x p)"
  using assms that by (cases w) (auto simp: with_task_def split: if_splits)

lemma pop_step_cases [consumes 1]:
  assumes "pool_step (Pop i) p = Some p'"
  obtains (idle) "at p i PastWait" and "p' = set_pc i LoopTest (p\<lparr>cv_mutex := None\<rparr>)"
    | (task) x xs where "at p i PastWait" and "queueTasks p = x # xs"
      and "p' = set_pc i (Running x) (p\<lparr>queueTasks := xs, taken := taken p @ [x], cv_mutex := None\<rparr>)"
  using assms that by (auto split: if_splits list.splits)

text \<open>
  The remaining actions of a worker move only its program counter and the mutex. \<open>can_pop\<close> says
  from where a worker may still reach a pop without testing \<open>quit_\<close> again.
\<close>

fun can_pop :: "'a pc \<Rightarrow> bool" where
  "can_pop LoopTest = False"
| "can_pop (Running x) = False"
| "can_pop FinalLock = False"
| "can_pop Returned = False"
| "can_pop _ = True"

fun local_to :: "'a action \<Rightarrow> nat option" where
  "local_to (TestQuit i) = Some i"
| "local_to (Lock i) = Some i"
| "local_to (TestPred i) = Some i"
| "local_to (Block i) = Some i"
| "local_to (SpuriousWake i) = Some i"
| "local_to (Relock i) = Some i"
| "local_to (Leave i) = Some i"
| "local_to _ = None"

lemma local_step:
  assumes "local_to a = Some i" and "pool_step a p = Some p'"
  shows "i < length (threads p)"
    and "p' = set_pc i (threads p' ! i) (p\<lparr>cv_mutex := cv_mutex p'\<rparr>)"
    and "running (threads p' ! i) = []" and "running (threads p ! i) = []"
    and "quit p \<Longrightarrow> can_pop (threads p' ! i) \<Longrightarrow> can_pop (threads p ! i)"
    and "holds_mutex (threads p' ! i) \<Longrightarrow> \<not> holds_mutex (threads p ! i) \<Longrightarrow> cv_mutex p = None"
  using assms by (cases a; auto simp: at_def holds_mutex_def split: if_splits)+

lemma local_step_mutex:
  assumes "local_to a = Some i" and "pool_step a p = Some p'"
    and "holds_mutex (threads p ! i) \<Longrightarrow> cv_mutex p = Some i"
  shows "cv_mutex p' = (if holds_mutex (threads p' ! i) then Some i
                        else if holds_mutex (threads p ! i) then None else cv_mutex p)"
  using assms by (cases a) (auto simp: at_def holds_mutex_def split: if_splits)

lemma local_step_inv:
  assumes "pool_inv p" and "local_to a = Some i" and "pool_step a p = Some p'"
  shows "pool_inv p'"
proof -
  note l = local_step [OF assms(2,3)]
  have "holds_mutex (threads p ! i) \<Longrightarrow> cv_mutex p = Some i"
    using assms(1) l(1) by (simp add: pool_inv_def)
  note m = local_step_mutex [OF assms(2,3) this]
  have "pool_inv (set_pc i (threads p' ! i) (p\<lparr>cv_mutex := cv_mutex p'\<rparr>))"
    by (rule pool_inv_set_pc [OF assms(1) l(1)])
      (use l m assms(1) in \<open>simp_all add: pool_inv_def\<close>)
  then show ?thesis using l(2) by simp
qed

lemma pool_step_inv:
  assumes "pool_inv p" and "pool_step a p = Some p'"
  shows "pool_inv p'"
proof (cases a)
  case (Push x w)
  have q: "pool_inv (with_task x p)"
    using assms(1) by (simp add: pool_inv_def in_progress_def with_task_def)
  from assms(2) [unfolded Push] show ?thesis
  proof (cases rule: push_step_cases)
    case asleep
    with q show ?thesis by simp
  next
    case (woken i)
    show ?thesis unfolding woken(2)
      by (rule pool_inv_set_pc [OF q])
        (use woken(1) q in \<open>auto simp: at_def holds_mutex_def pool_inv_def with_task_def\<close>)
  qed
next
  case (Pop i)
  from assms(2) [unfolded Pop] show ?thesis
  proof (cases rule: pop_step_cases)
    case idle
    show ?thesis unfolding idle(2)
      by (rule pool_inv_set_pc [OF assms(1)])
        (use idle(1) assms(1) in \<open>auto simp: at_def holds_mutex_def pool_inv_def\<close>)
  next
    case (task x xs)
    show ?thesis unfolding task(3)
      by (rule pool_inv_set_pc [OF assms(1)])
        (use task(1,2) assms(1) in \<open>auto simp: at_def holds_mutex_def pool_inv_def\<close>)
  qed
next
  case NotifyAll
  with assms show ?thesis
    by (auto simp: pool_inv_def in_progress_def comp_def split: if_splits)
next
  case SetQuit
  with assms show ?thesis by (auto simp: pool_inv_def in_progress_def split: if_splits)
next
  case Join
  with assms show ?thesis by (auto simp: pool_inv_def in_progress_def split: if_splits)
next
  case (Finish i)
  with assms(2) obtain x where i: "i < length (threads p)" "threads p ! i = Running x"
    and p': "p' = set_pc i LoopTest (p\<lparr>finished := finished p @ [x]\<rparr>)"
    by (auto split: if_splits pc.splits)
  show ?thesis unfolding p'
    by (rule pool_inv_set_pc [OF assms(1) i(1)])
      (use i assms(1) in \<open>auto simp: holds_mutex_def pool_inv_def\<close>)
qed (use local_step_inv [OF assms(1) _ assms(2)] in simp_all)

lemma pool_reach_inv: "pool_reach n p \<Longrightarrow> pool_inv p"
  by (induction rule: pool_reach.induct) (auto intro: pool_inv_started pool_step_inv)

lemma pool_step_threads: "pool_step a p = Some p' \<Longrightarrow> length (threads p') = length (threads p)"
  by (cases a) (auto simp: Let_def split: if_splits option.splits list.splits pc.splits)

lemma pool_reach_threads: "pool_reach n p \<Longrightarrow> length (threads p) = n"
  by (induction rule: pool_reach.induct) (simp_all add: started_def pool_step_threads)

section \<open>Stopping\<close>

text \<open>
  After \<open>quit_\<close> is set, a worker that has already tested it may still take one task, and no more:
  \<open>may_take\<close> counts those workers.
\<close>

definition may_take :: "'a pool \<Rightarrow> nat" where
  "may_take p = length (filter can_pop (threads p))"

lemma can_pop_wake [simp]: "can_pop (wake c) = can_pop c"
  by (cases c) (simp_all add: wake_def)

lemma filter_update:
  assumes "i < length ws"
  shows "length (filter P (ws[i := c])) + (if P (ws ! i) then 1 else 0) =
         length (filter P ws) + (if P c then 1 else 0)"
  using assms
proof (induction ws arbitrary: i)
  case (Cons w ws)
  then show ?case by (cases i) auto
qed simp

lemma may_take_set_pc:
  assumes "i < length (threads p)" and "threads q = threads p"
    and "can_pop c \<Longrightarrow> can_pop (threads p ! i)"
  shows "may_take (set_pc i c q) \<le> may_take p"
    and "can_pop (threads p ! i) \<Longrightarrow> \<not> can_pop c \<Longrightarrow> Suc (may_take (set_pc i c q)) = may_take p"
  using assms filter_update [OF assms(1), of can_pop c]
  by (auto simp: may_take_def split: if_splits)

lemma local_quit_step:
  assumes "local_to a = Some i" and "quit p" and "pool_step a p = Some p'"
  shows "quit p' \<and> length (taken p') + may_take p' \<le> length (taken p) + may_take p"
proof -
  note l = local_step [OF assms(1,3)]
  have "may_take (set_pc i (threads p' ! i) (p\<lparr>cv_mutex := cv_mutex p'\<rparr>)) \<le> may_take p"
    by (rule may_take_set_pc(1)) (use l(1,5) assms(2) in simp_all)
  moreover have "quit p' = quit p" and "taken p' = taken p" by (subst l(2), simp)+
  ultimately show ?thesis using l(2) assms(2) by simp
qed

lemma quit_step:
  assumes "quit p" and "pool_step a p = Some p'"
  shows "quit p' \<and> length (taken p') + may_take p' \<le> length (taken p) + may_take p"
proof (cases a)
  case (Push x w)
  from assms(2) [unfolded Push] show ?thesis
  proof (cases rule: push_step_cases)
    case asleep
    with assms(1) show ?thesis by (simp add: with_task_def may_take_def)
  next
    case (woken i)
    have "may_take p' \<le> may_take p" unfolding woken(2)
      by (rule may_take_set_pc(1)) (use woken(1) in \<open>auto simp: at_def with_task_def\<close>)
    with woken(2) assms(1) show ?thesis by (simp add: with_task_def)
  qed
next
  case NotifyAll
  with assms show ?thesis by (auto simp: may_take_def filter_map comp_def split: if_splits)
next
  case (Pop i)
  from assms(2) [unfolded Pop] show ?thesis
  proof (cases rule: pop_step_cases)
    case idle
    have "may_take p' \<le> may_take p" unfolding idle(2)
      by (rule may_take_set_pc(1)) (use idle(1) in \<open>auto simp: at_def\<close>)
    with idle(2) assms(1) show ?thesis by simp
  next
    case (task x xs)
    have "Suc (may_take p') = may_take p" unfolding task(3)
      by (rule may_take_set_pc(2)) (use task(1) in \<open>auto simp: at_def\<close>)
    with task assms(1) show ?thesis by simp
  qed
next
  case (Finish i)
  with assms(2) obtain x where i: "i < length (threads p)"
    and p': "p' = set_pc i LoopTest (p\<lparr>finished := finished p @ [x]\<rparr>)"
    by (auto split: if_splits pc.splits)
  have "may_take p' \<le> may_take p" unfolding p'
    by (rule may_take_set_pc(1)) (use i in simp_all)
  with p' assms(1) show ?thesis by simp
next
  case SetQuit
  with assms show ?thesis by (auto simp: may_take_def split: if_splits)
next
  case Join
  with assms show ?thesis by (auto simp: may_take_def split: if_splits)
qed (use local_quit_step [OF _ assms] in simp_all)

lemma quit_run:
  assumes "quit p" and "pool_run as p = Some p'"
  shows "length (taken p') \<le> length (taken p) + may_take p"
  using assms
proof (induction "as" arbitrary: p)
  case Nil
  then show ?case by simp
next
  case (Cons a "as")
  then obtain q where q: "pool_step a p = Some q" and run: "pool_run as q = Some p'"
    by (auto split: option.splits)
  from quit_step [OF Cons.prems(1) q] Cons.IH [OF _ run] show ?case by auto
qed

text \<open>The tasks one worker takes in a run, and that it takes none without having been able to.\<close>

fun taken_by :: "nat \<Rightarrow> 'a action list \<Rightarrow> 'a pool \<Rightarrow> 'a list" where
  "taken_by i [] p = []"
| "taken_by i (a # as) p =
     (case pool_step a p of
        None \<Rightarrow> []
      | Some p' \<Rightarrow> (case a of Pop j \<Rightarrow> if i = j then drop (length (taken p)) (taken p') else [] | _ \<Rightarrow> [])
                    @ taken_by i as p')"

lemma quit_worker_step:
  assumes "quit p" and "pool_step a p = Some p'" and "i < length (threads p)"
    and "can_pop (threads p' ! i)"
  shows "can_pop (threads p ! i)" and "a = Pop i \<Longrightarrow> taken p' = taken p"
proof -
  have "can_pop (threads p ! i) \<and> (a = Pop i \<longrightarrow> taken p' = taken p)"
    using assms
    by (cases a)
      (auto simp: at_def nth_list_update Let_def split: if_splits option.splits list.splits pc.splits)
  then show "can_pop (threads p ! i)" and "a = Pop i \<Longrightarrow> taken p' = taken p" by simp_all
qed

lemma pop_takes:
  assumes "pool_step (Pop i) p = Some p'"
  shows "i < length (threads p)" and "can_pop (threads p ! i)" and "length (drop (length (taken p)) (taken p')) \<le> 1"
  using assms by (auto simp: at_def split: if_splits list.splits)

lemma quit_taken_by:
  assumes "quit p" and "i < length (threads p)"
  shows "length (taken_by i as p) \<le> (if can_pop (threads p ! i) then 1 else 0)"
  using assms
proof (induction "as" arbitrary: p)
  case (Cons a "as")
  show ?case
  proof (cases "pool_step a p")
    case (Some q)
    have q: "quit q" "i < length (threads q)"
      using quit_step [OF Cons.prems(1) Some] pool_step_threads [OF Some] Cons.prems(2) by simp_all
    note step = quit_worker_step [OF Cons.prems(1) Some Cons.prems(2)] and rest = Cons.IH [OF q]
    show ?thesis
    proof (cases "a = Pop i")
      case True
      note pop = pop_takes [OF Some [unfolded True]]
      show ?thesis using rest step(2) [OF _ True] pop(2,3) Some True by (cases "can_pop (threads q ! i)") auto
    next
      case False
      then have "taken_by i (a # as) p = taken_by i as q" using Some by (cases a) auto
      then show ?thesis using rest step(1) by (auto split: if_splits)
    qed
  qed simp
qed simp

lemma taken_by_outside: "length (threads p) \<le> i \<Longrightarrow> taken_by i as p = []"
proof (induction "as" arbitrary: p)
  case (Cons a "as")
  show ?case
  proof (cases "pool_step a p")
    case (Some q)
    have "a \<noteq> Pop i" using Some pop_takes(1) Cons.prems by fastforce
    then show ?thesis
      using Cons.IH [of q] Cons.prems pool_step_threads [OF Some] Some by (cases a) simp_all
  qed simp
qed simp

section \<open>No lost wake-up while the queue is in use\<close>

text \<open>
  Until the destructor runs, a queued task always finds a worker that is not asleep: a worker only
  blocks while it holds the mutex and has seen the queue empty, and a push cannot come between.
\<close>

definition awake_inv :: "'a pool \<Rightarrow> bool" where
  "awake_inv p \<longleftrightarrow> dtor_at p = NotCalled \<longrightarrow>
     \<not> quit p \<and> FinalLock \<notin> set (threads p) \<and> Returned \<notin> set (threads p) \<and>
     (queueTasks p \<noteq> [] \<longrightarrow>
        PredFalse \<notin> set (threads p) \<and> set (threads p) \<noteq> {Blocked})"

lemma set_pc_mem: "i < length (threads p) \<Longrightarrow> c \<in> set (threads (set_pc i c p))"
  by (simp add: set_update_memI)

lemma set_pc_subset: "x \<in> set (threads (set_pc i c p)) \<Longrightarrow> x = c \<or> x \<in> set (threads p)"
  using set_update_subset_insert [of "threads p" i c] by auto

lemma awake_set_pc:
  assumes "awake_inv p" and "i < length (threads p)" and "threads q = threads p" and "quit q = quit p"
    and "dtor_at q = dtor_at p" and "c \<noteq> Blocked \<or> queueTasks q = []" and "c \<noteq> Returned"
    and "c = FinalLock \<Longrightarrow> quit p" and "c = PredFalse \<Longrightarrow> queueTasks q = []"
    and "queueTasks q \<noteq> [] \<Longrightarrow> queueTasks p \<noteq> []"
  shows "awake_inv (set_pc i c q)"
proof -
  have mem: "c \<in> set (threads (set_pc i c q))" using assms(2,3) by (intro set_pc_mem) simp
  have sub: "x = c \<or> x \<in> set (threads p)" if "x \<in> set (threads (set_pc i c q))" for x
    using set_pc_subset [OF that] assms(3) by simp
  have awake: "set (threads (set_pc i c q)) \<noteq> {Blocked}" if "queueTasks q \<noteq> []"
    using mem that assms(6) by blast
  show ?thesis
    unfolding awake_inv_def
  proof (intro impI conjI)
    assume "dtor_at (set_pc i c q) = NotCalled"
    then have p: "\<not> quit p" "FinalLock \<notin> set (threads p)" "Returned \<notin> set (threads p)"
      "queueTasks p \<noteq> [] \<Longrightarrow> PredFalse \<notin> set (threads p)"
      using assms(1,5) by (simp_all add: awake_inv_def)
    then show "\<not> quit (set_pc i c q)" using assms(4) by simp
    show "FinalLock \<notin> set (threads (set_pc i c q))" using sub p(1,2) assms(8) by blast
    show "Returned \<notin> set (threads (set_pc i c q))" using sub p(3) assms(7) by blast
    assume "queueTasks (set_pc i c q) \<noteq> []"
    then have q: "queueTasks q \<noteq> []" by simp
    show "PredFalse \<notin> set (threads (set_pc i c q))" using sub p(4) q assms(9,10) by blast
    show "set (threads (set_pc i c q)) \<noteq> {Blocked}" using q by (rule awake)
  qed
qed

lemma mutex_free_holder:
  "pool_inv p \<Longrightarrow> cv_mutex p = None \<Longrightarrow> c \<in> set (threads p) \<Longrightarrow> \<not> holds_mutex c"
  by (auto simp: pool_inv_def in_set_conv_nth)

lemma push_awake:
  assumes "awake_inv p" and "pool_inv p" and "pool_step (Push x w) p = Some p'"
  shows "awake_inv p'"
proof -
  have "cv_mutex p = None" using assms(3) by (auto split: if_splits)
  then have no_pred: "PredFalse \<notin> set (threads p)"
    using mutex_free_holder [OF assms(2), of PredFalse] by (auto simp: holds_mutex_def)
  show ?thesis
  proof (cases w)
    case None
    with assms(3) have "p' = with_task x p" and "Blocked \<notin> set (threads p)"
      by (auto simp: with_task_def split: if_splits)
    with assms(1) no_pred show ?thesis by (auto simp: awake_inv_def with_task_def)
  next
    case (Some i)
    with assms(3) have i: "i < length (threads p)" and p': "p' = set_pc i Woken (with_task x p)"
      by (auto simp: with_task_def at_def split: if_splits)
    have mem: "Woken \<in> set (threads p')" unfolding p' by (rule set_pc_mem) (simp add: with_task_def i)
    have sub: "y = Woken \<or> y \<in> set (threads p)" if "y \<in> set (threads p')" for y
      using set_pc_subset [OF that [unfolded p']] by (simp add: with_task_def)
    have "set (threads p') \<noteq> {Blocked}" using mem by blast
    moreover have "PredFalse \<notin> set (threads p')" using sub no_pred by blast
    moreover have "FinalLock \<notin> set (threads p')" if "FinalLock \<notin> set (threads p)" using sub that by blast
    moreover have "Returned \<notin> set (threads p')" if "Returned \<notin> set (threads p)" using sub that by blast
    moreover have "quit p' = quit p" "dtor_at p' = dtor_at p" by (simp_all add: p' with_task_def)
    ultimately show ?thesis using assms(1) by (simp add: awake_inv_def)
  qed
qed

lemma awake_step:
  assumes "awake_inv p" and "pool_inv p" and "pool_step a p = Some p'"
  shows "awake_inv p'"
proof (cases a)
  case (Push x w)
  show ?thesis by (rule push_awake [OF assms(1,2) assms(3) [unfolded Push]])
next
  case (TestQuit i)
  with assms(3) have i: "i < length (threads p)" and p': "p' = set_pc i (if quit p then FinalLock else Locking) p"
    by (auto simp: at_def split: if_splits)
  show ?thesis unfolding p' by (rule awake_set_pc [OF assms(1) i]) (auto split: if_splits)
next
  case (TestPred i)
  with assms(3) have i: "i < length (threads p)"
    and p': "p' = set_pc i (if queueTasks p \<noteq> [] \<or> quit p then PastWait else PredFalse) p"
    by (auto simp: at_def split: if_splits)
  show ?thesis unfolding p' by (rule awake_set_pc [OF assms(1) i]) (auto split: if_splits)
next
  case (Lock i)
  with assms(3) have i: "i < length (threads p)" and p': "p' = set_pc i PredTest (p\<lparr>cv_mutex := Some i\<rparr>)"
    by (auto simp: at_def split: if_splits)
  show ?thesis unfolding p' by (rule awake_set_pc [OF assms(1) i]) simp_all
next
  case (Relock i)
  with assms(3) have i: "i < length (threads p)" and p': "p' = set_pc i PredTest (p\<lparr>cv_mutex := Some i\<rparr>)"
    by (auto simp: at_def split: if_splits)
  show ?thesis unfolding p' by (rule awake_set_pc [OF assms(1) i]) simp_all
next
  case (SpuriousWake i)
  with assms(3) have i: "i < length (threads p)" and p': "p' = set_pc i Woken p"
    by (auto simp: at_def split: if_splits)
  show ?thesis unfolding p' by (rule awake_set_pc [OF assms(1) i]) simp_all
next
  case (Block i)
  with assms(3) have i: "i < length (threads p)" and at: "threads p ! i = PredFalse"
    and p': "p' = set_pc i Blocked (p\<lparr>cv_mutex := None\<rparr>)"
    by (auto simp: at_def split: if_splits)
  have "PredFalse \<in> set (threads p)" using i at by (metis nth_mem)
  then have "dtor_at p \<noteq> NotCalled \<or> queueTasks p = []" using assms(1) by (auto simp: awake_inv_def)
  then show ?thesis
  proof
    assume "dtor_at p \<noteq> NotCalled"
    then show ?thesis by (simp add: awake_inv_def p')
  next
    assume "queueTasks p = []"
    then show ?thesis unfolding p' by (intro awake_set_pc [OF assms(1) i]) simp_all
  qed
next
  case (Pop i)
  from assms(3) [unfolded Pop] show ?thesis
  proof (cases rule: pop_step_cases)
    case idle
    show ?thesis unfolding idle(2)
      by (rule awake_set_pc [OF assms(1)]) (use idle(1) in \<open>simp_all add: at_def\<close>)
  next
    case (task x xs)
    show ?thesis unfolding task(3)
      by (rule awake_set_pc [OF assms(1)]) (use task(1,2) in \<open>simp_all add: at_def\<close>)
  qed
next
  case (Finish i)
  with assms(3) obtain x where i: "i < length (threads p)"
    and p': "p' = set_pc i LoopTest (p\<lparr>finished := finished p @ [x]\<rparr>)"
    by (auto split: if_splits pc.splits)
  show ?thesis unfolding p' by (rule awake_set_pc [OF assms(1) i]) simp_all
next
  case (Leave i)
  with assms(3) have "i < length (threads p)" and "threads p ! i = FinalLock" and "dtor_at p' = dtor_at p"
    by (auto simp: at_def split: if_splits)
  then have "FinalLock \<in> set (threads p)" and "dtor_at p' = dtor_at p" by (metis nth_mem)+
  with assms(1) show ?thesis by (simp add: awake_inv_def)
next
  case SetQuit
  with assms(3) have "dtor_at p' = QuitSet" by (auto split: if_splits)
  then show ?thesis by (simp add: awake_inv_def)
next
  case NotifyAll
  with assms(3) have "dtor_at p' = Notified" by (auto split: if_splits)
  then show ?thesis by (simp add: awake_inv_def)
next
  case Join
  with assms(3) have "dtor_at p' = Joined" by (auto split: if_splits)
  then show ?thesis by (simp add: awake_inv_def)
qed

lemma awake_reach: "pool_reach n p \<Longrightarrow> awake_inv p"
proof (induction rule: pool_reach.induct)
  case pool_start
  show ?case by (auto simp: awake_inv_def started_def)
next
  case (pool_next p a p')
  then show ?case using awake_step pool_reach_inv by blast
qed

text \<open>The steps a worker makes by itself: all of its own except a wake-up for no reason.\<close>

fun worker_action :: "'a action \<Rightarrow> bool" where
  "worker_action (TestQuit i) = True"
| "worker_action (Lock i) = True"
| "worker_action (TestPred i) = True"
| "worker_action (Block i) = True"
| "worker_action (Relock i) = True"
| "worker_action (Pop i) = True"
| "worker_action (Finish i) = True"
| "worker_action (Leave i) = True"
| "worker_action _ = False"

lemma worker_can_step:
  assumes "i < length (threads p)" and "threads p ! i \<notin> {Blocked, Returned}"
    and "holds_mutex (threads p ! i) \<or> cv_mutex p = None"
  shows "\<exists>a. worker_action a \<and> pool_step a p \<noteq> None"
proof (cases "threads p ! i")
  case LoopTest
  with assms show ?thesis by (intro exI [of _ "TestQuit i"]) (simp add: at_def)
next
  case Locking
  with assms show ?thesis by (intro exI [of _ "Lock i"]) (simp add: at_def holds_mutex_def)
next
  case PredTest
  with assms show ?thesis by (intro exI [of _ "TestPred i"]) (simp add: at_def)
next
  case PredFalse
  with assms show ?thesis by (intro exI [of _ "Block i"]) (simp add: at_def)
next
  case Woken
  with assms show ?thesis by (intro exI [of _ "Relock i"]) (simp add: at_def holds_mutex_def)
next
  case PastWait
  with assms show ?thesis by (intro exI [of _ "Pop i"]) (simp add: at_def split: list.split)
next
  case (Running x)
  with assms show ?thesis by (intro exI [of _ "Finish i"]) simp
next
  case FinalLock
  with assms show ?thesis by (intro exI [of _ "Leave i"]) (simp add: at_def holds_mutex_def)
qed (use assms in simp_all)

section \<open>The end of the destructor\<close>

definition join_inv :: "'a pool \<Rightarrow> bool" where
  "join_inv p \<longleftrightarrow> dtor_at p = Joined \<longrightarrow> set (threads p) \<subseteq> {Returned}"

lemma join_reach: "pool_reach n p \<Longrightarrow> join_inv p"
proof (induction rule: pool_reach.induct)
  case pool_start
  show ?case by (simp add: join_inv_def started_def)
next
  case (pool_next p a p')
  show ?case
  proof (cases "dtor_at p = Joined")
    case True
    then have nth: "i < length (threads p) \<Longrightarrow> threads p ! i = Returned" for i
      using pool_next.IH nth_mem [of i "threads p"] unfolding join_inv_def by blast
    then have "at p i c \<Longrightarrow> c = Returned" for i c unfolding at_def by metis
    with nth have False using True pool_next.hyps(2)
      by (cases a) (force split: if_splits list.splits pc.splits)+
    then show ?thesis ..
  next
    case False
    then show ?thesis using pool_next.hyps(2)
      by (cases a) (auto simp: join_inv_def Let_def split: if_splits option.splits list.splits pc.splits)
  qed
qed

section \<open>Properties\<close>

text \<open>C3: In every interleaving, tasks leave the queue in the order they were pushed and each exactly
  once: what was pushed is what was taken followed by what is still queued, what was taken is being
  run by one worker or finished, and at most one worker is inside the critical section.\<close>

theorem queue_fifo_exactly_once:
  assumes "pool_reach n p"
  shows "pushed p = taken p @ queueTasks p \<and>
    mset (taken p) = mset (in_progress p) + mset (finished p) \<and>
    card {i. i < n \<and> holds_mutex (threads p ! i)} \<le> 1"
proof -
  have inv: "pool_inv p" and n: "length (threads p) = n"
    using assms pool_reach_inv pool_reach_threads by blast+
  have "{i. i < n \<and> holds_mutex (threads p ! i)} \<subseteq> set_option (cv_mutex p)"
    using inv n by (auto simp: pool_inv_def)
  then have "card {i. i < n \<and> holds_mutex (threads p ! i)} \<le> card (set_option (cv_mutex p))"
    by (intro card_mono) simp_all
  also have "\<dots> \<le> 1" by (cases "cv_mutex p") simp_all
  finally show ?thesis using inv by (simp add: pool_inv_def)
qed

definition two_pushes :: "nat action list" where
  "two_pushes = [Push 5 None, Push 6 None, TestQuit 1, Lock 1, TestPred 1, Pop 1, Finish 1]"

definition after_two_pushes :: "nat pool" where
  "after_two_pushes = the (pool_run two_pushes (started 2))"

lemma after_two_pushes_run:
  "pool_run two_pushes (started 2) = Some after_two_pushes"
  "pushed after_two_pushes = [5, 6]" "queueTasks after_two_pushes = [6]"
  "dtor_at after_two_pushes = NotCalled"
  by (code_simp)+

lemma queue_fifo_exactly_once_witness: "taken after_two_pushes = [5]"
  using queue_fifo_exactly_once [OF pool_run_reach [OF pool_start after_two_pushes_run(1)]]
  by (simp add: after_two_pushes_run)

text \<open>C10: While the queue is in use no wake-up is lost: as long as the destructor has not been called
  and a task is queued, some worker can take a step of its own, so the workers never all sleep over
  a waiting task.\<close>

theorem queued_task_is_served:
  assumes "pool_reach n p" and "0 < n" and "dtor_at p = NotCalled" and "queueTasks p \<noteq> []"
  shows "\<exists>a. worker_action a \<and> pool_step a p \<noteq> None"
proof (cases "cv_mutex p")
  case None
  have inv: "awake_inv p" and n: "length (threads p) = n"
    using assms(1) awake_reach pool_reach_threads by blast+
  have some: "set (threads p) \<noteq> {}" using n assms(2) by auto
  have "Returned \<notin> set (threads p)" and "set (threads p) \<noteq> {Blocked}"
    using inv assms(3,4) by (simp_all add: awake_inv_def)
  then have "\<not> set (threads p) \<subseteq> {Blocked}" using some by (simp add: subset_singleton_iff)
  then obtain c where c: "c \<in> set (threads p)" "c \<noteq> Blocked" by blast
  then have "c \<noteq> Returned" using \<open>Returned \<notin> set (threads p)\<close> by metis
  with c have "\<exists>c. c \<in> set (threads p) \<and> c \<noteq> Blocked \<and> c \<noteq> Returned" by blast
  then obtain i where "i < length (threads p)" and "threads p ! i \<notin> {Blocked, Returned}"
    by (auto simp: in_set_conv_nth)
  then show ?thesis by (rule worker_can_step) (simp add: None)
next
  case (Some i)
  have inv: "pool_inv p" using assms(1) by (rule pool_reach_inv)
  then have "i < length (threads p)" and "holds_mutex (threads p ! i)"
    using Some by (simp_all add: pool_inv_def)
  then show ?thesis by (intro worker_can_step) (auto simp: holds_mutex_def)
qed

lemma queued_task_is_served_witness:
  "\<exists>a. worker_action a \<and> pool_step a after_two_pushes \<noteq> None"
  by (rule queued_task_is_served [OF pool_run_reach [OF pool_start after_two_pushes_run(1)]])
    (simp_all add: after_two_pushes_run)

text \<open>C37: The destructor can hang. \<open>quit_\<close> is set and \<open>notify_all\<close> called without the mutex, so a
  worker that has just seen an empty queue and \<open>quit_\<close> unset may block after the notification. In
  the state reached that way nothing can happen any more but a wake-up for no reason, and the
  destructor waits for a worker that sleeps.\<close>

theorem destructor_can_hang:
  "\<exists>p :: nat pool. pool_reach 1 p \<and> dtor_at p = Notified \<and> threads p = [Blocked] \<and>
     {a. pool_step a p \<noteq> None} = {SpuriousWake 0}"
proof -
  let ?trace = "[TestQuit 0, Lock 0, TestPred 0, SetQuit, NotifyAll, Block 0] :: nat action list"
  let ?p = "\<lparr>queueTasks = [], cv_mutex = None, quit = True, threads = [Blocked], dtor_at = Notified,
     pushed = [], taken = [], finished = []\<rparr> :: nat pool"
  have "pool_run ?trace (started 1) = Some ?p" by code_simp
  then have "pool_reach 1 ?p" by (rule pool_run_reach [OF pool_start])
  moreover have "pool_step a ?p \<noteq> None \<longleftrightarrow> a = SpuriousWake 0" for a
    by (cases a) (auto simp: at_def nth_Cons split: nat.splits)
  ultimately show ?thesis by (intro exI [of _ ?p]) simp
qed

text \<open>C38: Stopping is prompt: once \<open>quit_\<close> is set, every worker takes at most one more task, whatever
  is still queued and however the threads interleave; so \<open>n\<close> workers take at most \<open>n\<close> more.\<close>

theorem quit_bounds_work:
  assumes "pool_reach n p" and "quit p" and "pool_run as p = Some p'"
  shows "length (taken_by i as p) \<le> 1 \<and> length (taken p') \<le> length (taken p) + n"
proof
  show "length (taken_by i as p) \<le> 1"
    using quit_taken_by [OF assms(2), of i as] taken_by_outside [of p i as]
    by (cases "i < length (threads p)") (auto split: if_splits)
  have "may_take p \<le> n"
    using pool_reach_threads [OF assms(1)] length_filter_le [of can_pop "threads p"]
    by (simp add: may_take_def)
  with quit_run [OF assms(2,3)] show "length (taken p') \<le> length (taken p) + n" by simp
qed

definition quit_trace :: "nat action list" where
  "quit_trace = [Push 5 None, Push 6 None, TestQuit 0, SetQuit]"

definition after_quit :: "nat action list" where
  "after_quit = [Lock 0, TestPred 0, Pop 0, Finish 0, TestQuit 0, Leave 0, NotifyAll, Join]"

definition quit_state :: "nat pool" where
  "quit_state = the (pool_run quit_trace (started 1))"

lemma quit_state_run: "pool_run quit_trace (started 1) = Some quit_state" "quit quit_state"
  "pool_run after_quit quit_state = Some (the (pool_run after_quit quit_state))"
  "taken_by 0 after_quit quit_state = [5]"
  by code_simp+

lemma quit_bounds_work_witness:
  "taken_by 0 after_quit quit_state = [5] \<and> length (taken_by 0 after_quit quit_state) \<le> 1"
  using quit_bounds_work [OF pool_run_reach [OF pool_start quit_state_run(1)] quit_state_run(2,3), of 0]
    quit_state_run(4) by blast

text \<open>What the destructor leaves: when it has joined, every worker has returned, every task that
  was taken has been run to its end, and the tasks still queued have been dropped.\<close>

theorem joined_drops_queue:
  assumes "pool_reach n p" and "dtor_at p = Joined"
  shows "threads p = replicate n Returned \<and> mset (finished p) = mset (taken p) \<and>
    pushed p = taken p @ queueTasks p"
proof -
  have inv: "pool_inv p" and n: "length (threads p) = n" and j: "join_inv p"
    using assms(1) pool_reach_inv pool_reach_threads join_reach by blast+
  have "set (threads p) \<subseteq> {Returned}" using j assms(2) by (simp add: join_inv_def)
  then have t: "threads p = replicate n Returned"
    using n by (intro replicate_eqI) auto
  then have "in_progress p = []" by (simp add: in_progress_def)
  with inv t show ?thesis by (simp add: pool_inv_def)
qed

lemma joined_drops_queue_witness:
  "pool_run (quit_trace @ after_quit) (started 1) \<noteq> None \<and>
   finished (the (pool_run (quit_trace @ after_quit) (started 1))) = [5] \<and>
   queueTasks (the (pool_run (quit_trace @ after_quit) (started 1))) = [6] \<and>
   threads (the (pool_run (quit_trace @ after_quit) (started 1))) = replicate 1 Returned"
proof -
  have run: "pool_run (quit_trace @ after_quit) (started 1) =
      Some (the (pool_run (quit_trace @ after_quit) (started 1)))"
    and "dtor_at (the (pool_run (quit_trace @ after_quit) (started 1))) = Joined"
    and "finished (the (pool_run (quit_trace @ after_quit) (started 1))) = [5]"
    and "queueTasks (the (pool_run (quit_trace @ after_quit) (started 1))) = [6]"
    by code_simp+
  then show ?thesis
    using joined_drops_queue [OF pool_run_reach [OF pool_start run]] by auto
qed

end
