(* ===== verification/Protocol.thy ===== *)
theory Protocol
  imports Prelude
begin

text \<open>
  What the server takes from the \<open>protocol\<close> package, protobuf, and Boost.Format, none of which
  is part of the repository. The data the code reads field by field (message texts, requests,
  dates) are records with the fields the code names. What those packages compute is a parameter:
  the record \<open>env\<close> collects it, and every definition that needs it takes an \<open>env\<close> as its first
  argument. Theorems hold for every \<open>env\<close>; where one relies on documented behaviour it says so
  with a named hypothesis defined here.
\<close>

section \<open>Dates and messages\<close>

record time =
  hours :: int
  minutes :: int
  seconds :: int

record date =
  day :: int
  month :: int
  year :: int

record datetime =
  dt_time :: time
  dt_date :: date

text \<open>The fields of \<open>std::tm\<close> that the code sets.\<close>

record tm =
  tm_year :: int
  tm_mon :: int
  tm_mday :: int
  tm_hour :: int
  tm_min :: int
  tm_sec :: int

text \<open>\<open>command::ClientTextMsg\<close>\<close>

record text_msg =
  msg_author :: string
  msg_text :: string
  msg_channel_name :: string
  msg_dt :: datetime

section \<open>Requests\<close>

text \<open>
  The protobuf requests, with the accessors the code calls. Client ids are the values that
  reach the code's \<open>std::size_t\<close> variables.
\<close>

record proto_datetime =
  pd_seconds :: int
  pd_minutes :: int
  pd_hours :: int
  pd_day :: int
  pd_month :: int
  pd_year :: int

record credentials =
  login :: string
  password :: string

record text_request =
  tr_login :: string
  tr_channel_name :: string
  tr_room_id :: u64
  tr_text :: string
  tr_datetime :: proto_datetime

record join_room_request =
  jr_client_id :: u64
  jr_channel_name :: string

record history_request =
  hr_client_id :: u64
  hr_channel_name :: string
  hr_since :: proto_datetime

record channels_request =
  cr_client_id :: u64

text \<open>\<open>has_x()\<close> is \<open>x \<noteq> None\<close>.\<close>

record request =
  registration_request :: "credentials option"
  authorisation_request :: "credentials option"
  text_request :: "text_request option"
  join_room_request :: "join_room_request option"
  history_request :: "history_request option"
  channels_request :: "channels_request option"

record header =
  h_command :: int
  h_length :: nat

datatype type_command =
    Unknown
  | RegistrationRequest
  | RegistrationResponse
  | AuthorisationRequest
  | AuthorisationResponse
  | SendTextRequest
  | EchoResponse
  | JoinRoomRequest
  | JoinRoomResponse
  | HistoryRequest
  | HistoryResponse
  | ChannelsRequest
  | ChannelsResponse
  | Unlisted \<comment> \<open>a value of the enum's type with no case label\<close>

section \<open>Responses\<close>

text \<open>One constructor for each instance of \<open>MsgFactory::serialize\<close> the code calls.\<close>

datatype response =
    RegistrationResponseMsg u64
  | AuthorisationResponseMsg u64
  | EchoResponseMsg text_msg
  | JoinRoomResponseMsg string bool
  | HistoryResponseMsg string "text_msg list"
  | ChannelsResponseMsg "string list"

section \<open>The parameters\<close>

record env =
  serialize :: "response \<Rightarrow> bytes"
  ParseHeader :: "bytes \<Rightarrow> header"
  ParseRequest :: "bytes \<Rightarrow> request"
  to_TypeCommand :: "int \<Rightarrow> type_command" \<comment> \<open>the \<open>static_cast\<close> to the enum\<close>
  size_header :: nat \<comment> \<open>\<open>goodok::SIZE_HEADER\<close>\<close>
  mk_Time :: "int \<Rightarrow> int \<Rightarrow> int \<Rightarrow> time" \<comment> \<open>seconds, minutes, hours\<close>
  mk_Date :: "int \<Rightarrow> int \<Rightarrow> int \<Rightarrow> date" \<comment> \<open>day, month, year\<close>
  mk_DateTime :: "time \<Rightarrow> date \<Rightarrow> datetime"
  default_DateTime :: datetime
  dt_equal :: "datetime \<Rightarrow> datetime \<Rightarrow> bool"
  dt_less :: "datetime \<Rightarrow> datetime \<Rightarrow> bool"
  format_outcome :: "string \<Rightarrow> nat \<Rightarrow> exn option"
    \<comment> \<open>what feeding this many arguments to a \<open>boost::format\<close> raises\<close>
  datetime_of_tm :: "tm \<Rightarrow> datetime" \<comment> \<open>assignment of a \<open>std::tm\<close> to a \<open>DateTime\<close>\<close>
  unset_tm :: tm \<comment> \<open>what a \<open>std::tm\<close> holds before anything is assigned to it\<close>

definition request_datetime :: "env \<Rightarrow> proto_datetime \<Rightarrow> datetime" where
  "request_datetime E p =
     mk_DateTime E (mk_Time E (pd_seconds p) (pd_minutes p) (pd_hours p))
                   (mk_Date E (pd_day p) (pd_month p) (pd_year p))"

section \<open>Boost.Format\<close>

text \<open>
  A formatted log call. Log output is not modelled, and a call whose argument count matches its
  format string does nothing else, so those calls do not appear in the model. The calls whose
  count does not match go through \<open>boost_format\<close>.
\<close>

definition boost_format :: "env \<Rightarrow> string \<Rightarrow> nat \<Rightarrow> ('s, unit) eff" where
  "boost_format E fmt n =
     (case format_outcome E fmt n of
        None \<Rightarrow> eff_return ()
      | Some x \<Rightarrow> eff_throw x)"

definition directives :: "string \<Rightarrow> nat" where
  "directives fmt = length (filter (\<lambda>c. c = CHR ''%'') fmt) div 2"

text \<open>
  The documented default of Boost.Format: feeding more arguments than the format string has
  directives raises \<open>too_many_args\<close>.
\<close>

definition format_documented :: "env \<Rightarrow> bool" where
  "format_documented E \<longleftrightarrow>
     (\<forall>fmt n. directives fmt < n \<longrightarrow> format_outcome E fmt n = Some (Format_error ''too_many_args''))"

lemma boost_format_state [simp]: "snd (boost_format E fmt n s) = s"
  by (simp add: boost_format_def split: option.split)

lemma keeps_boost_format [keeps_rules]: "keeps I (boost_format E fmt n)"
  by (simp add: keeps_def)

lemma boost_format_extra:
  "format_documented E \<Longrightarrow> directives fmt < n \<Longrightarrow>
   boost_format E fmt n s = (Inl (Thrown (Format_error ''too_many_args'')), s)"
  by (simp add: boost_format_def format_documented_def)

section \<open>A concrete instance\<close>

text \<open>
  One \<open>env\<close> with computable components, on which the examples of the development run: a header
  is two bytes, command and length; a body byte is a character, and a body fills every kind of
  request with its text; time stamps compare by the calendar.
\<close>

definition text_of :: "bytes \<Rightarrow> string" where
  "text_of b = map (\<lambda>x. char_of (unat x)) b"

definition bytes_of :: "string \<Rightarrow> bytes" where
  "bytes_of t = map (\<lambda>c. word_of_nat (of_char c)) t"

fun sample_serialize :: "response \<Rightarrow> bytes" where
  "sample_serialize (RegistrationResponseMsg i) = [2, ucast i]"
| "sample_serialize (AuthorisationResponseMsg i) = [4, ucast i]"
| "sample_serialize (EchoResponseMsg m) = 6 # bytes_of (msg_text m)"
| "sample_serialize (JoinRoomResponseMsg n b) = 8 # (if b then 1 else 0) # bytes_of n"
| "sample_serialize (HistoryResponseMsg n ms) = 10 # concat (map (\<lambda>m. bytes_of (msg_text m)) ms)"
| "sample_serialize (ChannelsResponseMsg ns) = 12 # concat (map bytes_of ns)"

definition zero_datetime :: datetime where
  "zero_datetime = \<lparr>dt_time = \<lparr>hours = 0, minutes = 0, seconds = 0\<rparr>,
                    dt_date = \<lparr>day = 0, month = 0, year = 0\<rparr>\<rparr>"

definition zero_proto_datetime :: proto_datetime where
  "zero_proto_datetime = \<lparr>pd_seconds = 0, pd_minutes = 0, pd_hours = 0, pd_day = 0, pd_month = 0,
                          pd_year = 0\<rparr>"

definition sample_request :: "bytes \<Rightarrow> request" where
  "sample_request b =
     \<lparr>registration_request = Some \<lparr>login = text_of b, password = text_of b\<rparr>,
      authorisation_request = Some \<lparr>login = text_of b, password = text_of b\<rparr>,
      text_request = Some \<lparr>tr_login = text_of b, tr_channel_name = text_of b, tr_room_id = 0,
        tr_text = text_of b, tr_datetime = zero_proto_datetime\<rparr>,
      join_room_request = Some \<lparr>jr_client_id = 1, jr_channel_name = text_of b\<rparr>,
      history_request = Some \<lparr>hr_client_id = 1, hr_channel_name = text_of b,
        hr_since = zero_proto_datetime\<rparr>,
      channels_request = Some \<lparr>cr_client_id = 1\<rparr>\<rparr>"

definition no_request :: request where
  "no_request = \<lparr>registration_request = None, authorisation_request = None, text_request = None,
     join_room_request = None, history_request = None, channels_request = None\<rparr>"

definition sample_command :: "int \<Rightarrow> type_command" where
  "sample_command n =
     (if 0 \<le> n \<and> n < 13 then
        [Unknown, RegistrationRequest, RegistrationResponse, AuthorisationRequest,
         AuthorisationResponse, SendTextRequest, EchoResponse, JoinRoomRequest, JoinRoomResponse,
         HistoryRequest, HistoryResponse, ChannelsRequest, ChannelsResponse] ! nat n
      else Unlisted)"

definition stamp :: "datetime \<Rightarrow> int" where
  "stamp t =
     ((((year (dt_date t) * 12 + month (dt_date t)) * 31 + day (dt_date t)) * 24
        + hours (dt_time t)) * 60 + minutes (dt_time t)) * 60 + seconds (dt_time t)"

definition sample_env :: env where
  "sample_env =
     \<lparr>serialize = sample_serialize,
      ParseHeader = (\<lambda>b. \<lparr>h_command = uint (b ! 0), h_length = unat (b ! 1)\<rparr>),
      ParseRequest = sample_request,
      to_TypeCommand = sample_command,
      size_header = 2,
      mk_Time = (\<lambda>s m h. \<lparr>hours = h, minutes = m, seconds = s\<rparr>),
      mk_Date = (\<lambda>d m y. \<lparr>day = d, month = m, year = y\<rparr>),
      mk_DateTime = (\<lambda>t d. \<lparr>dt_time = t, dt_date = d\<rparr>),
      default_DateTime = zero_datetime,
      dt_equal = (=),
      dt_less = (\<lambda>a b. stamp a < stamp b),
      format_outcome = (\<lambda>fmt n.
        if directives fmt < n then Some (Format_error ''too_many_args'') else None),
      datetime_of_tm = (\<lambda>t.
        \<lparr>dt_time = \<lparr>hours = tm_hour t, minutes = tm_min t, seconds = tm_sec t\<rparr>,
         dt_date = \<lparr>day = tm_mday t, month = tm_mon t + 1, year = tm_year t + 1900\<rparr>\<rparr>),
      unset_tm = \<lparr>tm_year = 77, tm_mon = 77, tm_mday = 77, tm_hour = 77, tm_min = 77, tm_sec = 77\<rparr>\<rparr>"

lemma sample_env_fields [simp]:
  "serialize sample_env = sample_serialize"
  "ParseHeader sample_env = (\<lambda>b. \<lparr>h_command = uint (b ! 0), h_length = unat (b ! 1)\<rparr>)"
  "ParseRequest sample_env = sample_request"
  "to_TypeCommand sample_env = sample_command"
  "size_header sample_env = 2"
  "default_DateTime sample_env = zero_datetime"
  "dt_equal sample_env = (=)"
  by (simp_all add: sample_env_def)

lemma sample_format: "format_documented sample_env"
  by (simp add: format_documented_def sample_env_def)

end
