(* ===== verification/Database.thy ===== *)
theory Database
  imports Protocol
begin

text \<open>
  The interface \<open>db::IDatabase\<close> (\<open>database/IDatabase.h\<close>) as a table of effects on the state
  of whichever backend implements it, and the contracts a backend can promise, each a locale
  over the operations it is about: \<open>user_registry\<close> for accounts, \<open>channel_directory\<close> and
  \<open>channel_lookup\<close> for channel names and \<open>history_log\<close> for messages. \<open>Storage\<close> and \<open>WrapperPg\<close>
  both interpret them, each as far as it keeps them.
\<close>

section \<open>The interface\<close>

type_synonym type_id_user = u64

definition LOGIN_IS_FREE :: type_id_user where
  "LOGIN_IS_FREE = 0"

definition REG_LOGIN_IS_BUSY :: type_id_user where
  "REG_LOGIN_IS_BUSY = 0"

definition AUTH_LOGIN_IS_NOT_AVAILABLE :: type_id_user where
  "AUTH_LOGIN_IS_NOT_AVAILABLE = 0"

lemmas db_codes [simp] =
  LOGIN_IS_FREE_def REG_LOGIN_IS_BUSY_def AUTH_LOGIN_IS_NOT_AVAILABLE_def

record connect_settings =
  cs_user :: string
  cs_password :: string
  cs_host :: string
  cs_db :: string

definition default_connect_settings :: connect_settings where
  "default_connect_settings =
     \<lparr>cs_user = ''postgres'', cs_password = ''123'', cs_host = ''127.0.0.1'', cs_db = ''chat''\<rparr>"

record input_settings =
  clientName :: string
  clientPassword :: string

record 'db idatabase =
  db_connect :: "connect_settings \<Rightarrow> ('db, bool) eff"
  db_checkRegUser :: "input_settings \<Rightarrow> ('db, type_id_user) eff"
  db_checkAuthUser :: "input_settings \<Rightarrow> ('db, type_id_user) eff"
  db_getUserNameChannels :: "type_id_user \<Rightarrow> ('db, string list) eff"
  db_getChannelUsers :: "type_id_user \<Rightarrow> ('db, type_id_user list) eff"
  db_hasChannel :: "string \<Rightarrow> ('db, bool) eff"
  db_createChannel :: "string \<Rightarrow> ('db, type_id_user) eff"
  db_joinClientChannel :: "type_id_user \<Rightarrow> string \<Rightarrow> ('db, unit) eff"
  db_addMsgHistory :: "type_id_user \<Rightarrow> text_msg \<Rightarrow> ('db, unit) eff"
  db_getHistory :: "type_id_user \<Rightarrow> ('db, text_msg list) eff"
  db_getChannelId :: "string \<Rightarrow> ('db, type_id_user) eff"
  db_getCurrentChannels :: "('db, type_id_user \<rightharpoonup> string) eff"

section \<open>What all contracts share\<close>

text \<open>
  A backend's promises hold while its own invariant \<open>ok\<close> does, and they are about a \<open>view\<close> of its
  state. A call that only reads may still leave another state, of which \<open>same\<close> says that it cannot be
  told from the one before: a connection to a server is not the same value after a query, a map in
  memory is.
\<close>

locale observed_backend =
  fixes ok :: "'db \<Rightarrow> bool"
    and same :: "'db \<Rightarrow> 'db \<Rightarrow> bool"
    and view :: "'db \<Rightarrow> 'v"
  assumes same_keeps: "same d d' \<Longrightarrow> ok d \<Longrightarrow> ok d' \<and> view d' = view d"
begin

text \<open>A call that answers a question about the view, asked twice, answers it twice.\<close>

lemma read_again:
  assumes reads: "\<And>d. ok d \<Longrightarrow> \<exists>d'. m d = (Inr (f (view d)), d') \<and> same d d'"
    and "ok d" and "m d = (Inr x, d')"
  shows "\<exists>d2. m d' = (Inr x, d2) \<and> ok d2 \<and> view d2 = view d"
proof -
  have x: "x = f (view d)" and d': "ok d'" "view d' = view d"
    using reads [OF assms(2)] assms(2,3) same_keeps [of d d'] by auto
  obtain d2 where "m d' = (Inr (f (view d')), d2)" "same d' d2" using reads [OF d'(1)] by blast
  then show ?thesis using x d' same_keeps [of d' d2] by auto
qed

end

section \<open>The account contract\<close>

text \<open>
  \<open>accounts d\<close> is the abstract content of a backend: login to id and password. \<open>room\<close> says it can
  still hand out an id, and \<open>good\<close> for which inputs the backend makes the promise.
\<close>

type_synonym account_map = "string \<rightharpoonup> type_id_user \<times> string"

definition account_ids :: "account_map \<Rightarrow> type_id_user set" where
  "account_ids a = {i. \<exists>n p. a n = Some (i, p)}"

definition auth_answer :: "account_map \<Rightarrow> input_settings \<Rightarrow> type_id_user" where
  "auth_answer a s =
     (case a (clientName s) of
        None \<Rightarrow> AUTH_LOGIN_IS_NOT_AVAILABLE
      | Some (i, p) \<Rightarrow> if p = clientPassword s then i else AUTH_LOGIN_IS_NOT_AVAILABLE)"

locale user_registry = observed_backend ok same accounts
  for ok :: "'db \<Rightarrow> bool"
    and same :: "'db \<Rightarrow> 'db \<Rightarrow> bool"
    and accounts :: "'db \<Rightarrow> account_map" +
  fixes reg :: "input_settings \<Rightarrow> ('db, type_id_user) eff"
    and auth :: "input_settings \<Rightarrow> ('db, type_id_user) eff"
    and room :: "'db \<Rightarrow> bool"
    and good :: "input_settings \<Rightarrow> bool"
  assumes reg_fresh: "good s \<Longrightarrow> ok d \<Longrightarrow> room d \<Longrightarrow> accounts d (clientName s) = None \<Longrightarrow>
      \<exists>i d'. reg s d = (Inr i, d') \<and> ok d' \<and> i \<noteq> REG_LOGIN_IS_BUSY \<and>
        i \<notin> account_ids (accounts d) \<and>
        accounts d' = (accounts d)(clientName s \<mapsto> (i, clientPassword s))"
    and reg_busy: "good s \<Longrightarrow> ok d \<Longrightarrow> accounts d (clientName s) = Some a \<Longrightarrow>
      \<exists>d'. reg s d = (Inr REG_LOGIN_IS_BUSY, d') \<and> same d d'"
    and auth_reads: "good s \<Longrightarrow> ok d \<Longrightarrow>
      \<exists>d'. auth s d = (Inr (auth_answer (accounts d) s), d') \<and> same d d'"
    and ids_nonzero: "ok d \<Longrightarrow> 0 \<notin> account_ids (accounts d)"
begin

lemma reg_cases:
  assumes "good s" and "ok d" and "room d" and "reg s d = (r, d')"
  obtains (fresh) i where "accounts d (clientName s) = None" and "r = Inr i" and "i \<noteq> 0"
      and "i \<notin> account_ids (accounts d)" and "ok d'"
      and "accounts d' = (accounts d)(clientName s \<mapsto> (i, clientPassword s))"
    | (busy) a where "accounts d (clientName s) = Some a" and "r = Inr 0"
      and "ok d'" and "accounts d' = accounts d" and "same d d'"
proof (cases "accounts d (clientName s)")
  case None
  with reg_fresh [OF assms(1-3)] assms(4) fresh show thesis by auto
next
  case (Some a)
  with reg_busy [OF assms(1,2)] assms(2,4) same_keeps busy show thesis by fastforce
qed

lemma reg_total:
  assumes "good s" and "ok d" and "room d"
  obtains i d' where "reg s d = (Inr i, d')" and "ok d'"
    and "i \<noteq> 0 \<longleftrightarrow> accounts d (clientName s) = None"
  by (cases "reg s d") (use assms in \<open>auto elim: reg_cases\<close>)

lemma reg_then_auth:
  assumes "good s" and "ok d" and "room d" and "reg s d = (Inr i, d')" and "i \<noteq> 0"
  shows "\<exists>d2. auth s d' = (Inr i, d2) \<and> same d' d2"
  using assms(1-4)
proof (cases rule: reg_cases)
  case (fresh j)
  then show ?thesis using auth_reads [OF assms(1), of d'] by (auto simp: auth_answer_def)
next
  case (busy a)
  with assms(5) show ?thesis by simp
qed

lemma auth_accepts:
  assumes "good s" and "ok d" and "auth s d = (Inr i, d')"
  shows "i \<noteq> 0 \<longleftrightarrow> (\<exists>j. accounts d (clientName s) = Some (j, clientPassword s))"
proof -
  have "i = auth_answer (accounts d) s" using assms auth_reads [of s d] by auto
  moreover have "j \<noteq> 0" if "accounts d (clientName s) = Some (j, p)" for j p
    using that ids_nonzero [OF assms(2)] by (auto simp: account_ids_def)
  ultimately show ?thesis by (auto simp: auth_answer_def split: option.splits)
qed

lemma reg_keeps_others:
  assumes "good s" and "ok d" and "room d" and "reg s d = (Inr i, d')" and "n \<noteq> clientName s"
  shows "accounts d' n = accounts d n"
  using assms(1-4) by (cases rule: reg_cases) (use assms(5) in auto)

lemma reg_injective:
  assumes "good s" and "ok d" and "room d" and "inj_on (\<lambda>n. fst (the (accounts d n))) (dom (accounts d))"
    and "reg s d = (Inr i, d')"
  shows "inj_on (\<lambda>n. fst (the (accounts d' n))) (dom (accounts d'))"
  using assms(1-3,5)
proof (cases rule: reg_cases)
  case (fresh j)
  have "fst (the (accounts d n)) \<noteq> j" if "n \<in> dom (accounts d)" for n
    using that fresh by (auto simp: account_ids_def)
  then show ?thesis using assms(4) fresh by (auto simp: inj_on_def)
next
  case (busy a)
  then show ?thesis using assms(4) by simp
qed

end

section \<open>The channel directory contract\<close>

locale channel_directory = observed_backend ok same names
  for ok :: "'db \<Rightarrow> bool"
    and same :: "'db \<Rightarrow> 'db \<Rightarrow> bool"
    and names :: "'db \<Rightarrow> string \<rightharpoonup> type_id_user" +
  fixes has :: "string \<Rightarrow> ('db, bool) eff"
    and create :: "string \<Rightarrow> ('db, type_id_user) eff"
    and room :: "'db \<Rightarrow> bool"
    and good :: "string \<Rightarrow> bool"
  assumes has_reads: "good n \<Longrightarrow> ok d \<Longrightarrow> \<exists>d'. has n d = (Inr (names d n \<noteq> None), d') \<and> same d d'"
    and create_fresh: "good n \<Longrightarrow> ok d \<Longrightarrow> room d \<Longrightarrow> names d n = None \<Longrightarrow>
      \<exists>i d'. create n d = (Inr i, d') \<and> ok d' \<and> i \<noteq> 0 \<and> i \<notin> ran (names d) \<and>
        names d' = (names d)(n \<mapsto> i)"
    and room_stays: "same d d' \<Longrightarrow> ok d \<Longrightarrow> room d \<Longrightarrow> room d'"
    and create_known: "good n \<Longrightarrow> ok d \<Longrightarrow> names d n = Some i \<Longrightarrow>
      \<exists>d'. create n d = (Inr i, d') \<and> same d d'"
begin

lemma create_names:
  assumes "good n" and "ok d" and "room d" and "create n d = (Inr i, d')"
  shows "ok d'" and "names d' n = Some i" and "m \<noteq> n \<Longrightarrow> names d' m = names d m"
proof -
  have "ok d' \<and> names d' n = Some i \<and> (m \<noteq> n \<longrightarrow> names d' m = names d m)"
  proof (cases "names d n")
    case None
    with create_fresh [OF assms(1-3)] assms(4) show ?thesis by auto
  next
    case (Some j)
    with create_known [OF assms(1,2)] assms(2,4) same_keeps show ?thesis by fastforce
  qed
  then show "ok d'" and "names d' n = Some i" and "m \<noteq> n \<Longrightarrow> names d' m = names d m" by simp_all
qed

lemma create_then_has:
  assumes "good n" and "ok d" and "room d" and "create n d = (Inr i, d')"
  shows "\<exists>d2. has n d' = (Inr True, d2) \<and> same d' d2"
  using has_reads [OF assms(1) create_names(1) [OF assms]] create_names(2) [OF assms] by simp

lemma create_idempotent:
  assumes "good n" and "ok d" and "room d" and "create n d = (Inr i, d')"
  shows "\<exists>d2. create n d' = (Inr i, d2) \<and> same d' d2"
  by (rule create_known [OF assms(1) create_names(1,2) [OF assms]])

end

section \<open>The channel lookup contract\<close>

text \<open>
  What \<open>createOrGetChannelByName\<close> relies on besides: the id of a known name can be asked for, and so
  can the members of a known channel.
\<close>

locale channel_lookup = channel_directory ok same names has create room good
  for ok :: "'db \<Rightarrow> bool"
    and same :: "'db \<Rightarrow> 'db \<Rightarrow> bool"
    and names :: "'db \<Rightarrow> string \<rightharpoonup> type_id_user"
    and has :: "string \<Rightarrow> ('db, bool) eff"
    and create :: "string \<Rightarrow> ('db, type_id_user) eff"
    and room :: "'db \<Rightarrow> bool"
    and good :: "string \<Rightarrow> bool" +
  fixes getId :: "string \<Rightarrow> ('db, type_id_user) eff"
    and getUsers :: "type_id_user \<Rightarrow> ('db, type_id_user list) eff"
  assumes getId_reads: "good n \<Longrightarrow> ok d \<Longrightarrow> names d n = Some i \<Longrightarrow>
      \<exists>d'. getId n d = (Inr i, d') \<and> same d d'"
    and getUsers_reads: "ok d \<Longrightarrow> names d n = Some i \<Longrightarrow>
      \<exists>us d'. getUsers i d = (Inr us, d') \<and> same d d'"
    and names_nonzero: "ok d \<Longrightarrow> 0 \<notin> ran (names d)"
begin

lemma create_then_getId:
  assumes "good n" and "ok d" and "room d" and "create n d = (Inr i, d')"
  shows "\<exists>d2. getId n d' = (Inr i, d2) \<and> same d' d2"
  by (rule getId_reads [OF assms(1) create_names(1,2) [OF assms]])

end

section \<open>The history contract\<close>

text \<open>
  A backend may hand the messages back in another order: \<open>arranged\<close> says which lists count as an
  answer. \<open>known\<close> says which channels can be asked for and \<open>good\<close> which messages can be stored.
\<close>

locale history_log = observed_backend ok same hist
  for ok :: "'db \<Rightarrow> bool"
    and same :: "'db \<Rightarrow> 'db \<Rightarrow> bool"
    and hist :: "'db \<Rightarrow> type_id_user \<Rightarrow> text_msg list" +
  fixes add :: "type_id_user \<Rightarrow> text_msg \<Rightarrow> ('db, unit) eff"
    and get :: "type_id_user \<Rightarrow> ('db, text_msg list) eff"
    and arranged :: "text_msg list \<Rightarrow> text_msg list \<Rightarrow> bool"
    and known :: "type_id_user \<Rightarrow> bool"
    and good :: "'db \<Rightarrow> type_id_user \<Rightarrow> text_msg \<Rightarrow> bool"
  assumes get_reads: "ok d \<Longrightarrow> known c \<Longrightarrow>
      \<exists>ms d'. get c d = (Inr ms, d') \<and> arranged ms (hist d c) \<and> same d d'"
    and add_appends: "ok d \<Longrightarrow> good d c m \<Longrightarrow>
      \<exists>d'. add c m d = (Inr (), d') \<and> ok d' \<and> hist d' = (hist d)(c := hist d c @ [m])"
begin

lemma add_then_get:
  assumes "ok d" and "good d c m" and "known c"
  obtains d' ms d2 where "add c m d = (Inr (), d')" and "get c d' = (Inr ms, d2)"
    and "arranged ms (hist d c @ [m])"
proof -
  obtain d' where d': "add c m d = (Inr (), d')" "ok d'" "hist d' = (hist d)(c := hist d c @ [m])"
    using add_appends [OF assms(1,2)] by blast
  then show thesis using get_reads [OF d'(2) assms(3)] that by fastforce
qed

lemma add_other_channel:
  assumes "ok d" and "good d c m" and "add c m d = (Inr (), d')" and "c' \<noteq> c"
  shows "hist d' c' = hist d c'"
  using add_appends [OF assms(1,2)] assms(3,4) by auto

end

end
