(* ===== verification/Users.thy ===== *)
theory Users
  imports Database
begin

text \<open>
  \<open>channels/users\<close>: the user object (\<open>IUser.h\<close>, \<open>User.h\<close>, \<open>User.cpp\<close>) and the table of
  connected users, \<open>UserManager\<close> (\<open>UserManager.h\<close>, \<open>UserManager.cpp\<close>). A session is named by
  a number that stands for the session object a \<open>sessionWeakPtr\<close> points to; whether that object
  is still alive is part of the world (theory \<open>World\<close>).
\<close>

section \<open>The user object\<close>

type_synonym session = nat

record user_settings =
  us_session :: session
  us_name :: string
  us_password :: string
  us_id :: type_id_user

record user =
  u_session :: session
  u_login :: string
  u_password :: string
  u_id :: type_id_user

type_synonym user_ptr = "user option"

definition User_new :: "user_settings \<Rightarrow> user" where
  "User_new s = \<lparr>u_session = us_session s, u_login = us_name s, u_password = us_password s,
                 u_id = us_id s\<rparr>"

definition updateSession :: "session \<Rightarrow> user \<Rightarrow> user" where
  "updateSession s u = u\<lparr>u_session := s\<rparr>"

definition setId :: "type_id_user \<Rightarrow> user \<Rightarrow> user" where
  "setId i u = u\<lparr>u_id := i\<rparr>"

text \<open>The functors of \<open>IUser.h\<close>, with \<open>std::hash<std::string>\<close> as a parameter. Both follow the pointers
  they are given.\<close>

definition IUserHash :: "(string \<Rightarrow> u64) \<Rightarrow> user_ptr \<Rightarrow> failure + u64" where
  "IUserHash hash p = (case p of None \<Rightarrow> Inl Null_pointer | Some u \<Rightarrow> Inr (hash (u_login u)))"

definition IUserEqual :: "user_ptr \<Rightarrow> user_ptr \<Rightarrow> failure + bool" where
  "IUserEqual lhs rhs =
     (case lhs of
        None \<Rightarrow> Inl Null_pointer
      | Some u \<Rightarrow> (case rhs of None \<Rightarrow> Inl Null_pointer | Some v \<Rightarrow> Inr (u_login u = u_login v)))"

text \<open>Users that are equal have one hash, as an unordered container needs.\<close>

lemma IUserEqual_hash: "IUserEqual p q = Inr True \<Longrightarrow> IUserHash hash p = IUserHash hash q"
  by (auto simp: IUserEqual_def IUserHash_def split: option.splits)

section \<open>The user manager\<close>

record user_manager =
  idClients :: "type_id_user \<rightharpoonup> user_ptr"

definition empty_user_manager :: user_manager where
  "empty_user_manager = \<lparr>idClients = Map.empty\<rparr>"

definition UserManager_create :: "user_settings \<Rightarrow> user_ptr" where
  "UserManager_create s = Some (User_new s)"

definition UserManager_push :: "user_ptr \<Rightarrow> (user_manager, unit) eff" where
  "UserManager_push data =
     (case data of
        None \<Rightarrow> eff_return ()
      | Some u \<Rightarrow>
          eff_bind (eff_gets (\<lambda>m. idClients m (u_id u))) (\<lambda>found.
          case found of
            Some (Some old) \<Rightarrow>
              eff_modify (\<lambda>m. m\<lparr>idClients :=
                (idClients m)(u_id u \<mapsto> Some (updateSession (u_session u) old))\<rparr>)
          | Some None \<Rightarrow> eff_fail Null_pointer
          | None \<Rightarrow>
              eff_modify (\<lambda>m. m\<lparr>idClients := (idClients m)(u_id u \<mapsto> Some u)\<rparr>)))"

definition UserManager_getUser :: "type_id_user \<Rightarrow> user_manager \<Rightarrow> user_ptr" where
  "UserManager_getUser i m =
     (case idClients m i of
        Some p \<Rightarrow> (case p of Some u \<Rightarrow> Some u | None \<Rightarrow> None)
      | None \<Rightarrow> None)"

section \<open>Lemmas\<close>

text \<open>Every entry is a live object filed under its own id, and no id is the failure code 0.\<close>

definition users_inv :: "user_manager \<Rightarrow> bool" where
  "users_inv m \<longleftrightarrow>
     (\<forall>i p. idClients m i = Some p \<longrightarrow> i \<noteq> 0 \<and> (\<exists>u. p = Some u \<and> u_id u = i))"

lemma users_inv_empty [simp]: "users_inv empty_user_manager"
  by (simp add: users_inv_def empty_user_manager_def)

lemma users_invD: "users_inv m \<Longrightarrow> idClients m i = Some p \<Longrightarrow> \<exists>u. p = Some u \<and> u_id u = i"
  by (simp add: users_inv_def)

lemma push_new:
  "idClients m (u_id u) = None \<Longrightarrow>
   UserManager_push (Some u) m = (Inr (), m\<lparr>idClients := (idClients m)(u_id u \<mapsto> Some u)\<rparr>)"
  by (simp add: UserManager_push_def)

lemma push_known:
  "idClients m (u_id u) = Some (Some old) \<Longrightarrow>
   UserManager_push (Some u) m =
     (Inr (), m\<lparr>idClients := (idClients m)(u_id u \<mapsto> Some (old\<lparr>u_session := u_session u\<rparr>))\<rparr>)"
  by (simp add: UserManager_push_def updateSession_def)

lemma push_cases:
  assumes "users_inv m"
  obtains (new) "idClients m (u_id u) = None"
      and "UserManager_push (Some u) m = (Inr (), m\<lparr>idClients := (idClients m)(u_id u \<mapsto> Some u)\<rparr>)"
    | (known) old where "idClients m (u_id u) = Some (Some old)" and "u_id old = u_id u"
      and "UserManager_push (Some u) m =
        (Inr (), m\<lparr>idClients := (idClients m)(u_id u \<mapsto> Some (old\<lparr>u_session := u_session u\<rparr>))\<rparr>)"
proof (cases "idClients m (u_id u)")
  case None
  with new push_new show thesis by blast
next
  case (Some p)
  with users_invD [OF assms] obtain old where "p = Some old" and "u_id old = u_id u" by blast
  with Some known push_known show thesis by blast
qed

lemma push_users_inv:
  assumes "users_inv m" and "u_id u \<noteq> 0"
  obtains m' where "UserManager_push (Some u) m = (Inr (), m')" and "users_inv m'"
proof (cases rule: push_cases [OF assms(1), of u])
  case 1
  with assms that show thesis by (simp add: users_inv_def)
next
  case (2 old)
  with assms that show thesis by (simp add: users_inv_def)
qed

lemma push_getUser:
  assumes "users_inv m" and "UserManager_push (Some u) m = (Inr (), m')"
  shows "\<exists>v. UserManager_getUser (u_id u) m' = Some v \<and> u_session v = u_session u \<and> u_id v = u_id u"
  using assms
  by (cases rule: push_cases [OF assms(1), of u]) (auto simp: UserManager_getUser_def)

lemma push_frame:
  assumes "users_inv m" and "UserManager_push (Some u) m = (Inr (), m')" and "i \<noteq> u_id u"
  shows "idClients m' i = idClients m i"
  using assms by (cases rule: push_cases [OF assms(1), of u]) auto

lemma getUser_id: "users_inv m \<Longrightarrow> UserManager_getUser i m = Some u \<Longrightarrow> u_id u = i \<and> i \<noteq> 0"
  by (auto simp: UserManager_getUser_def users_inv_def split: option.splits)

section \<open>Properties\<close>

definition sample_user :: "session \<Rightarrow> type_id_user \<Rightarrow> user" where
  "sample_user s i = \<lparr>u_session = s, u_login = ''ann'', u_password = ''x'', u_id = i\<rparr>"

text \<open>Pushing a user never fails on a well-formed table, keeps it well formed, and leaves the
  other entries alone. A new id is filed as given; for an id that is already connected only the
  session changes, so the last session to log in takes the user over.\<close>

theorem push_takes_over:
  assumes "users_inv m" and "u_id u \<noteq> 0"
  shows "\<exists>m'. UserManager_push (Some u) m = (Inr (), m') \<and> users_inv m' \<and>
    UserManager_getUser (u_id u) m' =
      Some (case UserManager_getUser (u_id u) m of
              None \<Rightarrow> u
            | Some old \<Rightarrow> old\<lparr>u_session := u_session u\<rparr>) \<and>
    (\<forall>j. j = u_id u \<or> UserManager_getUser j m' = UserManager_getUser j m)"
proof -
  obtain m' where m': "UserManager_push (Some u) m = (Inr (), m')" and inv: "users_inv m'"
    using push_users_inv [OF assms] by blast
  show ?thesis
  proof (cases rule: push_cases [OF assms(1), of u])
    case 1
    with m' inv show ?thesis by (auto simp: UserManager_getUser_def split: if_splits)
  next
    case (2 old)
    with m' inv show ?thesis by (auto simp: UserManager_getUser_def split: if_splits)
  qed
qed

lemma push_takes_over_witness:
  "\<exists>m'. UserManager_push (Some (sample_user 7 1)) \<lparr>idClients = [1 \<mapsto> Some (sample_user 3 1)]\<rparr> = (Inr (), m')
     \<and> UserManager_getUser 1 m' = Some (sample_user 7 1)"
proof -
  have "users_inv \<lparr>idClients = [1 \<mapsto> Some (sample_user 3 1)]\<rparr>" and "u_id (sample_user 7 1) \<noteq> 0"
    by (simp_all add: users_inv_def sample_user_def)
  from push_takes_over [OF this] show ?thesis
    by (auto simp: UserManager_getUser_def sample_user_def)
qed

end
