(* ===== verification/World.thy ===== *)
theory World
  imports Users
begin

text \<open>
  The objects the components share, in one record. Smart pointers become explicit: a weak pointer
  that can be locked is a field that is \<open>Some\<close>, a \<open>shared_ptr<IChannel>\<close> is an address into a store
  of channel objects (two managers or requests may hold the same channel), and a
  \<open>sessionWeakPtr\<close> can be locked while its session is in \<open>w_sessions\<close>. The write queue holds the
  tasks \<open>SocketWriter::write\<close> has posted and no worker has taken yet (\<open>ThreadSafeQueue\<close>).
\<close>

section \<open>The shared state\<close>

text \<open>The members of a \<open>Channel\<close> that are its own (\<open>Channel.h\<close>).\<close>

record channel =
  ch_name :: string
  ch_id :: type_id_user
  idUsers :: "type_id_user set"

type_synonym channel_ref = nat
type_synonym channel_ptr = "channel_ref option"

text \<open>A posted \<open>SocketWriter::writeImpl_\<close>: whose socket, and the message it owns.\<close>

type_synonym write_task = "session \<times> bytes"

record 'db world =
  w_db :: "'db option" \<comment> \<open>what locking \<open>weak_ptr<IDatabase>\<close> gives\<close>
  w_users :: "user_manager option" \<comment> \<open>what locking \<open>weak_ptr<UserManager>\<close> gives\<close>
  idChannels :: "type_id_user \<rightharpoonup> channel_ptr" \<comment> \<open>\<open>ChannelsManager::idChannels_\<close>\<close>
  w_heap :: "channel_ref \<rightharpoonup> channel"
  w_next :: channel_ref
  w_sessions :: "session set"
  w_engine :: bool \<comment> \<open>whether \<open>weak_ptr<QueryEngine>\<close> can be locked\<close>
  w_queue :: "write_task list option" \<comment> \<open>what locking \<open>weak_ptr<ThreadSafeQueue>\<close> gives\<close>

definition start_world :: "'db \<Rightarrow> 'db world" where
  "start_world d = \<lparr>w_db = Some d, w_users = Some empty_user_manager, idChannels = Map.empty,
     w_heap = Map.empty, w_next = 0, w_sessions = {}, w_engine = True, w_queue = Some []\<rparr>"

section \<open>Calls on shared objects\<close>

definition on_db :: "('db, 'a) eff \<Rightarrow> ('db world, 'a) eff" where
  "on_db m w =
     (case w_db w of
        None \<Rightarrow> (Inl Null_pointer, w)
      | Some d \<Rightarrow> (let (r, d') = m d in (r, w\<lparr>w_db := Some d'\<rparr>)))"

definition on_users :: "(user_manager, 'a) eff \<Rightarrow> ('db world, 'a) eff" where
  "on_users m w =
     (case w_users w of
        None \<Rightarrow> (Inl Null_pointer, w)
      | Some um \<Rightarrow> (let (r, um') = m um in (r, w\<lparr>w_users := Some um'\<rparr>)))"

definition make_shared_channel :: "channel \<Rightarrow> ('db world, channel_ptr) eff" where
  "make_shared_channel c w =
     (Inr (Some (w_next w)), w\<lparr>w_heap := (w_heap w)(w_next w \<mapsto> c), w_next := Suc (w_next w)\<rparr>)"

definition deref :: "channel_ptr \<Rightarrow> ('db world, channel_ref \<times> channel) eff" where
  "deref p w =
     (case p of
        None \<Rightarrow> (Inl Null_pointer, w)
      | Some r \<Rightarrow>
          (case w_heap w r of
             None \<Rightarrow> (Inl Null_pointer, w)
           | Some c \<Rightarrow> (Inr (r, c), w)))"

text \<open>\<open>getUser\<close> through the shared or locked manager pointer.\<close>

definition getUser :: "type_id_user \<Rightarrow> ('db world, user_ptr) eff" where
  "getUser i = on_users (eff_gets (UserManager_getUser i))"

lemma on_db_run [eff_simps, simp]:
  "w_db w = None \<Longrightarrow> on_db m w = (Inl Null_pointer, w)"
  "w_db w = Some d \<Longrightarrow> on_db m w = (fst (m d), w\<lparr>w_db := Some (snd (m d))\<rparr>)"
  by (simp_all add: on_db_def split: prod.split)

lemma on_users_run [eff_simps, simp]:
  "w_users w = None \<Longrightarrow> on_users m w = (Inl Null_pointer, w)"
  "w_users w = Some um \<Longrightarrow> on_users m w = (fst (m um), w\<lparr>w_users := Some (snd (m um))\<rparr>)"
  by (simp_all add: on_users_def split: prod.split)

lemma deref_run [eff_simps, simp]:
  "deref None w = (Inl Null_pointer, w)"
  "w_heap w r = Some c \<Longrightarrow> deref (Some r) w = (Inr (r, c), w)"
  by (simp_all add: deref_def)

lemma getUser_run [eff_simps, simp]:
  "w_users w = None \<Longrightarrow> getUser i w = (Inl Null_pointer, w)"
  "w_users w = Some um \<Longrightarrow> getUser i w = (Inr (UserManager_getUser i um), w)"
  by (simp_all add: getUser_def)

lemma world_self [simp]:
  "w_db w = d \<Longrightarrow> w\<lparr>w_db := d\<rparr> = w"
  "w_users w = u \<Longrightarrow> w\<lparr>w_users := u\<rparr> = w"
  by auto

section \<open>The invariant of the shared state\<close>

definition channel_ok :: "channel \<Rightarrow> bool" where
  "channel_ok c \<longleftrightarrow> ch_name c \<noteq> [] \<and> ch_id c \<noteq> 0 \<and> finite (idUsers c)"

definition heap_ok :: "'db world \<Rightarrow> bool" where
  "heap_ok w \<longleftrightarrow> (\<forall>r c. w_heap w r = Some c \<longrightarrow> r < w_next w \<and> channel_ok c)"

definition directory_ok :: "'db world \<Rightarrow> bool" where
  "directory_ok w \<longleftrightarrow>
     (\<forall>i p. idChannels w i = Some p \<longrightarrow>
        (\<exists>r c. p = Some r \<and> w_heap w r = Some c \<and> ch_id c = i))"

definition world_inv :: "'db world \<Rightarrow> bool" where
  "world_inv w \<longleftrightarrow> (\<forall>um. w_users w = Some um \<longrightarrow> users_inv um) \<and> heap_ok w \<and> directory_ok w"

text \<open>A pointer a call may follow: null, or an object of the store.\<close>

definition valid_ptr :: "channel_ptr \<Rightarrow> 'db world \<Rightarrow> bool" where
  "valid_ptr p w \<longleftrightarrow> (\<forall>r. p = Some r \<longrightarrow> w_heap w r \<noteq> None)"

lemma world_inv_start [simp]: "world_inv (start_world d)"
  by (simp add: world_inv_def start_world_def heap_ok_def directory_ok_def)

lemma world_inv_users: "world_inv w \<Longrightarrow> w_users w = Some um \<Longrightarrow> users_inv um"
  by (simp add: world_inv_def)

lemma world_inv_frame [simp]:
  "world_inv (w\<lparr>w_db := d\<rparr>) = world_inv w"
  "world_inv (w\<lparr>w_sessions := s\<rparr>) = world_inv w"
  "world_inv (w\<lparr>w_engine := e\<rparr>) = world_inv w"
  "world_inv (w\<lparr>w_queue := q\<rparr>) = world_inv w"
  by (simp_all add: world_inv_def heap_ok_def directory_ok_def)

lemma valid_ptr_frame [simp]:
  "valid_ptr p (w\<lparr>w_db := d\<rparr>) = valid_ptr p w"
  "valid_ptr p (w\<lparr>w_users := u\<rparr>) = valid_ptr p w"
  "valid_ptr p (w\<lparr>w_queue := q\<rparr>) = valid_ptr p w"
  "valid_ptr None w"
  by (simp_all add: valid_ptr_def)

lemma world_inv_set_users:
  "world_inv w \<Longrightarrow> users_inv um \<Longrightarrow> world_inv (w\<lparr>w_users := Some um\<rparr>)"
  by (simp add: world_inv_def heap_ok_def directory_ok_def)

lemma world_inv_alloc:
  assumes "world_inv w" and "channel_ok c"
  shows "world_inv (w\<lparr>w_heap := (w_heap w)(w_next w \<mapsto> c), w_next := Suc (w_next w)\<rparr>)"
proof -
  have "w_heap w (w_next w) = None"
    using assms(1) by (cases "w_heap w (w_next w)") (auto simp: world_inv_def heap_ok_def)
  with assms show ?thesis
    by (fastforce simp: world_inv_def heap_ok_def directory_ok_def less_Suc_eq)
qed

lemma world_inv_register:
  "world_inv w \<Longrightarrow> w_heap w r = Some c \<Longrightarrow> ch_id c = i \<Longrightarrow>
   world_inv (w\<lparr>idChannels := (idChannels w)(i \<mapsto> Some r)\<rparr>)"
  by (simp add: world_inv_def heap_ok_def directory_ok_def)

lemma world_inv_update_channel:
  assumes "world_inv w" and "w_heap w r = Some c" and "ch_id c' = ch_id c" and "channel_ok c'"
  shows "world_inv (w\<lparr>w_heap := (w_heap w)(r \<mapsto> c')\<rparr>)"
  using assms by (fastforce simp: world_inv_def heap_ok_def directory_ok_def)

section \<open>What the shared calls keep\<close>

lemma keeps_on_db [keeps_rules]:
  assumes "\<And>w d. I w \<Longrightarrow> I (w\<lparr>w_db := d\<rparr>)"
  shows "keeps I (on_db m)"
  using assms by (auto simp: keeps_def on_db_def split: option.split prod.split)

lemma getUser_state [simp]: "snd (getUser i w) = w"
  by (cases "w_users w") simp_all

lemma deref_state [simp]: "snd (deref p w) = w"
  by (simp add: deref_def split: option.split)

lemma keeps_reads [keeps_rules]: "keeps I (getUser i)" "keeps I (deref p)"
  by (simp_all add: keeps_def)

lemma keeps_alloc: "channel_ok c \<Longrightarrow> keeps world_inv (make_shared_channel c)"
  by (simp add: keeps_def make_shared_channel_def world_inv_alloc)

end
