(* ===== verification/Session_Write.thy ===== *)
theory Session_Write
  imports World
begin

text \<open>
  The sending side of a session: \<open>ClientSession::write\<close> and \<open>SocketWriter::write\<close>
  (\<open>network/session/ClientSession.cpp\<close>). The argument is an rvalue reference, so the call
  may take the buffer out of the caller's variable; the effect returns what that variable holds
  afterwards. Moving a \<open>std::vector\<close> leaves it empty.
\<close>

definition SocketWriter_write :: "session \<Rightarrow> bytes \<Rightarrow> ('db world, bytes) eff" where
  "SocketWriter_write s message =
     eff_bind (eff_gets w_queue) (\<lambda>queue.
     case queue of
       None \<Rightarrow> eff_return message
     | Some q \<Rightarrow>
         eff_bind (eff_modify (\<lambda>w. w\<lparr>w_queue := Some (q @ [(s, message)])\<rparr>)) (\<lambda>_.
         eff_return []))"

definition ClientSession_write :: "session \<Rightarrow> bytes \<Rightarrow> ('db world, bytes) eff" where
  "ClientSession_write s message = SocketWriter_write s message"

text \<open>\<open>sessionWeak.lock()\<close>\<close>

definition lock_session :: "session \<Rightarrow> ('db world, bool) eff" where
  "lock_session s = eff_gets (\<lambda>w. s \<in> w_sessions w)"

text \<open>The pattern \<open>if (auto session = weak.lock()) session->write(std::move(buffer));\<close>\<close>

definition write_if_alive :: "session \<Rightarrow> bytes \<Rightarrow> ('db world, bytes) eff" where
  "write_if_alive s buffer =
     eff_bind (lock_session s) (\<lambda>alive.
     if alive then ClientSession_write s buffer else eff_return buffer)"

section \<open>Lemmas\<close>

definition enqueue :: "write_task list \<Rightarrow> 'db world \<Rightarrow> 'db world" where
  "enqueue ts w = w\<lparr>w_queue := map_option (\<lambda>q. q @ ts) (w_queue w)\<rparr>"

lemma enqueue_simps [simp]:
  "enqueue [] w = w"
  "enqueue us (enqueue ts w) = enqueue (ts @ us) w"
  "w_queue (enqueue ts w) = map_option (\<lambda>q. q @ ts) (w_queue w)"
  "w_db (enqueue ts w) = w_db w"
  "w_users (enqueue ts w) = w_users w"
  "idChannels (enqueue ts w) = idChannels w"
  "w_heap (enqueue ts w) = w_heap w"
  "w_next (enqueue ts w) = w_next w"
  "w_sessions (enqueue ts w) = w_sessions w"
  "w_engine (enqueue ts w) = w_engine w"
  "world_inv (enqueue ts w) = world_inv w"
  "valid_ptr p (enqueue ts w) = valid_ptr p w"
  by (simp_all add: enqueue_def option.map_comp comp_def option.map_ident)

lemma ClientSession_write_run [eff_simps, simp]:
  "ClientSession_write s b w = (Inr (if w_queue w = None then b else []), enqueue [(s, b)] w)"
  by (cases "w_queue w")
    (simp_all add: ClientSession_write_def SocketWriter_write_def enqueue_def)

lemma write_if_alive_run [eff_simps, simp]:
  "s \<in> w_sessions w \<Longrightarrow>
     write_if_alive s b w = (Inr (if w_queue w = None then b else []), enqueue [(s, b)] w)"
  "s \<notin> w_sessions w \<Longrightarrow> write_if_alive s b w = (Inr b, w)"
  by (simp_all add: write_if_alive_def lock_session_def)

lemma keeps_writes [keeps_rules]:
  "keeps world_inv (ClientSession_write s b)"
  "keeps world_inv (write_if_alive s b)"
  by (auto simp: keeps_def write_if_alive_def lock_session_def)

end
