(* ===== verification/Socket_Writer.thy ===== *)
theory Socket_Writer
  imports Task_Queue Session_Write "HOL-Library.Sublist"
begin

text \<open>
  \<open>SocketWriter::writeImpl_\<close> (\<open>network/session/ClientSession.cpp\<close>) run by the workers of theory
  \<open>Task_Queue\<close>. A task locks the socket, then takes the writer's mutex, starts \<open>async_write\<close> on a
  buffer it owns and returns; the completion handler, run by the network thread, releases the mutex
  and logs whether the write failed. The mutex is therefore held exactly while a write is in flight,
  and the task's buffer is gone once the worker has left the task.
\<close>

section \<open>State and actions\<close>

record writers =
  wpool :: "write_task pool"
  open_sockets :: "session set" \<comment> \<open>those whose \<open>ClientSession\<close> is alive\<close>
  locked :: "nat set" \<comment> \<open>workers whose task has locked its socket and not returned yet\<close>
  in_flight :: "session \<rightharpoonup> bytes \<times> nat option"
    \<comment> \<open>the write started, and the worker whose task still owns its buffer\<close>
  issued :: "nat set" \<comment> \<open>workers past the body of their task\<close>
  completed :: "session \<Rightarrow> (bytes \<times> bool) list"
    \<comment> \<open>history: writes whose handler has run, and whether without \<open>ec.failed()\<close>\<close>
  handled :: "(write_task \<times> bool) list"
    \<comment> \<open>history: tasks whose body has run, and whether they found the socket\<close>

definition writers_start :: "nat \<Rightarrow> session set \<Rightarrow> writers" where
  "writers_start n S = \<lparr>wpool = started n, open_sockets = S, locked = {}, in_flight = Map.empty,
     issued = {}, completed = (\<lambda>_. []), handled = []\<rparr>"

text \<open>What a socket has been sent: the writes that completed without an error.\<close>

definition sent :: "writers \<Rightarrow> session \<Rightarrow> bytes list" where
  "sent w s = map fst (filter snd (completed w s))"

text \<open>\<open>socketWeak_.lock()\<close> succeeds while the session or another task holds the socket.\<close>

definition socket_alive :: "writers \<Rightarrow> session \<Rightarrow> bool" where
  "socket_alive w s \<longleftrightarrow>
     s \<in> open_sockets w \<or> (\<exists>j \<in> locked w. j < length (threads (wpool w)) \<and> map fst (running (threads (wpool w) ! j)) = [s])"

datatype writer_action =
    Queue "write_task action"
  | LockSocket nat
  | StartWrite nat
  | Handler session bool \<comment> \<open>and whether \<open>ec.failed()\<close>\<close>
  | CloseSocket session

fun release :: "nat \<Rightarrow> (bytes \<times> nat option) option \<Rightarrow> (bytes \<times> nat option) option" where
  "release i (Some (m, Some j)) = (if i = j then Some (m, None) else Some (m, Some j))"
| "release i x = x"

fun is_finish :: "'a action \<Rightarrow> nat option" where
  "is_finish (Finish i) = Some i"
| "is_finish _ = None"

fun writer_step :: "writer_action \<Rightarrow> writers \<Rightarrow> writers option" where
  "writer_step (Queue a) w =
     (case is_finish a of
        None \<Rightarrow> map_option (\<lambda>p. w\<lparr>wpool := p\<rparr>) (pool_step a (wpool w))
      | Some i \<Rightarrow>
          if i \<in> issued w then
            map_option (\<lambda>p. w\<lparr>wpool := p, issued := issued w - {i}, locked := locked w - {i},
                                in_flight := (\<lambda>s. release i (in_flight w s))\<rparr>)
              (pool_step a (wpool w))
          else None)"
| "writer_step (LockSocket i) w =
     (if i < length (threads (wpool w)) \<and> i \<notin> issued w \<and> i \<notin> locked w then
        case threads (wpool w) ! i of
          Running (s, m) \<Rightarrow>
            if socket_alive w s then Some (w\<lparr>locked := insert i (locked w)\<rparr>)
            else Some (w\<lparr>issued := insert i (issued w), handled := handled w @ [((s, m), False)]\<rparr>)
        | _ \<Rightarrow> None
      else None)"
| "writer_step (StartWrite i) w =
     (if i < length (threads (wpool w)) \<and> i \<notin> issued w \<and> i \<in> locked w then
        case threads (wpool w) ! i of
          Running (s, m) \<Rightarrow>
            (case in_flight w s of
               None \<Rightarrow> Some (w\<lparr>in_flight := (in_flight w)(s \<mapsto> (m, Some i)),
                              issued := insert i (issued w),
                              handled := handled w @ [((s, m), True)]\<rparr>)
             | Some _ \<Rightarrow> None)
        | _ \<Rightarrow> None
      else None)"
| "writer_step (Handler s ec_failed) w =
     (case in_flight w s of
        None \<Rightarrow> None
      | Some (m, _) \<Rightarrow>
          Some (w\<lparr>in_flight := (in_flight w)(s := None),
                  completed := (completed w)(s := completed w s @ [(m, \<not> ec_failed)])\<rparr>))"
| "writer_step (CloseSocket s) w = Some (w\<lparr>open_sockets := open_sockets w - {s}\<rparr>)"

fun writer_run :: "writer_action list \<Rightarrow> writers \<Rightarrow> writers option" where
  "writer_run [] w = Some w"
| "writer_run (a # as) w =
     (case writer_step a w of None \<Rightarrow> None | Some w' \<Rightarrow> writer_run as w')"

inductive writer_reach :: "nat \<Rightarrow> session set \<Rightarrow> writers \<Rightarrow> bool" for n :: nat and S :: "session set" where
  writer_start: "writer_reach n S (writers_start n S)"
| writer_next: "writer_reach n S w \<Longrightarrow> writer_step a w = Some w' \<Longrightarrow> writer_reach n S w'"

lemma writer_run_reach: "writer_reach n S w \<Longrightarrow> writer_run as w = Some w' \<Longrightarrow> writer_reach n S w'"
  by (induction "as" arbitrary: w) (auto split: option.splits intro: writer_next)

section \<open>The invariant\<close>

text \<open>The writes started on one socket, in order.\<close>

definition on_wire :: "writers \<Rightarrow> session \<Rightarrow> bytes list" where
  "on_wire w s = map fst (completed w s) @ (case in_flight w s of None \<Rightarrow> [] | Some (m, _) \<Rightarrow> [m])"

definition messages_for :: "session \<Rightarrow> write_task list \<Rightarrow> bytes list" where
  "messages_for s ts = map snd (filter (\<lambda>t. fst t = s) ts)"

definition delivered :: "writers \<Rightarrow> write_task list" where
  "delivered w = map fst (filter snd (handled w))"

text \<open>Tasks a worker has popped and not yet handled.\<close>

definition unhandled :: "writers \<Rightarrow> write_task list" where
  "unhandled w = concat (map (\<lambda>i. if i \<in> issued w then [] else running (threads (wpool w) ! i))
                          [0..<length (threads (wpool w))])"

definition writer_inv :: "writers \<Rightarrow> bool" where
  "writer_inv w \<longleftrightarrow>
     pool_inv (wpool w) \<and>
     (\<forall>s. on_wire w s = messages_for s (delivered w)) \<and>
     (\<forall>i \<in> issued w. i < length (threads (wpool w)) \<and> running (threads (wpool w) ! i) \<noteq> []) \<and>
     mset (taken (wpool w)) = mset (map fst (handled w)) + mset (unhandled w) \<and>
     (\<forall>t. (t, False) \<in> set (handled w) \<longrightarrow> fst t \<notin> open_sockets w)"

lemma messages_for_append [simp]: "messages_for s (xs @ ys) = messages_for s xs @ messages_for s ys"
  by (simp add: messages_for_def)

lemma messages_for_simps [simp]:
  "messages_for s [] = []"
  "messages_for s (t # ts) = (if fst t = s then snd t # messages_for s ts else messages_for s ts)"
  by (simp_all add: messages_for_def)

lemma on_wire_release [simp]:
  "(case release i x of None \<Rightarrow> [] | Some (m, _) \<Rightarrow> [m]) =
   (case x of None \<Rightarrow> [] | Some (m, _) \<Rightarrow> [m])"
  by (cases "(i, x)" rule: release.cases) auto

lemma writer_inv_start: "writer_inv (writers_start n S)"
proof -
  have "unhandled (writers_start n S) = []"
    by (auto simp: unhandled_def writers_start_def started_def)
  then show ?thesis
    by (simp add: writer_inv_def writers_start_def pool_inv_started on_wire_def delivered_def)
      (simp add: started_def)
qed

text \<open>How an action other than the end of a task changes what the workers run.\<close>

lemma running_set_pc:
  "i < length (threads q) \<Longrightarrow> running c = running (threads q ! i) \<Longrightarrow>
   running (threads (set_pc i c q) ! j) = running (threads q ! j)"
  by (cases "j = i") simp_all

lemma pool_step_running:
  assumes "is_finish a = None" and "pool_step a p = Some p'"
  shows "(taken p' = taken p \<and> (\<forall>j < length (threads p). running (threads p' ! j) = running (threads p ! j)))
    \<or> (\<exists>i x. i < length (threads p) \<and> running (threads p ! i) = [] \<and> running (threads p' ! i) = [x] \<and>
         taken p' = taken p @ [x] \<and>
         (\<forall>j < length (threads p). j \<noteq> i \<longrightarrow> running (threads p' ! j) = running (threads p ! j)))"
proof (cases a)
  case (Push x w)
  from assms(2) [unfolded Push] show ?thesis
    by (cases rule: push_step_cases) (auto simp: with_task_def at_def nth_list_update)
next
  case (Pop i)
  from assms(2) [unfolded Pop] show ?thesis
  proof (cases rule: pop_step_cases)
    case idle
    then show ?thesis by (auto simp: at_def nth_list_update)
  next
    case (task x xs)
    then show ?thesis by (intro disjI2 exI [of _ i] exI [of _ x]) (auto simp: at_def)
  qed
next
  case NotifyAll
  with assms show ?thesis by (auto split: if_splits)
next
  case SetQuit
  with assms show ?thesis by (auto split: if_splits)
next
  case Join
  with assms show ?thesis by (auto split: if_splits)
next
  case (Finish i)
  with assms show ?thesis by simp
qed (use assms in \<open>auto simp: at_def nth_list_update split: if_splits\<close>)

lemma mset_concat_upt:
  assumes "i < n" and "\<And>j. j < n \<Longrightarrow> j \<noteq> i \<Longrightarrow> f j = g j"
  shows "mset (concat (map f [0..<n])) + mset (g i) = mset (concat (map g [0..<n])) + mset (f i)"
  using assms
proof (induction n)
  case (Suc n)
  show ?case
  proof (cases "i = n")
    case True
    with Suc.prems(2) have "map f [0..<n] = map g [0..<n]" by (intro map_cong) auto
    then have "concat (map f [0..<n]) = concat (map g [0..<n])" by (rule arg_cong)
    with True show ?thesis by (simp add: ac_simps)
  next
    case False
    with Suc show ?thesis by (simp add: ac_simps)
  qed
qed simp

lemma unhandled_cong:
  assumes "length (threads (wpool w')) = length (threads (wpool w))"
    and "\<And>j. j < length (threads (wpool w)) \<Longrightarrow>
      (if j \<in> issued w' then [] else running (threads (wpool w') ! j)) =
      (if j \<in> issued w then [] else running (threads (wpool w) ! j))"
  shows "unhandled w' = unhandled w"
  unfolding unhandled_def assms(1)
  by (rule arg_cong [where f = concat], rule map_cong) (use assms(2) in auto)

lemma unhandled_update:
  assumes "length (threads (wpool w')) = length (threads (wpool w))"
    and "i < length (threads (wpool w))"
    and "\<And>j. j < length (threads (wpool w)) \<Longrightarrow> j \<noteq> i \<Longrightarrow>
      (if j \<in> issued w' then [] else running (threads (wpool w') ! j)) =
      (if j \<in> issued w then [] else running (threads (wpool w) ! j))"
  shows "mset (unhandled w') + mset (if i \<in> issued w then [] else running (threads (wpool w) ! i)) =
         mset (unhandled w) + mset (if i \<in> issued w' then [] else running (threads (wpool w') ! i))"
  unfolding unhandled_def assms(1) by (rule mset_concat_upt) (use assms(2,3) in auto)

text \<open>The three kinds of steps.\<close>

lemma queue_step_inv:
  assumes "writer_inv w" and "is_finish a = None" and "pool_step a (wpool w) = Some p"
  shows "writer_inv (w\<lparr>wpool := p\<rparr>)"
proof -
  let ?w' = "w\<lparr>wpool := p\<rparr>"
  have len: "length (threads p) = length (threads (wpool w))"
    using assms(3) by (rule pool_step_threads)
  have busy: "j < length (threads (wpool w)) \<and> running (threads (wpool w) ! j) \<noteq> []" if "j \<in> issued w" for j
    using that assms(1) by (simp add: writer_inv_def)
  consider (same) "taken p = taken (wpool w)"
      "\<forall>j < length (threads (wpool w)). running (threads p ! j) = running (threads (wpool w) ! j)"
    | (popped) i x where "i < length (threads (wpool w))" "running (threads (wpool w) ! i) = []"
      "running (threads p ! i) = [x]" "taken p = taken (wpool w) @ [x]"
      "\<forall>j < length (threads (wpool w)). j \<noteq> i \<longrightarrow> running (threads p ! j) = running (threads (wpool w) ! j)"
    using pool_step_running [OF assms(2,3)] by blast
  then have "mset (taken p) = mset (map fst (handled w)) + mset (unhandled ?w')
      \<and> (\<forall>i \<in> issued w. running (threads p ! i) \<noteq> [])"
  proof cases
    case same
    then have "unhandled ?w' = unhandled w" by (intro unhandled_cong) (simp_all add: len)
    with same assms(1) busy show ?thesis by (simp add: writer_inv_def)
  next
    case (popped i x)
    then have i: "i \<notin> issued w" using busy by blast
    have "mset (unhandled ?w') + mset (if i \<in> issued w then [] else running (threads (wpool w) ! i)) =
      mset (unhandled w) + mset (if i \<in> issued ?w' then [] else running (threads (wpool ?w') ! i))"
      by (rule unhandled_update) (use popped len in auto)
    with i popped assms(1) busy show ?thesis by (auto simp: writer_inv_def) metis
  qed
  with assms(1) pool_step_inv [OF _ assms(3)] busy len show ?thesis
    by (auto simp: writer_inv_def on_wire_def delivered_def)
qed

lemma finish_step_inv:
  assumes "writer_inv w" and "i \<in> issued w" and "pool_step (Finish i) (wpool w) = Some p"
  shows "writer_inv (w\<lparr>wpool := p, issued := issued w - {i}, locked := locked w - {i},
      in_flight := (\<lambda>s. release i (in_flight w s))\<rparr>)"
    (is "writer_inv ?w'")
proof -
  from assms(3) obtain x where i: "i < length (threads (wpool w))"
    and p: "p = set_pc i LoopTest ((wpool w)\<lparr>finished := finished (wpool w) @ [x]\<rparr>)"
    by (auto split: if_splits pc.splits)
  have "unhandled ?w' = unhandled w"
    by (rule unhandled_cong) (use i assms(2) p in \<open>auto simp: nth_list_update\<close>)
  moreover have "taken p = taken (wpool w)" using p by simp
  ultimately show ?thesis
    using assms(1) pool_step_inv [OF _ assms(3)] p
    by (auto simp: writer_inv_def on_wire_def delivered_def nth_list_update)
qed

lemma handled_upd:
  assumes "i < length (threads (wpool w))" and "i \<notin> issued w" and "threads (wpool w) ! i = Running t"
    and "wpool u = wpool w" and "issued u = insert i (issued w)"
  shows "mset (unhandled u) + {#t#} = mset (unhandled w)"
  using unhandled_update [of u w i] assms by auto

lemma lock_step_inv:
  assumes "writer_inv w" and "writer_step (LockSocket i) w = Some w'"
  shows "writer_inv w'"
proof -
  from assms(2) obtain s m where i: "i < length (threads (wpool w))" "i \<notin> issued w"
    and run: "threads (wpool w) ! i = Running (s, m)"
    by (auto split: if_splits pc.splits)
  from assms(2) i run consider
    (alive) "w' = w\<lparr>locked := insert i (locked w)\<rparr>"
  | (closed) "s \<notin> open_sockets w"
      "w' = w\<lparr>issued := insert i (issued w), handled := handled w @ [((s, m), False)]\<rparr>"
    by (auto simp: socket_alive_def split: if_splits)
  then show ?thesis
  proof cases
    case alive
    have "unhandled w' = unhandled w" by (rule unhandled_cong) (simp_all add: alive)
    with assms(1) alive show ?thesis by (simp add: writer_inv_def on_wire_def delivered_def)
  next
    case closed
    then have "mset (unhandled w') + {#(s, m)#} = mset (unhandled w)"
      by (intro handled_upd [OF i run]) simp_all
    moreover have "on_wire w' t = on_wire w t" for t
      using closed by (simp add: on_wire_def)
    ultimately show ?thesis
      using closed i run assms(1) by (auto simp: writer_inv_def delivered_def simp flip: union_assoc)
  qed
qed

lemma write_step_inv:
  assumes "writer_inv w" and "writer_step (StartWrite i) w = Some w'"
  shows "writer_inv w'"
proof -
  from assms(2) obtain s m where i: "i < length (threads (wpool w))" "i \<notin> issued w"
    and run: "threads (wpool w) ! i = Running (s, m)" and free: "in_flight w s = None"
    and w': "w' = w\<lparr>in_flight := (in_flight w)(s \<mapsto> (m, Some i)), issued := insert i (issued w),
             handled := handled w @ [((s, m), True)]\<rparr>"
    by (auto split: if_splits pc.splits option.splits)
  have "mset (unhandled w') + {#(s, m)#} = mset (unhandled w)"
    by (intro handled_upd [OF i run]) (simp_all add: w')
  moreover have "on_wire w' t = on_wire w t @ (if t = s then [m] else [])" for t
    using free by (simp add: on_wire_def w')
  ultimately show ?thesis
    using w' i run assms(1) by (auto simp: writer_inv_def delivered_def simp flip: union_assoc)
qed

lemma writer_step_inv:
  assumes "writer_inv w" and "writer_step a w = Some w'"
  shows "writer_inv w'"
proof (cases a)
  case (Queue b)
  show ?thesis
  proof (cases "is_finish b")
    case None
    with assms Queue queue_step_inv show ?thesis by auto
  next
    case (Some i)
    then have "b = Finish i" by (cases b) simp_all
    with assms Queue finish_step_inv show ?thesis by (auto split: if_splits)
  qed
next
  case (LockSocket i)
  with assms lock_step_inv show ?thesis by blast
next
  case (StartWrite i)
  with assms write_step_inv show ?thesis by blast
next
  case (Handler s ec)
  with assms(2) obtain m o' where f: "in_flight w s = Some (m, o')"
    and w': "w' = w\<lparr>in_flight := (in_flight w)(s := None),
      completed := (completed w)(s := completed w s @ [(m, \<not> ec)])\<rparr>"
    by (auto split: option.splits)
  have "unhandled w' = unhandled w" by (rule unhandled_cong) (simp_all add: w')
  moreover have "on_wire w' t = on_wire w t" for t
    using f by (simp add: on_wire_def w')
  ultimately show ?thesis using assms(1) w' by (simp add: writer_inv_def delivered_def)
next
  case (CloseSocket s)
  with assms(2) have w': "w' = w\<lparr>open_sockets := open_sockets w - {s}\<rparr>" by simp
  have "unhandled w' = unhandled w" by (rule unhandled_cong) (simp_all add: w')
  with assms(1) w' show ?thesis by (auto simp: writer_inv_def on_wire_def delivered_def)
qed

lemma writer_reach_inv: "writer_reach n S w \<Longrightarrow> writer_inv w"
  by (induction rule: writer_reach.induct) (auto intro: writer_inv_start writer_step_inv)

section \<open>Order\<close>

lemma writer_step_threads:
  "writer_step a w = Some w' \<Longrightarrow> length (threads (wpool w')) = length (threads (wpool w))"
  by (cases a) (auto split: option.splits if_splits pc.splits dest: pool_step_threads)

lemma writer_reach_threads: "writer_reach n S w \<Longrightarrow> length (threads (wpool w)) = n"
  by (induction rule: writer_reach.induct) (simp_all add: writers_start_def started_def writer_step_threads)

lemma unhandled_one:
  "length (threads (wpool w)) = 1 \<Longrightarrow>
   unhandled w = (if 0 \<in> issued w then [] else running (threads (wpool w) ! 0))"
  by (simp add: unhandled_def)

text \<open>With one worker, tasks are handled in the order they are popped.\<close>

lemma one_worker_step:
  assumes "writer_inv w" and "length (threads (wpool w)) = 1" and "writer_step a w = Some w'"
    and "taken (wpool w) = map fst (handled w) @ unhandled w"
  shows "taken (wpool w') = map fst (handled w') @ unhandled w'"
proof (cases a)
  case (Queue b)
  note len = assms(2) writer_step_threads [OF assms(3)]
  show ?thesis
  proof (cases "is_finish b")
    case None
    then obtain p where p: "pool_step b (wpool w) = Some p" and w': "w' = w\<lparr>wpool := p\<rparr>"
      using Queue assms(3) by auto
    have busy: "0 \<in> issued w \<Longrightarrow> running (threads (wpool w) ! 0) \<noteq> []"
      using assms(1) by (auto simp: writer_inv_def)
    show ?thesis
      using pool_step_running [OF None p] busy assms(4) len w'
      by (auto simp: unhandled_one split: if_splits)
  next
    case (Some i)
    then have "b = Finish i" by (cases b) simp_all
    then show ?thesis
      using Queue assms len by (auto simp: unhandled_one split: if_splits pc.splits)
  qed
next
  case (LockSocket i)
  then show ?thesis
    using assms writer_step_threads [OF assms(3)]
    by (auto simp: unhandled_one split: if_splits option.splits pc.splits)
next
  case (StartWrite i)
  then show ?thesis
    using assms writer_step_threads [OF assms(3)]
    by (auto simp: unhandled_one split: if_splits option.splits pc.splits)
next
  case (Handler s ec)
  then show ?thesis
    using assms by (auto simp: unhandled_one split: option.splits)
next
  case (CloseSocket s)
  then show ?thesis
    using assms by (auto simp: unhandled_one)
qed

lemma one_worker_order:
  "writer_reach 1 S w \<Longrightarrow> taken (wpool w) = map fst (handled w) @ unhandled w"
proof (induction rule: writer_reach.induct)
  case writer_start
  have "length (threads (wpool (writers_start 1 S))) = 1" by (simp add: writers_start_def started_def)
  then show ?case by (simp add: unhandled_one) (simp add: writers_start_def started_def)
next
  case (writer_next w a w')
  then show ?case
    using one_worker_step writer_reach_inv writer_reach_threads by blast
qed

lemma messages_for_flags:
  "\<forall>t. (t, False) \<in> set hs \<longrightarrow> fst t \<noteq> s \<Longrightarrow>
   messages_for s (map fst (filter snd hs)) = messages_for s (map fst hs)"
proof (induction hs)
  case (Cons h hs)
  then show ?case by (cases h rule: prod.exhaust) (cases "snd h"; force)
qed simp

lemma open_delivered:
  "writer_inv w \<Longrightarrow> s \<in> open_sockets w \<Longrightarrow>
   messages_for s (delivered w) = messages_for s (map fst (handled w))"
  unfolding delivered_def by (rule messages_for_flags) (auto simp: writer_inv_def)

section \<open>Properties\<close>

lemma sent_subseq: "subseq (sent w s) (map fst (completed w s))"
  unfolding sent_def by (intro subseq_map subseq_filter_left)

text \<open>C33: In every interleaving, the writes started on a socket, those whose handler has run with or without
  an error and the one in flight, are exactly the messages of the tasks that found it, each once, in
  the order the tasks took the writer's mutex; what has been sent is a subsequence of them, without
  the writes that failed; every task a worker took is handled once or still in its hands; and a task
  is dropped only for a socket whose session is gone.\<close>

theorem writes_exactly_once:
  assumes "writer_reach n S w"
  shows "map fst (completed w s) @ (case in_flight w s of None \<Rightarrow> [] | Some (m, _) \<Rightarrow> [m]) =
      messages_for s (delivered w) \<and>
    subseq (sent w s) (messages_for s (delivered w)) \<and>
    mset (taken (wpool w)) = mset (map fst (handled w)) + mset (unhandled w) \<and>
    {fst t | t. (t, False) \<in> set (handled w)} \<inter> open_sockets w = {}"
proof -
  have inv: "writer_inv w" using assms by (rule writer_reach_inv)
  then have wire: "messages_for s (delivered w) = on_wire w s" by (simp add: writer_inv_def)
  have "subseq (sent w s) (on_wire w s)"
    unfolding on_wire_def by (rule subseq_order.trans [OF sent_subseq]) (rule prefix_imp_subseq, simp)
  then show ?thesis using inv unfolding wire by (auto simp: writer_inv_def on_wire_def)
qed

definition one_write :: "writer_action list" where
  "one_write = [Queue (Push (7, [1]) None), Queue (TestQuit 0), Queue (Lock 0), Queue (TestPred 0),
     Queue (Pop 0), LockSocket 0, StartWrite 0, Queue (Finish 0)]"

definition one_written :: writers where
  "one_written = the (writer_run one_write (writers_start 1 {7}))"

lemma one_written_run:
  "writer_run one_write (writers_start 1 {7}) = Some one_written"
  "in_flight one_written 7 = Some ([1], None)" "completed one_written 7 = []"
  "threads (wpool one_written) = [LoopTest]" "handled one_written = [((7, [1]), True)]"
  "pushed (wpool one_written) = [(7, [1])]" "7 \<in> open_sockets one_written"
proof -
  show "writer_run one_write (writers_start 1 {7}) = Some one_written"
    unfolding one_written_def by (rule ran) code_simp
qed code_simp+

lemma one_written_reach: "writer_reach 1 {7} one_written"
  by (rule writer_run_reach [OF writer_start one_written_run(1)])

text \<open>A second message for the socket is written after the first has failed.\<close>

definition two_writes :: "writer_action list" where
  "two_writes = [Handler 7 True, Queue (Push (7, [2]) None), Queue (TestQuit 0), Queue (Lock 0),
     Queue (TestPred 0), Queue (Pop 0), LockSocket 0, StartWrite 0, Handler 7 False]"

definition two_written :: writers where
  "two_written = the (writer_run two_writes one_written)"

lemma two_written_run:
  "writer_run two_writes one_written = Some two_written"
  "completed two_written 7 = [([1], False), ([2], True)]" "sent two_written 7 = [[2]]"
  "in_flight two_written 7 = None" "pushed (wpool two_written) = [(7, [1]), (7, [2])]"
  "7 \<in> open_sockets two_written"
proof -
  show "writer_run two_writes one_written = Some two_written"
    unfolding two_written_def by (rule ran) code_simp
qed code_simp+

lemma two_written_reach: "writer_reach 1 {7} two_written"
  by (rule writer_run_reach [OF one_written_reach two_written_run(1)])

lemma writes_exactly_once_witness:
  "messages_for 7 (delivered two_written) = [[1], [2]] \<and> subseq [[2]] (messages_for 7 (delivered two_written))"
  using writes_exactly_once [OF two_written_reach, of 7] by (simp add: two_written_run)

text \<open>C32: With one worker the writes to a client are started in the order the messages were posted: those
  completed on an open socket are a prefix of what was pushed for it, and what has been sent is that
  prefix without the writes that failed; if none has, the client has received exactly a prefix.\<close>

theorem one_worker_in_order:
  assumes "writer_reach 1 S w" and "s \<in> open_sockets w"
  shows "prefix (map fst (completed w s)) (messages_for s (pushed (wpool w))) \<and>
    subseq (sent w s) (map fst (completed w s)) \<and>
    ((\<forall>c \<in> set (completed w s). snd c) \<longrightarrow> prefix (sent w s) (messages_for s (pushed (wpool w))))"
proof -
  have inv: "writer_inv w" using assms(1) by (rule writer_reach_inv)
  then have pushed: "pushed (wpool w) = taken (wpool w) @ queueTasks (wpool w)"
    by (simp add: writer_inv_def pool_inv_def)
  have "messages_for s (map fst (handled w)) = on_wire w s"
    using open_delivered [OF inv assms(2)] inv by (simp add: writer_inv_def)
  then have "messages_for s (pushed (wpool w)) =
      on_wire w s @ messages_for s (unhandled w) @ messages_for s (queueTasks (wpool w))"
    using pushed one_worker_order [OF assms(1)] by simp
  then have "prefix (map fst (completed w s)) (messages_for s (pushed (wpool w)))"
    by (simp add: on_wire_def)
  moreover have "sent w s = map fst (completed w s)" if "\<forall>c \<in> set (completed w s). snd c"
    using that by (simp add: sent_def filter_True)
  ultimately show ?thesis using sent_subseq by fastforce
qed

lemma one_worker_in_order_witness:
  "prefix [[1], [2]] (messages_for 7 (pushed (wpool two_written)))"
  using one_worker_in_order [OF two_written_reach two_written_run(6)] by (simp add: two_written_run)

text \<open>With more workers, and the server starts four, the order is lost: two messages posted to one
  client can reach its socket in the opposite order.\<close>

theorem two_workers_reorder:
  "\<exists>w. writer_reach 2 {7} w \<and> pushed (wpool w) = [(7, [1]), (7, [2])] \<and> sent w 7 = [[2], [1]]"
proof -
  let ?trace = "[Queue (Push (7, [1]) None), Queue (Push (7, [2]) None),
    Queue (TestQuit 0), Queue (Lock 0), Queue (TestPred 0), Queue (Pop 0),
    Queue (TestQuit 1), Queue (Lock 1), Queue (TestPred 1), Queue (Pop 1),
    LockSocket 0, LockSocket 1, StartWrite 1, Handler 7 False, StartWrite 0, Handler 7 False]"
  let ?w = "the (writer_run ?trace (writers_start 2 {7}))"
  have run: "writer_run ?trace (writers_start 2 {7}) = Some ?w"
    by (rule ran) code_simp
  moreover have "pushed (wpool ?w) = [(7, [1]), (7, [2])]" and "sent ?w 7 = [[2], [1]]"
    by code_simp+
  ultimately show ?thesis using writer_run_reach [OF writer_start run] by blast
qed

text \<open>C39: A write can outlive its buffer: \<open>async_write\<close> is given a view of a vector owned by the task,
  and there is a reachable state in which the write is in flight, nothing of it has been sent, and
  the only worker has already left the task and destroyed the vector.\<close>

theorem write_outlives_buffer:
  "\<exists>w m. writer_reach 1 {7} w \<and> in_flight w 7 = Some (m, None) \<and> m \<noteq> [] \<and> sent w 7 = [] \<and>
     completed w 7 = [] \<and> threads (wpool w) = [LoopTest]"
proof -
  have "sent one_written 7 = []" by (simp add: sent_def one_written_run)
  then show ?thesis using one_written_reach one_written_run(2-4) by blast
qed

end
