(* ===== verification/Interleaving.thy ===== *)
theory Interleaving
  imports Prelude
begin

text \<open>
  Several calls at once. A call is a program of atomic steps: its state between two steps is a value
  of some type \<open>'pc\<close>, \<open>step\<close> is the next step as an effect on the shared state, and a step that
  throws ends the call with \<open>fail\<close>. The calls of different threads interleave step by step.
\<close>

definition advance ::
  "('pc \<Rightarrow> ('s, 'pc) eff) \<Rightarrow> (failure \<Rightarrow> 'pc) \<Rightarrow> 'pc \<Rightarrow> 's \<Rightarrow> 'pc \<times> 's" where
  "advance step fail pc s =
     (case step pc s of
        (Inl e, t) \<Rightarrow> (fail e, t)
      | (Inr pc', t) \<Rightarrow> (pc', t))"

inductive interleave ::
  "('pc \<Rightarrow> ('s, 'pc) eff) \<Rightarrow> (failure \<Rightarrow> 'pc) \<Rightarrow> ('pc \<Rightarrow> bool) \<Rightarrow> 's \<times> 'pc list \<Rightarrow> 's \<times> 'pc list \<Rightarrow> bool"
  for step fail finished
  where
  thread_step: "i < length ts \<Longrightarrow> \<not> finished (ts ! i) \<Longrightarrow> advance step fail (ts ! i) s = (pc', s') \<Longrightarrow>
    interleave step fail finished (s, ts) (s', ts[i := pc'])"

inductive_simps interleave_iff: "interleave step fail finished (s, ts) x"

inductive_cases interleaveE: "interleave step fail finished (s, ts) (s', ts')"

text \<open>One call by itself, and a schedule: which thread steps next.\<close>

fun run_alone ::
  "('pc \<Rightarrow> ('s, 'pc) eff) \<Rightarrow> (failure \<Rightarrow> 'pc) \<Rightarrow> nat \<Rightarrow> 'pc \<Rightarrow> 's \<Rightarrow> 'pc \<times> 's" where
  "run_alone step fail 0 pc s = (pc, s)"
| "run_alone step fail (Suc k) pc s =
     (let (pc', s') = advance step fail pc s in run_alone step fail k pc' s')"

fun run_schedule ::
  "('pc \<Rightarrow> ('s, 'pc) eff) \<Rightarrow> (failure \<Rightarrow> 'pc) \<Rightarrow> nat list \<Rightarrow> 's \<times> 'pc list \<Rightarrow> 's \<times> 'pc list" where
  "run_schedule step fail [] x = x"
| "run_schedule step fail (i # is) (s, ts) =
     (let (pc', s') = advance step fail (ts ! i) s in run_schedule step fail is (s', ts[i := pc']))"

lemma run_alone_step:
  "run_alone step fail (Suc k) pc s =
   (case step pc s of (Inl e, t) \<Rightarrow> run_alone step fail k (fail e) t
    | (Inr pc', t) \<Rightarrow> run_alone step fail k pc' t)"
  by (simp add: advance_def split: prod.split sum.split)

text \<open>A schedule that only picks threads that have not finished is an interleaving.\<close>

fun fair_picks ::
  "('pc \<Rightarrow> ('s, 'pc) eff) \<Rightarrow> (failure \<Rightarrow> 'pc) \<Rightarrow> ('pc \<Rightarrow> bool) \<Rightarrow> nat list \<Rightarrow> 's \<times> 'pc list \<Rightarrow> bool" where
  "fair_picks step fail finished [] x = True"
| "fair_picks step fail finished (i # is) (s, ts) =
     (i < length ts \<and> \<not> finished (ts ! i) \<and>
      fair_picks step fail finished is (run_schedule step fail [i] (s, ts)))"

lemma run_schedule_reaches:
  "fair_picks step fail finished is x \<Longrightarrow>
   (interleave step fail finished)\<^sup>*\<^sup>* x (run_schedule step fail is x)"
proof (induction step fail finished "is" x rule: fair_picks.induct)
  case (2 step fail finished i "is" s ts)
  obtain pc' s' where adv: "advance step fail (ts ! i) s = (pc', s')" by force
  have "interleave step fail finished (s, ts) (s', ts[i := pc'])"
    using 2(2) adv by (intro thread_step) simp_all
  then show ?case
    using 2 adv by (simp add: converse_rtranclp_into_rtranclp)
qed simp

lemma interleave_length:
  "(interleave step fail finished)\<^sup>*\<^sup>* x y \<Longrightarrow> length (snd y) = length (snd x)"
  by (induction rule: rtranclp_induct) (auto elim: interleave.cases)

lemma interleave_stuck:
  "(\<nexists>x. interleave step fail finished (s, ts) x) \<longleftrightarrow> list_all finished ts"
  by (auto simp: interleave_iff list_all_length) (metis surj_pair)

text \<open>
  An invariant of the shared state and of the states of the calls: each step of one call keeps its
  own part, and the part of every other.
\<close>

lemma interleave_invariant:
  assumes "(interleave step fail finished)\<^sup>*\<^sup>* x y"
    and "I (fst x)" and "list_all (J (fst x)) (snd x)"
    and own: "\<And>s pc pc' s'. I s \<Longrightarrow> J s pc \<Longrightarrow> advance step fail pc s = (pc', s') \<Longrightarrow> I s' \<and> J s' pc'"
    and others: "\<And>s pc pc' s' qc. I s \<Longrightarrow> J s pc \<Longrightarrow> advance step fail pc s = (pc', s') \<Longrightarrow> J s qc \<Longrightarrow> J s' qc"
  shows "I (fst y) \<and> list_all (J (fst y)) (snd y)"
  using assms(1-3)
proof (induction rule: rtranclp_induct)
  case (step y z)
  then obtain i s ts pc' s' where y: "y = (s, ts)" "i < length ts" and z: "z = (s', ts[i := pc'])"
    and adv: "advance step fail (ts ! i) s = (pc', s')"
    by (auto elim: interleave.cases)
  have s: "I s" "list_all (J s) ts" using step y by simp_all
  then have pc: "J s (ts ! i)" using y(2) by (simp add: list_all_length)
  have "J s' (ts[i := pc'] ! j)" if "j < length ts" for j
    using that own [OF s(1) pc adv] others [OF s(1) pc adv, of "ts ! j"] s(2) y(2)
    by (cases "j = i") (simp_all add: list_all_length)
  then show ?case using own [OF s(1) pc adv] by (simp add: z list_all_length)
qed simp

section \<open>Programs that end\<close>

locale thread_program =
  fixes step :: "'pc \<Rightarrow> ('s, 'pc) eff"
    and fail :: "failure \<Rightarrow> 'pc"
    and finished :: "'pc \<Rightarrow> bool"
    and steps_left :: "'pc \<Rightarrow> nat"
  assumes fewer: "\<not> finished pc \<Longrightarrow> advance step fail pc s = (pc', s') \<Longrightarrow> steps_left pc' < steps_left pc"
begin

lemma interleave_decreases:
  assumes "interleave step fail finished (s, ts) (s', ts')"
  shows "sum_list (map steps_left ts') < sum_list (map steps_left ts)"
  using assms
proof (rule interleaveE)
  fix i pc'
  assume i: "i < length ts" "\<not> finished (ts ! i)" "advance step fail (ts ! i) s = (pc', s')"
    and ts': "ts' = ts[i := pc']"
  have "steps_left pc' < steps_left (ts ! i)" using i by (intro fewer)
  moreover have "steps_left (ts ! i) \<le> sum_list (map steps_left ts)"
    using i(1) by (intro member_le_sum_list) simp_all
  ultimately show ?thesis
    using i(1) sum_list_update [of i "map steps_left ts" "steps_left pc'"]
    by (simp add: ts' map_update)
qed

text \<open>However the threads interleave, there are only so many steps.\<close>

lemma interleave_bounded:
  "(interleave step fail finished ^^ k) (s, ts) (s', ts') \<Longrightarrow>
   k + sum_list (map steps_left ts') \<le> sum_list (map steps_left ts)"
proof (induction k arbitrary: s' ts')
  case (Suc k)
  then obtain s1 ts1 where "(interleave step fail finished ^^ k) (s, ts) (s1, ts1)"
    "interleave step fail finished (s1, ts1) (s', ts')" by auto
  with Suc.IH [of s1 ts1] interleave_decreases [of s1 ts1 s' ts'] show ?case by simp
qed simp

end

end
