(* ===== verification/Decimal.thy ===== *)
theory Decimal
  imports Protocol
begin

text \<open>
  The conversions of the C++ standard library between numbers, dates and text that
  \<open>database/WrapperPg.cpp\<close> uses: \<open>std::to_string\<close>, \<open>std::stoi\<close>, the padded output of a time
  stamp, and \<open>std::get_time\<close> on it; and their round trips.
\<close>

section \<open>Decimal digits\<close>

definition digit_char :: "nat \<Rightarrow> char" where
  "digit_char d = char_of (48 + d)"

definition is_digit :: "char \<Rightarrow> bool" where
  "is_digit c \<longleftrightarrow> 48 \<le> (of_char c :: nat) \<and> (of_char c :: nat) \<le> 57"

definition digit_value :: "char \<Rightarrow> nat" where
  "digit_value c = of_char c - 48"

definition digits_value :: "string \<Rightarrow> nat" where
  "digits_value s = foldl (\<lambda>a c. 10 * a + digit_value c) 0 s"

function show_nat :: "nat \<Rightarrow> string" where
  "show_nat n = (if n < 10 then [digit_char n] else show_nat (n div 10) @ [digit_char (n mod 10)])"
  by pat_completeness simp
termination
  by (relation "measure id") auto

declare show_nat.simps [simp del]

text \<open>\<open>std::to_string\<close> on a \<open>std::size_t\<close>, and what \<open>operator<<\<close> writes for an \<open>int\<close>.\<close>

definition to_string :: "u64 \<Rightarrow> string" where
  "to_string i = show_nat (unat i)"

definition show_int :: "int \<Rightarrow> string" where
  "show_int i = (if i < 0 then CHR ''-'' # show_nat (nat (- i)) else show_nat (nat i))"

lemma digit_char_value [simp]: "d < 10 \<Longrightarrow> digit_value (digit_char d) = d"
  by (simp add: digit_value_def digit_char_def)

lemma digit_char_digit [simp]: "d < 10 \<Longrightarrow> is_digit (digit_char d)"
  by (simp add: is_digit_def digit_char_def)

lemma digits_value_append_one: "digits_value (s @ [c]) = 10 * digits_value s + digit_value c"
  by (simp add: digits_value_def)

lemma digits_value_show [simp]: "digits_value (show_nat n) = n"
proof (induction n rule: show_nat.induct)
  case (1 n)
  show ?case
  proof (cases "n < 10")
    case True
    then show ?thesis by (simp add: show_nat.simps [of n] digits_value_def)
  next
    case False
    then show ?thesis using 1 by (simp add: show_nat.simps [of n] digits_value_append_one)
  qed
qed

lemma show_nat_digits: "c \<in> set (show_nat n) \<Longrightarrow> is_digit c"
proof (induction n rule: show_nat.induct)
  case (1 n)
  then show ?case by (cases "n < 10") (auto simp: show_nat.simps [of n])
qed

lemma show_nat_nonempty [simp]: "show_nat n \<noteq> []"
  by (simp add: show_nat.simps [of n])

lemma show_nat_inject [simp]: "show_nat m = show_nat n \<longleftrightarrow> m = n"
  by (metis digits_value_show)

lemma show_nat_length: "n < 10 ^ Suc w \<Longrightarrow> length (show_nat n) \<le> Suc w"
proof (induction w arbitrary: n)
  case 0
  then show ?case by (simp add: show_nat.simps [of n])
next
  case (Suc w)
  show ?case
  proof (cases "n < 10")
    case True
    then show ?thesis by (simp add: show_nat.simps [of n])
  next
    case False
    moreover have "n div 10 < 10 ^ Suc w" using Suc.prems by (simp add: less_mult_imp_div_less)
    ultimately show ?thesis using Suc.IH [of "n div 10"] by (simp add: show_nat.simps [of n])
  qed
qed

lemma takeWhile_show:
  assumes "s = [] \<or> \<not> is_digit (hd s)"
  shows "takeWhile is_digit (show_nat n @ s) = show_nat n"
    and "dropWhile is_digit (show_nat n @ s) = s"
  using assms show_nat_digits by (cases s; auto simp: takeWhile_append2 dropWhile_append2)+

section \<open>Reading a number\<close>

definition is_space :: "char \<Rightarrow> bool" where
  "is_space c \<longleftrightarrow> c = CHR '' '' \<or> (9 \<le> (of_char c :: nat) \<and> (of_char c :: nat) \<le> 13)"

text \<open>
  \<open>std::stoi\<close>: white space, a sign, digits; no digit is \<open>invalid_argument\<close>, a number no \<open>int\<close> holds
  is \<open>out_of_range\<close>, and what follows the digits is not looked at.
\<close>

definition stoi :: "string \<Rightarrow> exn + int" where
  "stoi s =
     (let t = dropWhile is_space s;
          negative = (t \<noteq> [] \<and> hd t = CHR ''-'');
          u = (if t \<noteq> [] \<and> (hd t = CHR ''-'' \<or> hd t = CHR ''+'') then tl t else t);
          digits = takeWhile is_digit u;
          v = (if negative then - int (digits_value digits) else int (digits_value digits))
      in if digits = [] then Inl (Invalid_argument ''stoi'')
         else if v < - (2 ^ 31) \<or> 2 ^ 31 \<le> v then Inl (Out_of_range ''stoi'')
         else Inr v)"

lemma digit_hd:
  assumes "is_digit c"
  shows "c \<noteq> CHR ''-'' \<and> c \<noteq> CHR ''+'' \<and> \<not> is_space c"
  using assms by (auto simp: is_digit_def is_space_def)

lemma stoi_show:
  "stoi (show_nat n) = (if n < 2 ^ 31 then Inr (int n) else Inl (Out_of_range ''stoi''))"
proof -
  obtain c cs where s: "show_nat n = c # cs" by (cases "show_nat n") simp_all
  then have c: "is_digit c" using show_nat_digits [of c n] by simp
  have digits: "takeWhile is_digit (c # cs) = c # cs"
    using takeWhile_show(1) [of "[]" n] s by simp
  have val: "digits_value (c # cs) = n" using digits_value_show [of n] s by simp
  have small: "int n < 2147483648 \<longleftrightarrow> n < 2147483648" by linarith
  show ?thesis
    using digit_hd [OF c] unfolding stoi_def s by (simp add: digits val Let_def small del: takeWhile.simps)
qed

section \<open>Time stamps\<close>

text \<open>\<open>std::setfill('0') << std::setw(w)\<close>\<close>

definition pad :: "nat \<Rightarrow> string \<Rightarrow> string" where
  "pad w s = replicate (w - length s) CHR ''0'' @ s"

definition format_datetime :: "datetime \<Rightarrow> string" where
  "format_datetime dt =
     pad 4 (show_int (year (dt_date dt))) @ ''-'' @
     pad 2 (show_int (month (dt_date dt))) @ ''-'' @
     pad 2 (show_int (day (dt_date dt))) @ '' '' @
     pad 2 (show_int (hours (dt_time dt))) @ '':'' @
     pad 2 (show_int (minutes (dt_time dt))) @ '':'' @
     pad 2 (show_int (seconds (dt_time dt)))"

text \<open>
  One conversion of \<open>std::get_time\<close>: as many digits as the field has, in its range; a number that
  does not fit sets the stream's fail bit. A character of the format that is not a conversion has to
  match; a space matches any white space.
\<close>

definition read_field :: "nat \<Rightarrow> nat \<Rightarrow> nat \<Rightarrow> string \<Rightarrow> (nat \<times> string) option" where
  "read_field w lo hi s =
     (let d = take w s; v = digits_value d
      in if length d = w \<and> list_all is_digit d \<and> lo \<le> v \<and> v \<le> hi then Some (v, drop w s) else None)"

fun read_char :: "char \<Rightarrow> string \<Rightarrow> string option" where
  "read_char c [] = None"
| "read_char c (x # xs) = (if c = x then Some xs else None)"

text \<open>
  \<open>iss >> std::get_time(&tm, "%Y-%m-%d %H:%M:%S")\<close>: the fields read before a failure are set, the
  others keep what they had.
\<close>

definition get_time :: "string \<Rightarrow> tm \<Rightarrow> tm" where
  "get_time s t0 =
     (case read_field 4 0 9999 s of None \<Rightarrow> t0 | Some (y, s1) \<Rightarrow>
        let t1 = t0\<lparr>tm_year := int y - 1900\<rparr> in
      case Option.bind (read_char CHR ''-'' s1) (read_field 2 1 12) of None \<Rightarrow> t1 | Some (m, s2) \<Rightarrow>
        let t2 = t1\<lparr>tm_mon := int m - 1\<rparr> in
      case Option.bind (read_char CHR ''-'' s2) (read_field 2 1 31) of None \<Rightarrow> t2 | Some (d, s3) \<Rightarrow>
        let t3 = t2\<lparr>tm_mday := int d\<rparr> in
      case read_field 2 0 23 (dropWhile is_space s3) of None \<Rightarrow> t3 | Some (h, s4) \<Rightarrow>
        let t4 = t3\<lparr>tm_hour := int h\<rparr> in
      case Option.bind (read_char CHR '':'' s4) (read_field 2 0 59) of None \<Rightarrow> t4 | Some (mi, s5) \<Rightarrow>
        let t5 = t4\<lparr>tm_min := int mi\<rparr> in
      case Option.bind (read_char CHR '':'' s5) (read_field 2 0 60) of None \<Rightarrow> t5 | Some (sec, s6) \<Rightarrow>
        t5\<lparr>tm_sec := int sec\<rparr>)"

definition datetime_in_range :: "datetime \<Rightarrow> bool" where
  "datetime_in_range dt \<longleftrightarrow>
     0 \<le> year (dt_date dt) \<and> year (dt_date dt) \<le> 9999 \<and>
     1 \<le> month (dt_date dt) \<and> month (dt_date dt) \<le> 12 \<and>
     1 \<le> day (dt_date dt) \<and> day (dt_date dt) \<le> 31 \<and>
     0 \<le> hours (dt_time dt) \<and> hours (dt_time dt) \<le> 23 \<and>
     0 \<le> minutes (dt_time dt) \<and> minutes (dt_time dt) \<le> 59 \<and>
     0 \<le> seconds (dt_time dt) \<and> seconds (dt_time dt) \<le> 59"

definition tm_of :: "datetime \<Rightarrow> tm" where
  "tm_of dt =
     \<lparr>tm_year = year (dt_date dt) - 1900, tm_mon = month (dt_date dt) - 1,
      tm_mday = day (dt_date dt), tm_hour = hours (dt_time dt),
      tm_min = minutes (dt_time dt), tm_sec = seconds (dt_time dt)\<rparr>"

lemma zero_digit [simp]: "is_digit CHR ''0''" "digit_value CHR ''0'' = 0"
  by (simp_all add: is_digit_def digit_value_def)

lemma digits_value_zeros [simp]: "digits_value (replicate k CHR ''0'' @ s) = digits_value s"
proof -
  have "foldl (\<lambda>a c. 10 * a + digit_value c) 0 (replicate k CHR ''0'') = 0"
    by (induction k) simp_all
  then show ?thesis by (simp add: digits_value_def)
qed

lemma read_padded:
  assumes "0 \<le> i" and "i < 10 ^ Suc w" and "int lo \<le> i" and "i \<le> int hi"
  shows "read_field (Suc w) lo hi (pad (Suc w) (show_int i) @ s) = Some (nat i, s)"
proof -
  let ?p = "pad (Suc w) (show_nat (nat i))"
  have "nat i < 10 ^ Suc w" using assms(1,2) by (simp add: nat_less_iff)
  then have "length (show_nat (nat i)) \<le> Suc w" by (rule show_nat_length)
  then have len: "length ?p = Suc w" by (simp add: pad_def)
  have "list_all is_digit ?p" by (auto simp: pad_def list_all_iff intro: show_nat_digits)
  moreover have "digits_value ?p = nat i" by (simp add: pad_def)
  moreover have "lo \<le> nat i" and "nat i \<le> hi" using assms by linarith+
  ultimately show ?thesis
    using len assms(1) by (simp add: read_field_def show_int_def Let_def)
qed

lemma padded_no_space:
  assumes "0 \<le> i"
  shows "dropWhile is_space (pad w (show_int i) @ s) = pad w (show_int i) @ s"
proof -
  obtain c cs where p: "pad w (show_nat (nat i)) = c # cs"
    by (cases "pad w (show_nat (nat i))") (simp_all add: pad_def)
  then have "c \<in> set (pad w (show_nat (nat i)))" by simp
  then have "is_digit c" by (auto simp: pad_def intro: show_nat_digits)
  then show ?thesis using p assms digit_hd by (simp add: show_int_def)
qed

lemma read_separator:
  "Option.bind (read_char c (c # s)) f = f s"
  by simp

lemma get_time_format:
  assumes "datetime_in_range dt"
  shows "get_time (format_datetime dt) t0 = tm_of dt"
proof -
  have y: "read_field 4 0 9999 (pad 4 (show_int (year (dt_date dt))) @ s) = Some (nat (year (dt_date dt)), s)" for s
    using read_padded [of "year (dt_date dt)" 3 0 9999 s] assms by (simp add: datetime_in_range_def)
  have two: "read_field 2 lo hi (pad 2 (show_int i) @ s) = Some (nat i, s)"
    if "int lo \<le> i" "i \<le> int hi" "hi < 100" for lo hi i s
    using read_padded [of i 1 lo hi s] that by (simp add: numeral_2_eq_2)
  have last: "read_field 2 lo hi (pad 2 (show_int i)) = Some (nat i, [])"
    if "int lo \<le> i" "i \<le> int hi" "hi < 100" for lo hi i
    using two [OF that, of "[]"] by simp
  have h: "dropWhile is_space (CHR '' '' # pad 2 (show_int (hours (dt_time dt))) @ s) =
      pad 2 (show_int (hours (dt_time dt))) @ s" for s
    using padded_no_space [of "hours (dt_time dt)" 2 s] assms
    by (simp add: is_space_def datetime_in_range_def)
  have f: "format_datetime dt =
     pad 4 (show_int (year (dt_date dt))) @ CHR ''-'' #
     pad 2 (show_int (month (dt_date dt))) @ CHR ''-'' #
     pad 2 (show_int (day (dt_date dt))) @ CHR '' '' #
     pad 2 (show_int (hours (dt_time dt))) @ CHR '':'' #
     pad 2 (show_int (minutes (dt_time dt))) @ CHR '':'' #
     pad 2 (show_int (seconds (dt_time dt)))"
    by (simp add: format_datetime_def)
  show ?thesis
    using assms unfolding get_time_def f y
    by (simp add: datetime_in_range_def two last h tm_of_def Let_def del: dropWhile.simps)
qed

section \<open>Properties\<close>

text \<open>\<open>std::stoi\<close> reads back what \<open>std::to_string\<close> wrote exactly for the ids an \<open>int\<close> can hold;
  for every larger id it throws \<open>out_of_range\<close>.\<close>

theorem stoi_to_string:
  "stoi (to_string i) =
   (if unat i < 2 ^ 31 then Inr (int (unat i)) else Inl (Out_of_range ''stoi''))"
  unfolding to_string_def by (rule stoi_show)

text \<open>A time stamp in range survives the way into the database's text and back: \<open>get_time\<close> on
  what \<open>addMsgHistory\<close> formats gives its six fields, with C's offsets for year and month, whatever
  the \<open>tm\<close> held before.\<close>

theorem timestamp_round_trip:
  assumes "datetime_in_range dt"
  shows "get_time (format_datetime dt) t0 = tm_of dt"
  using assms by (rule get_time_format)

lemma timestamp_round_trip_witness:
  "get_time (format_datetime \<lparr>dt_time = \<lparr>hours = 9, minutes = 5, seconds = 0\<rparr>,
     dt_date = \<lparr>day = 3, month = 2, year = 2021\<rparr>\<rparr>)
     \<lparr>tm_year = 0, tm_mon = 0, tm_mday = 0, tm_hour = 0, tm_min = 0, tm_sec = 0\<rparr> =
   \<lparr>tm_year = 121, tm_mon = 1, tm_mday = 3, tm_hour = 9, tm_min = 5, tm_sec = 0\<rparr>"
  by (subst timestamp_round_trip) (simp_all add: datetime_in_range_def tm_of_def)

end
