(* ===== verification/Wrapper_Pg.thy ===== *)
theory Wrapper_Pg
  imports Database Decimal
begin

text \<open>
  \<open>db::WrapperPg\<close> (\<open>database/WrapperPg.h\<close>, \<open>database/WrapperPg.cpp\<close>), the PostgreSQL backend:
  every member function with the query text it sends. libpq and the server behind it are the
  parameter \<open>libpq\<close>; what the queries do is not decided here but in theory \<open>Postgres\<close>. The mutex
  around \<open>PQexec\<close> has nothing to do while a member function runs to its end by itself.
\<close>

section \<open>libpq\<close>

datatype pg_status = PGRES_COMMAND_OK | PGRES_TUPLES_OK | PGRES_FATAL_ERROR

record pg_result =
  result_status :: pg_status
  tuples :: "string list list"

text \<open>
  \<open>'pg\<close> is a connection together with the server it leads to. \<open>PQexec\<close> is given a C string, so the
  query ends at its first zero character.
\<close>

record 'pg libpq =
  PQconnectdb :: "string \<Rightarrow> 'pg"
  connection_ok :: "'pg \<Rightarrow> bool" \<comment> \<open>\<open>PQstatus(connection) == CONNECTION_OK\<close>\<close>
  PQexec :: "string \<Rightarrow> 'pg \<Rightarrow> pg_result \<times> 'pg"

definition c_str :: "string \<Rightarrow> string" where
  "c_str s = takeWhile (\<lambda>c. c \<noteq> CHR 0x00) s"

text \<open>\<open>PQgetvalue\<close> outside the result is null, which the code hands to \<open>std::string\<close> or \<open>stoi\<close>.\<close>

definition PQgetvalue :: "pg_result \<Rightarrow> nat \<Rightarrow> nat \<Rightarrow> ('s, string) eff" where
  "PQgetvalue res i j =
     (if i < length (tuples res) \<and> j < length (tuples res ! i) then eff_return (tuples res ! i ! j)
      else eff_fail Null_pointer)"

definition PQntuples :: "pg_result \<Rightarrow> nat" where
  "PQntuples res = length (tuples res)"

section \<open>The object\<close>

record 'pg wrapper =
  connection :: "'pg option" \<comment> \<open>\<open>None\<close>: the pointer has not been set\<close>
  isConnected :: bool

definition WrapperPg_new :: "'pg wrapper" where
  "WrapperPg_new = \<lparr>connection = None, isConnected = False\<rparr>"

definition exec_query :: "'pg libpq \<Rightarrow> string \<Rightarrow> ('pg wrapper, pg_result) eff" where
  \<comment> \<open>\<open>PQexec(connection, query.c_str())\<close>\<close>
  "exec_query L query w =
     (case connection w of
        None \<Rightarrow> (Inl Unset_pointer, w)
      | Some c \<Rightarrow>
          (let (res, c') = PQexec L (c_str query) c
           in (Inr res, w\<lparr>connection := Some c'\<rparr>)))"

definition execThreadSafe :: "'pg libpq \<Rightarrow> string \<Rightarrow> ('pg wrapper, pg_result) eff" where
  "execThreadSafe L query = exec_query L query"

text \<open>\<open>std::stoi\<close> as a call that may throw, and its result stored in a \<open>type_id_user\<close>.\<close>

definition stoi_id :: "string \<Rightarrow> ('s, type_id_user) eff" where
  "stoi_id s =
     (case stoi s of
        Inl x \<Rightarrow> eff_throw x
      | Inr v \<Rightarrow> eff_return (word_of_int v))"

definition value_id :: "pg_result \<Rightarrow> nat \<Rightarrow> nat \<Rightarrow> ('s, type_id_user) eff" where
  "value_id res i j = eff_bind (PQgetvalue res i j) stoi_id"

text \<open>A text in single quotes, as the code's string concatenations write it.\<close>

definition sq :: "string \<Rightarrow> string" where
  "sq s = [CHR 0x27] @ s @ [CHR 0x27]"

section \<open>Operations\<close>

definition conninfo :: "connect_settings \<Rightarrow> string" where
  "conninfo s = ''user='' @ cs_user s @ '' password='' @ cs_password s
     @ '' host='' @ cs_host s @ '' dbname='' @ cs_db s"

definition WrapperPg_connect :: "'pg libpq \<Rightarrow> connect_settings \<Rightarrow> ('pg wrapper, bool) eff" where
  "WrapperPg_connect L setting =
     eff_bind (eff_gets isConnected) (\<lambda>already.
     eff_bind (if \<not> already
               then eff_modify (\<lambda>w. w\<lparr>connection := Some (PQconnectdb L (c_str (conninfo setting)))\<rparr>)
               else eff_return ()) (\<lambda>_.
     eff_bind (eff_gets connection) (\<lambda>c.
     case c of
       None \<Rightarrow> eff_fail Unset_pointer
     | Some pg \<Rightarrow>
         eff_bind (if \<not> connection_ok L pg then eff_return ()
                   else eff_modify (\<lambda>w. w\<lparr>isConnected := True\<rparr>)) (\<lambda>_.
         eff_gets isConnected))))"

definition WrapperPg_getClientId :: "'pg libpq \<Rightarrow> string \<Rightarrow> ('pg wrapper, type_id_user) eff" where
  "WrapperPg_getClientId L client_name =
     eff_bind (eff_gets isConnected) (\<lambda>connected.
     if connected then
       eff_bind (execThreadSafe L
           (''SELECT id FROM clients WHERE login='' @ sq client_name @ '';'')) (\<lambda>res.
       if result_status res \<noteq> PGRES_TUPLES_OK then eff_return REG_LOGIN_IS_BUSY
       else if PQntuples res \<noteq> 0 then value_id res 0 0
       else eff_return 0)
     else eff_return REG_LOGIN_IS_BUSY)"

definition WrapperPg_getChannelId :: "'pg libpq \<Rightarrow> string \<Rightarrow> ('pg wrapper, type_id_user) eff" where
  "WrapperPg_getChannelId L channel_name =
     eff_bind (eff_gets isConnected) (\<lambda>connected.
     if \<not> connected then eff_return LOGIN_IS_FREE
     else
       eff_bind (execThreadSafe L
           (''SELECT DISTINCT id FROM channels WHERE channel_name='' @ sq channel_name @ '';'')) (\<lambda>res.
       if result_status res = PGRES_TUPLES_OK then
         if PQntuples res \<noteq> 0 then value_id res 0 0
         else eff_return LOGIN_IS_FREE
       else eff_return LOGIN_IS_FREE))"

definition WrapperPg_getChannelName :: "'pg libpq \<Rightarrow> type_id_user \<Rightarrow> ('pg wrapper, string) eff" where
  "WrapperPg_getChannelName L channel_id =
     eff_bind (eff_gets isConnected) (\<lambda>connected.
     if connected then
       eff_bind (execThreadSafe L
           (''SELECT channel_name FROM channels WHERE id='' @ sq (to_string channel_id) @ '';'')) (\<lambda>res.
       if result_status res \<noteq> PGRES_TUPLES_OK then eff_return []
       else if PQntuples res \<noteq> 0 then PQgetvalue res 0 0
       else eff_return [])
     else eff_return [])"

definition WrapperPg_getClientName :: "'pg libpq \<Rightarrow> type_id_user \<Rightarrow> ('pg wrapper, string) eff" where
  "WrapperPg_getClientName L client_id =
     eff_bind (eff_gets isConnected) (\<lambda>connected.
     if \<not> connected then eff_return []
     else
       eff_bind (execThreadSafe L
           (''SELECT login FROM clients WHERE id='' @ sq (to_string client_id) @ '';'')) (\<lambda>res.
       if result_status res \<noteq> PGRES_TUPLES_OK then eff_return []
       else if PQntuples res \<noteq> 0 then PQgetvalue res 0 0
       else eff_return []))"

definition WrapperPg_checkRegUser ::
  "'pg libpq \<Rightarrow> input_settings \<Rightarrow> ('pg wrapper, type_id_user) eff" where
  "WrapperPg_checkRegUser L settings =
     eff_bind (eff_gets isConnected) (\<lambda>connected.
     if \<not> connected then eff_return LOGIN_IS_FREE
     else
       eff_bind (WrapperPg_getClientId L (clientName settings)) (\<lambda>found.
       if found = LOGIN_IS_FREE then
         eff_bind (execThreadSafe L
             (''INSERT INTO clients(login, password) VALUES ('' @ sq (clientName settings) @ '', ''
              @ sq (clientPassword settings) @ '');'')) (\<lambda>res.
         WrapperPg_getClientId L (clientName settings))
       else eff_return LOGIN_IS_FREE))"

definition WrapperPg_checkAuthUser ::
  "'pg libpq \<Rightarrow> input_settings \<Rightarrow> ('pg wrapper, type_id_user) eff" where
  "WrapperPg_checkAuthUser L settings =
     eff_bind (eff_gets isConnected) (\<lambda>connected.
     if \<not> connected then eff_return AUTH_LOGIN_IS_NOT_AVAILABLE
     else
       eff_bind (execThreadSafe L
           (''SELECT id, password FROM clients WHERE login='' @ sq (clientName settings) @ '';'')) (\<lambda>res.
       if result_status res \<noteq> PGRES_TUPLES_OK then eff_return AUTH_LOGIN_IS_NOT_AVAILABLE
       else if PQntuples res \<noteq> 0 then
         eff_bind (PQgetvalue res 0 1) (\<lambda>stored.
         if clientPassword settings = stored then value_id res 0 0
         else eff_return AUTH_LOGIN_IS_NOT_AVAILABLE)
       else eff_return AUTH_LOGIN_IS_NOT_AVAILABLE))"

definition WrapperPg_getUserNameChannels ::
  "'pg libpq \<Rightarrow> type_id_user \<Rightarrow> ('pg wrapper, string list) eff" where
  "WrapperPg_getUserNameChannels L client_id =
     eff_bind (eff_gets isConnected) (\<lambda>connected.
     if \<not> connected then eff_return []
     else
       eff_bind (execThreadSafe L
           (''SELECT DISTINCT channel_name FROM history WHERE client_id='' @ to_string client_id @ '';''))
         (\<lambda>res.
       if result_status res = PGRES_TUPLES_OK then
         eff_map (\<lambda>i. PQgetvalue res i 0) [0..<PQntuples res]
       else eff_return []))"

definition WrapperPg_getChannelUsers ::
  "'pg libpq \<Rightarrow> type_id_user \<Rightarrow> ('pg wrapper, type_id_user list) eff" where
  "WrapperPg_getChannelUsers L channel_id =
     eff_bind (eff_gets isConnected) (\<lambda>connected.
     if \<not> connected then eff_return []
     else
       eff_bind (execThreadSafe L
           (''SELECT DISTINCT client_id FROM subscriptions WHERE channel_id='' @ to_string channel_id @ '';''))
         (\<lambda>res.
       if result_status res = PGRES_TUPLES_OK then
         eff_map (\<lambda>i. value_id res i 0) [0..<PQntuples res]
       else eff_return []))"

definition WrapperPg_hasChannel :: "'pg libpq \<Rightarrow> string \<Rightarrow> ('pg wrapper, bool) eff" where
  "WrapperPg_hasChannel L channelName =
     eff_bind (eff_gets isConnected) (\<lambda>connected.
     if \<not> connected then eff_return False
     else
       eff_bind (execThreadSafe L
           (''SELECT channel_name FROM channels WHERE channel_name='' @ sq channelName @ '';'')) (\<lambda>res.
       if result_status res = PGRES_TUPLES_OK then eff_return (PQntuples res > 0)
       else eff_throw (Invalid_argument ''wrong hasChannel'')))"

definition WrapperPg_createChannel :: "'pg libpq \<Rightarrow> string \<Rightarrow> ('pg wrapper, type_id_user) eff" where
  "WrapperPg_createChannel L channel_name =
     eff_bind (eff_gets isConnected) (\<lambda>connected.
     if \<not> connected then eff_return LOGIN_IS_FREE
     else
       eff_bind (WrapperPg_getChannelId L channel_name) (\<lambda>channel_id.
       if channel_id = LOGIN_IS_FREE then
         eff_bind (execThreadSafe L
             (''INSERT INTO channels(channel_name) VALUES ('' @ sq channel_name @ '');'')) (\<lambda>res.
         WrapperPg_getChannelId L channel_name)
       else eff_return channel_id))"

definition WrapperPg_hasChannelClient ::
  "'pg libpq \<Rightarrow> type_id_user \<Rightarrow> type_id_user \<Rightarrow> ('pg wrapper, bool) eff" where
  "WrapperPg_hasChannelClient L channel_id client_id =
     eff_bind (eff_gets isConnected) (\<lambda>connected.
     if \<not> connected then eff_return False
     else
       eff_bind (execThreadSafe L
           (''SELECT * FROM subscriptions WHERE client_id='' @ sq (to_string client_id)
            @ '' AND channel_id='' @ sq (to_string channel_id) @ '';'')) (\<lambda>res.
       if result_status res = PGRES_TUPLES_OK then eff_return (PQntuples res > 0)
       else eff_return False))"

text \<open>The success message of \<open>joinClientChannel\<close> has one directive and is fed two arguments.\<close>

definition WrapperPg_joinClientChannel ::
  "'pg libpq \<Rightarrow> env \<Rightarrow> type_id_user \<Rightarrow> string \<Rightarrow> ('pg wrapper, unit) eff" where
  "WrapperPg_joinClientChannel L E client_id channel_name =
     eff_bind (eff_gets isConnected) (\<lambda>connected.
     if \<not> connected then eff_return ()
     else
       eff_bind (WrapperPg_getChannelId L channel_name) (\<lambda>channel_id.
       eff_bind (WrapperPg_hasChannelClient L channel_id client_id) (\<lambda>subscribed.
       if subscribed then eff_return ()
       else
         eff_bind (execThreadSafe L
             (''INSERT INTO subscriptions VALUES('' @ to_string client_id @ '', ''
              @ to_string channel_id @ '');'')) (\<lambda>res.
         if result_status res = PGRES_COMMAND_OK then
           boost_format E ''joinClientChannel: successfully add client_id=%1% to channel='' 2
         else eff_return ()))))"

text \<open>\<open>addMsgHistory\<close> asks neither \<open>isConnected\<close> nor its channel id, and does not take the mutex.\<close>

definition WrapperPg_addMsgHistory ::
  "'pg libpq \<Rightarrow> type_id_user \<Rightarrow> text_msg \<Rightarrow> ('pg wrapper, unit) eff" where
  "WrapperPg_addMsgHistory L channel_id message =
     (let ss = format_datetime (msg_dt message) in
      eff_bind (WrapperPg_getClientId L (msg_author message)) (\<lambda>client_id.
      eff_bind (exec_query L
          (''insert into history(client_id, channel_name, datetime, message) '' @
           ''values ('' @ to_string client_id @ '', '' @ sq (msg_channel_name message) @ '', ''
           @ sq ss @ '', '' @ sq (msg_text message) @ '');'')) (\<lambda>res.
      eff_return ())))"

definition history_row ::
  "'pg libpq \<Rightarrow> env \<Rightarrow> string \<Rightarrow> pg_result \<Rightarrow> nat \<Rightarrow> ('pg wrapper, text_msg) eff" where
  "history_row L E channel_name res i =
     eff_bind (value_id res i 0) (\<lambda>client_id.
     eff_bind (WrapperPg_getClientName L client_id) (\<lambda>author.
     eff_bind (PQgetvalue res i 2) (\<lambda>dt.
     eff_bind (PQgetvalue res i 3) (\<lambda>message.
     eff_return \<lparr>msg_author = author, msg_text = message, msg_channel_name = channel_name,
                 msg_dt = datetime_of_tm E (get_time dt (unset_tm E))\<rparr>))))"

definition WrapperPg_getHistory ::
  "'pg libpq \<Rightarrow> env \<Rightarrow> type_id_user \<Rightarrow> ('pg wrapper, text_msg list) eff" where
  "WrapperPg_getHistory L E channel_id =
     eff_bind (eff_gets isConnected) (\<lambda>connected.
     if \<not> connected then eff_return []
     else
       eff_bind (WrapperPg_getChannelName L channel_id) (\<lambda>channel_name.
       eff_bind (execThreadSafe L
           (''SELECT * FROM history WHERE channel_name='' @ sq channel_name @ '';'')) (\<lambda>res.
       if result_status res = PGRES_TUPLES_OK then
         eff_map (history_row L E channel_name res) [0..<PQntuples res]
       else eff_return [])))"

fun assign_all :: "('k \<times> 'v) list \<Rightarrow> ('k \<rightharpoonup> 'v) \<Rightarrow> 'k \<rightharpoonup> 'v" where
  "assign_all [] m = m"
| "assign_all ((k, v) # ps) m = assign_all ps (m(k \<mapsto> v))"

definition channel_row :: "pg_result \<Rightarrow> nat \<Rightarrow> ('s, type_id_user \<times> string) eff" where
  "channel_row res i =
     eff_bind (value_id res i 0) (\<lambda>channel_id.
     eff_bind (PQgetvalue res i 1) (\<lambda>channel_name.
     eff_return (channel_id, channel_name)))"

definition WrapperPg_getCurrentChannels ::
  "'pg libpq \<Rightarrow> ('pg wrapper, type_id_user \<rightharpoonup> string) eff" where
  "WrapperPg_getCurrentChannels L =
     eff_bind (eff_gets isConnected) (\<lambda>connected.
     if \<not> connected then eff_return Map.empty
     else
       eff_bind (execThreadSafe L ''SELECT * FROM channels;'') (\<lambda>res.
       if result_status res = PGRES_TUPLES_OK then
         eff_bind (eff_map (channel_row res) [0..<PQntuples res]) (\<lambda>channels.
         eff_return (assign_all channels Map.empty))
       else eff_return Map.empty))"

definition Pg_db :: "'pg libpq \<Rightarrow> env \<Rightarrow> 'pg wrapper idatabase" where
  "Pg_db L E =
     \<lparr>db_connect = WrapperPg_connect L,
      db_checkRegUser = WrapperPg_checkRegUser L,
      db_checkAuthUser = WrapperPg_checkAuthUser L,
      db_getUserNameChannels = WrapperPg_getUserNameChannels L,
      db_getChannelUsers = WrapperPg_getChannelUsers L,
      db_hasChannel = WrapperPg_hasChannel L,
      db_createChannel = WrapperPg_createChannel L,
      db_joinClientChannel = WrapperPg_joinClientChannel L E,
      db_addMsgHistory = WrapperPg_addMsgHistory L,
      db_getHistory = WrapperPg_getHistory L E,
      db_getChannelId = WrapperPg_getChannelId L,
      db_getCurrentChannels = WrapperPg_getCurrentChannels L\<rparr>"

section \<open>Properties\<close>

text \<open>Ids are 64-bit in the program and are read back from the database with \<open>std::stoi\<close>: a cell
  that holds the text of an id gives the id if an \<open>int\<close> can hold it, and from \<open>2 ^ 31\<close> on the call
  throws \<open>out_of_range\<close>, out of the member function that asked.\<close>

theorem ids_above_int_throw:
  assumes "i < length (tuples res)" and "j < length (tuples res ! i)" and "tuples res ! i ! j = to_string c"
  shows "value_id res i j w =
    (if unat c < 2 ^ 31 then (Inr c, w) else (Inl (Thrown (Out_of_range ''stoi'')), w))"
  using assms by (simp add: value_id_def PQgetvalue_def stoi_id_def to_string_def stoi_show)

lemma ids_above_int_throw_witness:
  "value_id \<lparr>result_status = PGRES_TUPLES_OK, tuples = [[to_string 3000000000]]\<rparr> 0 0 (WrapperPg_new :: nat wrapper) =
   (Inl (Thrown (Out_of_range ''stoi'')), WrapperPg_new)"
proof -
  have large: "\<not> unat (3000000000 :: u64) < 2 ^ 31" by (simp only: unsigned_numeral take_bit_eq_mod) simp
  show ?thesis
    by (rule ids_above_int_throw [THEN trans, OF _ _ _ if_not_P [OF large]]) simp_all
qed

end
