(* ===== verification/Postgres.thy ===== *)
theory Postgres
  imports Wrapper_Pg "HOL-Library.Multiset"
begin

text \<open>
  The server behind \<open>WrapperPg\<close>: the tables of \<open>env/pg/configure.sh\<close>, the statements the code can
  send with the text it renders them to, and what each statement does to the tables. PostgreSQL is
  not part of the repository, so none of this defines it; \<open>postgres_documented\<close> is the hypothesis
  under which theory \<open>Pg_Contracts\<close> works, that a connection answers the statements of \<open>sql\<close> the way SQL says.
  It is silent on every other text, on rows that do not fit their columns, and on exhausted
  sequences. A parser that reads the statements back shows that different statements have different
  texts, and a small server built on it shows that the hypothesis can hold.
\<close>

section \<open>Tables\<close>

text \<open>Ids are the values of the \<open>serial\<close> columns, which start at 1.\<close>

record pg_client =
  pc_id :: nat
  pc_login :: string
  pc_password :: string

record pg_channel =
  ph_id :: nat
  ph_name :: string

record pg_message =
  pm_client :: nat
  pm_channel :: string
  pm_datetime :: datetime
  pm_text :: string

record pg_tables =
  t_clients :: "pg_client list"
  t_channels :: "pg_channel list"
  t_subscriptions :: "(nat \<times> nat) list" \<comment> \<open>client_id, channel_id\<close>
  t_history :: "pg_message list"
  next_client :: nat
  next_channel :: nat

definition empty_tables :: pg_tables where
  "empty_tables = \<lparr>t_clients = [], t_channels = [], t_subscriptions = [], t_history = [],
     next_client = 1, next_channel = 1\<rparr>"

section \<open>Statements\<close>

datatype sql =
    SelectClientId string
  | SelectChannelId string
  | SelectChannelName nat
  | SelectClientName nat
  | InsertClients "(string \<times> string) list"
  | SelectAuth string
  | SelectUserChannels nat
  | SelectChannelUsers nat
  | SelectChannel string
  | InsertChannel string
  | SelectSubscription nat nat
  | InsertSubscription nat nat
  | InsertHistory nat string datetime string
  | SelectHistory string
  | SelectChannels

fun client_rows :: "(string \<times> string) list \<Rightarrow> string" where
  "client_rows [] = []"
| "client_rows [(l, p)] = ''('' @ sq l @ '', '' @ sq p @ '')''"
| "client_rows ((l, p) # rows) = ''('' @ sq l @ '', '' @ sq p @ ''), '' @ client_rows rows"

fun render :: "sql \<Rightarrow> string" where
  "render (SelectClientId n) = ''SELECT id FROM clients WHERE login='' @ sq n @ '';''"
| "render (SelectChannelId n) =
     ''SELECT DISTINCT id FROM channels WHERE channel_name='' @ sq n @ '';''"
| "render (SelectChannelName i) =
     ''SELECT channel_name FROM channels WHERE id='' @ sq (show_nat i) @ '';''"
| "render (SelectClientName i) = ''SELECT login FROM clients WHERE id='' @ sq (show_nat i) @ '';''"
| "render (InsertClients rows) =
     ''INSERT INTO clients(login, password) VALUES '' @ client_rows rows @ '';''"
| "render (SelectAuth n) = ''SELECT id, password FROM clients WHERE login='' @ sq n @ '';''"
| "render (SelectUserChannels i) =
     ''SELECT DISTINCT channel_name FROM history WHERE client_id='' @ show_nat i @ '';''"
| "render (SelectChannelUsers i) =
     ''SELECT DISTINCT client_id FROM subscriptions WHERE channel_id='' @ show_nat i @ '';''"
| "render (SelectChannel n) =
     ''SELECT channel_name FROM channels WHERE channel_name='' @ sq n @ '';''"
| "render (InsertChannel n) = ''INSERT INTO channels(channel_name) VALUES ('' @ sq n @ '');''"
| "render (SelectSubscription c i) =
     ''SELECT * FROM subscriptions WHERE client_id='' @ sq (show_nat c)
       @ '' AND channel_id='' @ sq (show_nat i) @ '';''"
| "render (InsertSubscription c i) =
     ''INSERT INTO subscriptions VALUES('' @ show_nat c @ '', '' @ show_nat i @ '');''"
| "render (InsertHistory c n dt m) =
     ''insert into history(client_id, channel_name, datetime, message) '' @
     ''values ('' @ show_nat c @ '', '' @ sq n @ '', '' @ sq (format_datetime dt) @ '', '' @ sq m
       @ '');''"
| "render (SelectHistory n) = ''SELECT * FROM history WHERE channel_name='' @ sq n @ '';''"
| "render SelectChannels = ''SELECT * FROM channels;''"

text \<open>
  The texts and numbers that SQL reads as the code means them: no quote and no zero character,
  within the column, and ASCII, so that characters are bytes; numbers an \<open>integer\<close> column can hold;
  time stamps that exist.
\<close>

definition plain :: "string \<Rightarrow> bool" where
  "plain s \<longleftrightarrow> list_all (\<lambda>c. c \<noteq> CHR 0x27 \<and> c \<noteq> CHR 0x00 \<and> (of_char c :: nat) < 128) s"

definition fits :: "nat \<Rightarrow> string \<Rightarrow> bool" where
  "fits n s \<longleftrightarrow> plain s \<and> length s \<le> n"

definition leap_year :: "int \<Rightarrow> bool" where
  "leap_year y \<longleftrightarrow> y mod 4 = 0 \<and> (y mod 100 \<noteq> 0 \<or> y mod 400 = 0)"

definition month_length :: "int \<Rightarrow> int \<Rightarrow> int" where
  "month_length y m =
     (if m = 2 then if leap_year y then 29 else 28
      else if m = 4 \<or> m = 6 \<or> m = 9 \<or> m = 11 then 30 else 31)"

definition timestamp_exists :: "datetime \<Rightarrow> bool" where
  "timestamp_exists dt \<longleftrightarrow> datetime_in_range dt \<and> 1 \<le> year (dt_date dt) \<and>
     day (dt_date dt) \<le> month_length (year (dt_date dt)) (month (dt_date dt))"

definition pg_int :: "nat \<Rightarrow> bool" where
  "pg_int i \<longleftrightarrow> i < 2 ^ 31"

fun well_formed :: "sql \<Rightarrow> bool" where
  "well_formed (SelectClientId n) = plain n"
| "well_formed (SelectChannelId n) = plain n"
| "well_formed (SelectChannelName i) = pg_int i"
| "well_formed (SelectClientName i) = pg_int i"
| "well_formed (InsertClients rows) = (rows \<noteq> [] \<and> list_all (\<lambda>(l, p). fits 32 l \<and> fits 32 p) rows)"
| "well_formed (SelectAuth n) = plain n"
| "well_formed (SelectUserChannels i) = pg_int i"
| "well_formed (SelectChannelUsers i) = pg_int i"
| "well_formed (SelectChannel n) = plain n"
| "well_formed (InsertChannel n) = fits 32 n"
| "well_formed (SelectSubscription c i) = (pg_int c \<and> pg_int i)"
| "well_formed (InsertSubscription c i) = (pg_int c \<and> pg_int i)"
| "well_formed (InsertHistory c n dt m) = (pg_int c \<and> fits 32 n \<and> timestamp_exists dt \<and> fits 255 m)"
| "well_formed (SelectHistory n) = plain n"
| "well_formed SelectChannels = True"

section \<open>What a statement does\<close>

fun number_rows :: "nat \<Rightarrow> (string \<times> string) list \<Rightarrow> pg_client list" where
  "number_rows i [] = []"
| "number_rows i ((l, p) # rows) =
     \<lparr>pc_id = i, pc_login = l, pc_password = p\<rparr> # number_rows (Suc i) rows"

fun sql_rows :: "sql \<Rightarrow> pg_tables \<Rightarrow> string list list" where
  "sql_rows (SelectClientId n) t =
     map (\<lambda>r. [show_nat (pc_id r)]) (filter (\<lambda>r. pc_login r = n) (t_clients t))"
| "sql_rows (SelectChannelId n) t =
     remdups (map (\<lambda>r. [show_nat (ph_id r)]) (filter (\<lambda>r. ph_name r = n) (t_channels t)))"
| "sql_rows (SelectChannelName i) t =
     map (\<lambda>r. [ph_name r]) (filter (\<lambda>r. ph_id r = i) (t_channels t))"
| "sql_rows (SelectClientName i) t =
     map (\<lambda>r. [pc_login r]) (filter (\<lambda>r. pc_id r = i) (t_clients t))"
| "sql_rows (SelectAuth n) t =
     map (\<lambda>r. [show_nat (pc_id r), pc_password r]) (filter (\<lambda>r. pc_login r = n) (t_clients t))"
| "sql_rows (SelectUserChannels i) t =
     remdups (map (\<lambda>r. [pm_channel r]) (filter (\<lambda>r. pm_client r = i) (t_history t)))"
| "sql_rows (SelectChannelUsers i) t =
     remdups (map (\<lambda>r. [show_nat (fst r)]) (filter (\<lambda>r. snd r = i) (t_subscriptions t)))"
| "sql_rows (SelectChannel n) t =
     map (\<lambda>r. [ph_name r]) (filter (\<lambda>r. ph_name r = n) (t_channels t))"
| "sql_rows (SelectSubscription c i) t =
     map (\<lambda>r. [show_nat (fst r), show_nat (snd r)]) (filter (\<lambda>r. r = (c, i)) (t_subscriptions t))"
| "sql_rows (SelectHistory n) t =
     map (\<lambda>r. [show_nat (pm_client r), pm_channel r, format_datetime (pm_datetime r), pm_text r])
       (filter (\<lambda>r. pm_channel r = n) (t_history t))"
| "sql_rows SelectChannels t = map (\<lambda>r. [show_nat (ph_id r), ph_name r]) (t_channels t)"
| "sql_rows q t = []"

text \<open>\<open>None\<close>: nothing is relied on.\<close>

fun sql_exec :: "sql \<Rightarrow> pg_tables \<Rightarrow> (pg_status \<times> pg_tables) option" where
  "sql_exec (InsertClients rows) t =
     (if next_client t + length rows \<le> 2 ^ 31 then
        Some (PGRES_COMMAND_OK,
          t\<lparr>t_clients := t_clients t @ number_rows (next_client t) rows,
            next_client := next_client t + length rows\<rparr>)
      else None)"
| "sql_exec (InsertChannel n) t =
     (if next_channel t + 1 \<le> 2 ^ 31 then
        Some (PGRES_COMMAND_OK,
          t\<lparr>t_channels := t_channels t @ [\<lparr>ph_id = next_channel t, ph_name = n\<rparr>],
            next_channel := next_channel t + 1\<rparr>)
      else None)"
| "sql_exec (InsertSubscription c i) t =
     Some (PGRES_COMMAND_OK, t\<lparr>t_subscriptions := t_subscriptions t @ [(c, i)]\<rparr>)"
| "sql_exec (InsertHistory c n dt m) t =
     (if c \<in> pc_id ` set (t_clients t) then
        Some (PGRES_COMMAND_OK, t\<lparr>t_history := t_history t @
            [\<lparr>pm_client = c, pm_channel = n, pm_datetime = dt, pm_text = m\<rparr>]\<rparr>)
      else Some (PGRES_FATAL_ERROR, t))" \<comment> \<open>the foreign key of \<open>client_id\<close>\<close>
| "sql_exec q t = Some (PGRES_TUPLES_OK, t)"

text \<open>
  \<open>content c = Some t\<close>: the connection is up and the server behind it answers and holds the tables
  \<open>t\<close>. No order is promised for the rows of a result.
\<close>

definition postgres_documented :: "'pg libpq \<Rightarrow> ('pg \<Rightarrow> pg_tables option) \<Rightarrow> bool" where
  "postgres_documented L content \<longleftrightarrow>
     (\<forall>c t. content c = Some t \<longrightarrow> connection_ok L c) \<and>
     (\<forall>c t q st t'. content c = Some t \<longrightarrow> well_formed q \<longrightarrow> sql_exec q t = Some (st, t') \<longrightarrow>
        (\<exists>res c'. PQexec L (render q) c = (res, c') \<and> result_status res = st \<and>
           mset (tuples res) = mset (sql_rows q t) \<and> content c' = Some t'))"

section \<open>Reading a statement back\<close>

fun lit :: "string \<Rightarrow> string \<Rightarrow> string option" where
  "lit [] s = Some s"
| "lit (c # cs) [] = None"
| "lit (c # cs) (d # ds) = (if c = d then lit cs ds else None)"

definition quoted :: "string \<Rightarrow> (string \<times> string) option" where
  "quoted s =
     Option.bind (lit [CHR 0x27] s) (\<lambda>u.
     Option.bind (lit [CHR 0x27] (dropWhile (\<lambda>c. c \<noteq> CHR 0x27) u)) (\<lambda>v.
     Some (takeWhile (\<lambda>c. c \<noteq> CHR 0x27) u, v)))"

definition number :: "string \<Rightarrow> (nat \<times> string) option" where
  "number s =
     (let d = takeWhile is_digit s
      in if d = [] then None else Some (digits_value d, dropWhile is_digit s))"

definition quoted_number :: "string \<Rightarrow> (nat \<times> string) option" where
  "quoted_number s =
     Option.bind (quoted s) (\<lambda>(t, u). Option.bind (number t) (\<lambda>(n, v).
     if v = [] then Some (n, u) else None))"

definition datetime_fields :: "tm \<Rightarrow> datetime" where
  "datetime_fields t =
     \<lparr>dt_time = \<lparr>hours = tm_hour t, minutes = tm_min t, seconds = tm_sec t\<rparr>,
      dt_date = \<lparr>day = tm_mday t, month = tm_mon t + 1, year = tm_year t + 1900\<rparr>\<rparr>"

definition quoted_stamp :: "string \<Rightarrow> (datetime \<times> string) option" where
  "quoted_stamp s =
     map_option (\<lambda>(t, u). (datetime_fields (get_time t
       \<lparr>tm_year = 0, tm_mon = 0, tm_mday = 0, tm_hour = 0, tm_min = 0, tm_sec = 0\<rparr>), u)) (quoted s)"

definition stmt1 ::
  "string \<Rightarrow> (string \<Rightarrow> ('a \<times> string) option) \<Rightarrow> string \<Rightarrow> ('a \<Rightarrow> sql) \<Rightarrow> string \<Rightarrow> sql option" where
  "stmt1 before hole after C s =
     Option.bind (lit before s) (\<lambda>s. Option.bind (hole s) (\<lambda>(x, s).
     if s = after then Some (C x) else None))"

definition pair_of ::
  "(string \<Rightarrow> ('a \<times> string) option) \<Rightarrow> string \<Rightarrow> (string \<Rightarrow> ('b \<times> string) option) \<Rightarrow>
   string \<Rightarrow> (('a \<times> 'b) \<times> string) option" where
  "pair_of hole between hole' s =
     Option.bind (hole s) (\<lambda>(x, s). Option.bind (lit between s) (\<lambda>s.
     Option.bind (hole' s) (\<lambda>(y, s). Some ((x, y), s))))"

definition client_row :: "string \<Rightarrow> ((string \<times> string) \<times> string) option" where
  "client_row s =
     Option.bind (lit ''('' s) (\<lambda>s. Option.bind (pair_of quoted '', '' quoted s) (\<lambda>(r, s).
     map_option (\<lambda>s. (r, s)) (lit '')'' s)))"

fun read_client_rows :: "nat \<Rightarrow> string \<Rightarrow> ((string \<times> string) list \<times> string) option" where
  "read_client_rows 0 s = None"
| "read_client_rows (Suc fuel) s =
     Option.bind (client_row s) (\<lambda>(r, s).
     case lit '', '' s of
       None \<Rightarrow> Some ([r], s)
     | Some s \<Rightarrow> map_option (\<lambda>(rs, s). (r # rs, s)) (read_client_rows fuel s))"

fun first_some :: "('a \<Rightarrow> 'b option) list \<Rightarrow> 'a \<Rightarrow> 'b option" where
  "first_some [] s = None"
| "first_some (p # ps) s = (case p s of None \<Rightarrow> first_some ps s | Some x \<Rightarrow> Some x)"

definition parse_sql :: "string \<Rightarrow> sql option" where
  "parse_sql s = first_some
    [stmt1 ''SELECT id FROM clients WHERE login='' quoted '';'' SelectClientId,
     stmt1 ''SELECT DISTINCT id FROM channels WHERE channel_name='' quoted '';'' SelectChannelId,
     stmt1 ''SELECT channel_name FROM channels WHERE id='' quoted_number '';'' SelectChannelName,
     stmt1 ''SELECT login FROM clients WHERE id='' quoted_number '';'' SelectClientName,
     stmt1 ''INSERT INTO clients(login, password) VALUES '' (read_client_rows (length s)) '';''
       InsertClients,
     stmt1 ''SELECT id, password FROM clients WHERE login='' quoted '';'' SelectAuth,
     stmt1 ''SELECT DISTINCT channel_name FROM history WHERE client_id='' number '';''
       SelectUserChannels,
     stmt1 ''SELECT DISTINCT client_id FROM subscriptions WHERE channel_id='' number '';''
       SelectChannelUsers,
     stmt1 ''SELECT channel_name FROM channels WHERE channel_name='' quoted '';'' SelectChannel,
     stmt1 ''INSERT INTO channels(channel_name) VALUES ('' quoted '');'' InsertChannel,
     stmt1 ''SELECT * FROM subscriptions WHERE client_id=''
       (pair_of quoted_number '' AND channel_id='' quoted_number) '';''
       (\<lambda>(c, i). SelectSubscription c i),
     stmt1 ''INSERT INTO subscriptions VALUES('' (pair_of number '', '' number) '');''
       (\<lambda>(c, i). InsertSubscription c i),
     stmt1 ''insert into history(client_id, channel_name, datetime, message) values (''
       (pair_of number '', '' (pair_of quoted '', '' (pair_of quoted_stamp '', '' quoted))) '');''
       (\<lambda>(c, n, dt, m). InsertHistory c n dt m),
     stmt1 ''SELECT * FROM history WHERE channel_name='' quoted '';'' SelectHistory,
     stmt1 ''SELECT * FROM channels;'' (\<lambda>s. Some ((), s)) [] (\<lambda>_. SelectChannels)] s"

lemma plain_no_quote: "plain n \<Longrightarrow> CHR 0x27 \<notin> set n"
  by (auto simp: plain_def list_all_iff)

lemma lit_append [simp]: "lit xs (xs @ s) = Some s"
  by (induction xs) simp_all

lemma quoted_sq [simp]: "CHR 0x27 \<notin> set n \<Longrightarrow> quoted (sq n @ s) = Some (n, s)"
proof -
  assume "CHR 0x27 \<notin> set n"
  then have "\<forall>c \<in> set n. c \<noteq> CHR 0x27" by metis
  then show ?thesis by (simp add: quoted_def sq_def takeWhile_append2 dropWhile_append2)
qed

lemma number_show [simp]:
  "s = [] \<or> \<not> is_digit (hd s) \<Longrightarrow> number (show_nat i @ s) = Some (i, s)"
  by (simp add: number_def takeWhile_show)

lemma show_nat_no_quote [simp]: "CHR 0x27 \<notin> set (show_nat i)"
  using show_nat_digits [of "CHR 0x27" i] by (auto simp: is_digit_def)

lemma quoted_number_show [simp]: "quoted_number (sq (show_nat i) @ s) = Some (i, s)"
  using number_show [of "[]" i] by (simp add: quoted_number_def)

lemma format_no_quote:
  assumes "datetime_in_range dt"
  shows "CHR 0x27 \<notin> set (format_datetime dt)"
  using assms by (simp add: format_datetime_def datetime_in_range_def show_int_def pad_def)

lemma quoted_stamp_format [simp]:
  assumes "datetime_in_range dt"
  shows "quoted_stamp (sq (format_datetime dt) @ s) = Some (dt, s)"
  using assms by (simp add: quoted_stamp_def format_no_quote get_time_format datetime_fields_def tm_of_def)

lemma client_row_render [simp]:
  assumes "CHR 0x27 \<notin> set l" and "CHR 0x27 \<notin> set p"
  shows "client_row (CHR ''('' # sq l @ CHR '','' # CHR '' '' # sq p @ CHR '')'' # s) = Some ((l, p), s)"
  using assms by (simp add: client_row_def pair_of_def)

lemma read_client_rows_render:
  assumes "rows \<noteq> []" and "\<forall>(l, p) \<in> set rows. CHR 0x27 \<notin> set l \<and> CHR 0x27 \<notin> set p"
    and "length rows \<le> fuel" and "lit '', '' s = None"
  shows "read_client_rows fuel (client_rows rows @ s) = Some (rows, s)"
  using assms
proof (induction rows arbitrary: fuel rule: client_rows.induct)
  case (2 l p)
  then show ?case by (cases fuel) simp_all
next
  case (3 l p r rows)
  then obtain f where f: "fuel = Suc f" "length (r # rows) \<le> f" by (cases fuel) auto
  have "read_client_rows f (client_rows (r # rows) @ s) = Some (r # rows, s)"
    using 3 f by (intro "3.IH") auto
  then show ?case using "3.prems" f by simp
qed simp

lemma client_rows_length: "length rows \<le> length (client_rows rows)"
  by (induction rows rule: client_rows.induct) (simp_all add: sq_def)

lemma parse_render:
  assumes "well_formed q"
  shows "parse_sql (render q) = Some q"
proof (cases q)
  case (InsertClients rows)
  have "rows \<noteq> []" and quotes: "\<forall>(l, p) \<in> set rows. CHR 0x27 \<notin> set l \<and> CHR 0x27 \<notin> set p"
    using assms InsertClients by (auto simp: list_all_iff fits_def plain_no_quote)
  then have "read_client_rows fuel (client_rows rows @ '';'') = Some (rows, '';'')"
    if "length rows \<le> fuel" for fuel
    using that by (intro read_client_rows_render) simp_all
  then show ?thesis
    using client_rows_length [of rows] unfolding InsertClients parse_sql_def
    by (simp add: stmt1_def del: client_rows.simps read_client_rows.simps)
qed (use assms in \<open>simp_all add: parse_sql_def stmt1_def pair_of_def plain_no_quote fits_def is_digit_def
    timestamp_exists_def\<close>)

section \<open>A small server\<close>

definition mini_exec :: "string \<Rightarrow> pg_tables \<Rightarrow> pg_result \<times> pg_tables" where
  "mini_exec s t =
     (case Option.bind (parse_sql s) (\<lambda>q. map_option (\<lambda>r. (q, r)) (sql_exec q t)) of
        None \<Rightarrow> (\<lparr>result_status = PGRES_FATAL_ERROR, tuples = []\<rparr>, t)
      | Some (q, st, t') \<Rightarrow> (\<lparr>result_status = st, tuples = sql_rows q t\<rparr>, t'))"

definition mini :: "pg_tables libpq" where
  "mini = \<lparr>PQconnectdb = (\<lambda>_. empty_tables), connection_ok = (\<lambda>_. True), PQexec = mini_exec\<rparr>"

lemma mini_documented: "postgres_documented mini Some"
  by (simp add: postgres_documented_def mini_def mini_exec_def parse_render)

section \<open>Properties\<close>

text \<open>The statements the code sends do not run into each other: two statements over texts
  without quotes and numbers of a column's width that are rendered to the same text are the same
  statement with the same arguments.\<close>

theorem statements_unambiguous:
  assumes "well_formed q" and "well_formed q'" and "render q = render q'"
  shows "q = q'"
  using assms parse_render by (metis option.inject)

lemma statements_unambiguous_witness:
  "render (SelectClientId ''ann'') \<noteq> render (SelectAuth ''ann'')"
  using statements_unambiguous [of "SelectClientId ''ann''" "SelectAuth ''ann''"]
  by (auto simp: plain_def simp del: render.simps)

end
