(* ===== verification/Pg_Contracts.thy ===== *)
theory Pg_Contracts
  imports Postgres
begin

text \<open>
  What \<open>WrapperPg\<close> promises when the server behind it does what \<open>postgres_documented\<close> says: its
  member functions as operations on the tables, the invariant of the tables, the contracts of
  theory \<open>Database\<close>, and what happens outside them: quotes in a text, a wrapper that never
  connected, a subscription.
\<close>

section \<open>Queries and their answers\<close>

definition holds :: "('pg \<Rightarrow> pg_tables option) \<Rightarrow> pg_tables \<Rightarrow> 'pg wrapper \<Rightarrow> bool" where
  "holds content t w \<longleftrightarrow> isConnected w \<and> (\<exists>c. connection w = Some c \<and> content c = Some t)"

lemma c_str_plain: "list_all (\<lambda>c. c \<noteq> CHR 0x00) s \<Longrightarrow> c_str s = s"
  by (simp add: c_str_def takeWhile_eq_all_conv list_all_iff)

lemma show_nat_no_nul [simp]: "list_all (\<lambda>c. c \<noteq> CHR 0x00) (show_nat i)"
  using show_nat_digits [of _ i] by (fastforce simp: list_all_iff is_digit_def)

lemma plain_no_nul [simp]: "plain n \<Longrightarrow> list_all (\<lambda>c. c \<noteq> CHR 0x00) n"
  by (auto simp: plain_def list_all_iff)

lemma sq_no_nul [simp]:
  "list_all (\<lambda>c. c \<noteq> CHR 0x00) (sq n) = list_all (\<lambda>c. c \<noteq> CHR 0x00) n"
  by (simp add: sq_def)

lemma format_no_nul [simp]:
  "datetime_in_range dt \<Longrightarrow> list_all (\<lambda>c. c \<noteq> CHR 0x00) (format_datetime dt)"
  by (simp add: format_datetime_def datetime_in_range_def show_int_def pad_def list_all_iff [of _ "replicate _ _"])

lemma client_rows_no_nul:
  "list_all (\<lambda>(l, p). fits 32 l \<and> fits 32 p) rows \<Longrightarrow>
   list_all (\<lambda>c. c \<noteq> CHR 0x00) (client_rows rows)"
  by (induction rows rule: client_rows.induct) (simp_all add: fits_def)

lemma render_no_nul: "well_formed q \<Longrightarrow> list_all (\<lambda>c. c \<noteq> CHR 0x00) (render q)"
  by (cases q) (simp_all add: fits_def timestamp_exists_def client_rows_no_nul)

lemma exec_answer:
  assumes "postgres_documented L content" and "holds content t w" and "well_formed q"
    and "sql_exec q t = Some (st, t')"
  obtains res w' where "exec_query L (render q) w = (Inr res, w')" and "result_status res = st"
    and "mset (tuples res) = mset (sql_rows q t)" and "holds content t' w'"
proof -
  obtain c where c: "connection w = Some c" "content c = Some t" "isConnected w"
    using assms(2) by (auto simp: holds_def)
  obtain res c' where "PQexec L (render q) c = (res, c')" "result_status res = st"
    "mset (tuples res) = mset (sql_rows q t)" "content c' = Some t'"
    using assms(1,3,4) c(2) unfolding postgres_documented_def by blast
  then show thesis
    using that [of res "w\<lparr>connection := Some c'\<rparr>"] c c_str_plain [OF render_no_nul [OF assms(3)]]
    by (simp add: exec_query_def holds_def)
qed

text \<open>A result with at most one row is the same list whatever the order.\<close>

lemma one_row: "mset xs = mset ys \<Longrightarrow> length ys \<le> 1 \<Longrightarrow> xs = ys"
  by (cases ys) auto

section \<open>Calls as operations on the tables\<close>

text \<open>
  \<open>gives content t m Q t'\<close>: on a connection that holds \<open>t\<close>, \<open>m\<close> returns a value of which \<open>Q\<close> is true
  and leaves \<open>t'\<close>.
\<close>

definition gives ::
  "('pg \<Rightarrow> pg_tables option) \<Rightarrow> pg_tables \<Rightarrow> ('pg wrapper, 'a) eff \<Rightarrow> ('a \<Rightarrow> bool) \<Rightarrow> pg_tables \<Rightarrow> bool"
  where
  "gives content t m Q t' \<longleftrightarrow>
     (\<forall>w. holds content t w \<longrightarrow> (\<exists>x w'. m w = (Inr x, w') \<and> Q x \<and> holds content t' w'))"

lemma gives_run:
  assumes "gives content t m Q t'" and "holds content t w"
  obtains x w' where "m w = (Inr x, w')" and "Q x" and "holds content t' w'"
  using assms unfolding gives_def by blast

lemma gives_exec:
  assumes "postgres_documented L content" and "well_formed q" and "sql_exec q t = Some (st, t')"
  shows "gives content t (exec_query L (render q))
    (\<lambda>res. result_status res = st \<and> mset (tuples res) = mset (sql_rows q t)) t'"
  unfolding gives_def using exec_answer [OF assms(1) _ assms(2,3)] by metis

lemma gives_return: "Q x \<Longrightarrow> gives content t (eff_return x) Q t"
  by (simp add: gives_def)

lemma gives_return_run: "Q x \<Longrightarrow> gives content t (Pair (Inr x)) Q t"
  by (simp add: gives_def)

lemma gives_bind:
  assumes "gives content t m Q t'" and "\<And>x. Q x \<Longrightarrow> gives content t' (f x) R t''"
  shows "gives content t (eff_bind m f) R t''"
  using assms unfolding gives_def by (metis eff_bind_run(2))

lemma gives_weaken: "gives content t m Q t' \<Longrightarrow> (\<And>x. Q x \<Longrightarrow> R x) \<Longrightarrow> gives content t m R t'"
  unfolding gives_def by metis

lemma gives_connected:
  "gives content t (f True) Q t' \<Longrightarrow> gives content t (eff_bind (eff_gets isConnected) f) Q t'"
  by (simp add: gives_def holds_def)

lemma PQgetvalue_in [simp]:
  "i < length (tuples res) \<Longrightarrow> j < length (tuples res ! i) \<Longrightarrow>
   PQgetvalue res i j = eff_return (tuples res ! i ! j)"
  by (simp add: PQgetvalue_def)

lemma value_id_in [simp]:
  "i < length (tuples res) \<Longrightarrow> j < length (tuples res ! i) \<Longrightarrow> tuples res ! i ! j = show_nat n \<Longrightarrow>
   pg_int n \<Longrightarrow> value_id res i j = eff_return (word_of_nat n)"
  by (simp add: value_id_def stoi_id_def stoi_show pg_int_def eff_bind_def fun_eq_iff)

lemma gives_map:
  assumes "\<And>x. x \<in> set xs \<Longrightarrow> gives content t (f x) (\<lambda>y. y = g x) t"
  shows "gives content t (eff_map f xs) (\<lambda>ys. ys = map g xs) t"
  using assms
proof (induction xs)
  case (Cons x xs)
  then show ?case by (auto intro!: gives_bind [where Q = "\<lambda>y. y = _"] gives_return)
qed (simp add: gives_return)

lemma gives_map_rows:
  assumes "\<And>i. i < length (tuples res) \<Longrightarrow> gives content t (f i) (\<lambda>y. y = g (tuples res ! i)) t"
  shows "gives content t (eff_map f [0..<PQntuples res]) (\<lambda>ys. ys = map g (tuples res)) t"
proof (rule gives_weaken [OF gives_map [where g = "\<lambda>i. g (tuples res ! i)"]])
  show "gives content t (f i) (\<lambda>y. y = g (tuples res ! i)) t" if "i \<in> set [0..<PQntuples res]" for i
    using that assms by (simp add: PQntuples_def)
  show "ys = map g (tuples res)" if "ys = map (\<lambda>i. g (tuples res ! i)) [0..<PQntuples res]" for ys
    unfolding that PQntuples_def by (rule nth_equalityI) simp_all
qed

section \<open>The invariant of the tables\<close>

definition tables_ok :: "pg_tables \<Rightarrow> bool" where
  "tables_ok t \<longleftrightarrow>
     0 < next_client t \<and> next_client t \<le> 2 ^ 31 \<and> 0 < next_channel t \<and> next_channel t \<le> 2 ^ 31 \<and>
     (\<forall>r \<in> set (t_clients t). 0 < pc_id r \<and> pc_id r < next_client t) \<and>
     (\<forall>r \<in> set (t_channels t). 0 < ph_id r \<and> ph_id r < next_channel t \<and> fits 32 (ph_name r) \<and>
        ph_name r \<noteq> []) \<and>
     distinct (map pc_id (t_clients t)) \<and> distinct (map pc_login (t_clients t)) \<and>
     distinct (map ph_id (t_channels t)) \<and> distinct (map ph_name (t_channels t)) \<and>
     (\<forall>(c, i) \<in> set (t_subscriptions t). pg_int c \<and> pg_int i) \<and>
     (\<forall>r \<in> set (t_history t). pm_client r \<in> pc_id ` set (t_clients t) \<and>
        pm_channel r \<in> ph_name ` set (t_channels t) \<and> timestamp_exists (pm_datetime r))"

definition client_named :: "pg_tables \<Rightarrow> string \<Rightarrow> pg_client option" where
  "client_named t n = find (\<lambda>r. pc_login r = n) (t_clients t)"

definition channel_named :: "pg_tables \<Rightarrow> string \<Rightarrow> pg_channel option" where
  "channel_named t n = find (\<lambda>r. ph_name r = n) (t_channels t)"

lemma filter_key:
  "distinct (map k xs) \<Longrightarrow>
   filter (\<lambda>x. k x = a) xs = (case find (\<lambda>x. k x = a) xs of None \<Rightarrow> [] | Some x \<Rightarrow> [x])"
  by (induction xs) (force simp: filter_empty_conv image_iff find_Some_iff split: option.split)+

lemma find_key:
  "find (\<lambda>x. k x = a) xs = Some x \<Longrightarrow> x \<in> set xs \<and> k x = a"
  by (auto simp: find_Some_iff)

lemma find_append:
  "find P (xs @ ys) = (case find P xs of None \<Rightarrow> find P ys | Some x \<Rightarrow> Some x)"
  by (induction xs) simp_all

lemma client_named_in:
  "client_named t n = Some r \<Longrightarrow> r \<in> set (t_clients t) \<and> pc_login r = n"
  unfolding client_named_def by (rule find_key)

lemma channel_named_in:
  "channel_named t n = Some r \<Longrightarrow> r \<in> set (t_channels t) \<and> ph_name r = n"
  unfolding channel_named_def by (rule find_key)

section \<open>Operations\<close>

text \<open>A select that finds at most one row, and the rows the keyed selects find.\<close>

lemma gives_one:
  assumes "postgres_documented L content" and "well_formed q"
    and "sql_exec q t = Some (PGRES_TUPLES_OK, t)" and "length (sql_rows q t) \<le> 1"
  shows "gives content t (execThreadSafe L (render q))
    (\<lambda>res. res = \<lparr>result_status = PGRES_TUPLES_OK, tuples = sql_rows q t\<rparr>) t"
  unfolding execThreadSafe_def
  by (rule gives_weaken [OF gives_exec [OF assms(1-3)]]) (use one_row [OF _ assms(4)] in auto)

lemma keyed_rows:
  assumes "tables_ok t"
  shows "sql_rows (SelectClientId n) t =
      (case client_named t n of None \<Rightarrow> [] | Some r \<Rightarrow> [[show_nat (pc_id r)]])"
    and "sql_rows (SelectAuth n) t =
      (case client_named t n of None \<Rightarrow> [] | Some r \<Rightarrow> [[show_nat (pc_id r), pc_password r]])"
    and "sql_rows (SelectChannelId n) t =
      (case channel_named t n of None \<Rightarrow> [] | Some r \<Rightarrow> [[show_nat (ph_id r)]])"
    and "sql_rows (SelectChannel n) t = (case channel_named t n of None \<Rightarrow> [] | Some r \<Rightarrow> [[n]])"
    and "sql_rows (SelectChannelName i) t =
      (case find (\<lambda>r. ph_id r = i) (t_channels t) of None \<Rightarrow> [] | Some r \<Rightarrow> [[ph_name r]])"
    and "sql_rows (SelectClientName i) t =
      (case find (\<lambda>r. pc_id r = i) (t_clients t) of None \<Rightarrow> [] | Some r \<Rightarrow> [[pc_login r]])"
  using assms channel_named_in [of t n]
  by (simp_all add: tables_ok_def client_named_def channel_named_def filter_key split: option.split)

declare sql_rows.simps(1-5,8) [simp del]

definition client_id_of :: "pg_tables \<Rightarrow> string \<Rightarrow> type_id_user" where
  "client_id_of t n = (case client_named t n of None \<Rightarrow> 0 | Some r \<Rightarrow> word_of_nat (pc_id r))"

definition channel_id_of :: "pg_tables \<Rightarrow> string \<Rightarrow> type_id_user" where
  "channel_id_of t n = (case channel_named t n of None \<Rightarrow> 0 | Some r \<Rightarrow> word_of_nat (ph_id r))"

lemma ids_pg_int:
  assumes "tables_ok t"
  shows "r \<in> set (t_clients t) \<Longrightarrow> pg_int (pc_id r) \<and> 0 < pc_id r"
    and "c \<in> set (t_channels t) \<Longrightarrow> pg_int (ph_id c) \<and> 0 < ph_id c"
  using assms by (auto simp: tables_ok_def pg_int_def)

lemma word_pg_int: "pg_int i \<Longrightarrow> unat (word_of_nat i :: u64) = i"
  by (rule of_nat_inverse [OF refl]) (simp add: pg_int_def)

lemma word_pg_int_0 [simp]: "pg_int i \<Longrightarrow> (word_of_nat i :: u64) = 0 \<longleftrightarrow> i = 0"
  using word_pg_int [of i] by (cases "i = 0") auto

lemma word_pg_int_eq: "pg_int i \<Longrightarrow> pg_int j \<Longrightarrow> (word_of_nat i :: u64) = word_of_nat j \<longleftrightarrow> i = j"
  using word_pg_int by metis

lemma getClientId_gives:
  assumes "postgres_documented L content" and "tables_ok t" and "plain n"
  shows "gives content t (WrapperPg_getClientId L n) (\<lambda>i. i = client_id_of t n) t"
  unfolding WrapperPg_getClientId_def render.simps(1) [symmetric]
  by (rule gives_connected, simp only: if_True, rule gives_bind [OF gives_one [OF assms(1)]])
    (use assms(2,3) ids_pg_int [OF assms(2)] client_named_in [of t n] in
      \<open>auto simp: keyed_rows PQntuples_def client_id_of_def gives_return
        split: option.splits\<close>)

lemma getChannelId_gives:
  assumes "postgres_documented L content" and "tables_ok t" and "plain n"
  shows "gives content t (WrapperPg_getChannelId L n) (\<lambda>i. i = channel_id_of t n) t"
  unfolding WrapperPg_getChannelId_def render.simps(2) [symmetric]
  by (rule gives_connected, simp only: simp_thms if_False, rule gives_bind [OF gives_one [OF assms(1)]])
    (use assms(2,3) ids_pg_int [OF assms(2)] channel_named_in [of t n] in
      \<open>auto simp: keyed_rows PQntuples_def channel_id_of_def gives_return
        split: option.splits\<close>)

lemma checkAuthUser_gives:
  assumes "postgres_documented L content" and "tables_ok t" and "plain (clientName s)"
  shows "gives content t (WrapperPg_checkAuthUser L s)
    (\<lambda>i. i = (case client_named t (clientName s) of
               None \<Rightarrow> 0
             | Some r \<Rightarrow> if pc_password r = clientPassword s then word_of_nat (pc_id r) else 0)) t"
  unfolding WrapperPg_checkAuthUser_def render.simps(6) [symmetric]
  by (rule gives_connected, simp only: simp_thms if_False, rule gives_bind [OF gives_one [OF assms(1)]])
    (use assms(2,3) ids_pg_int [OF assms(2)] client_named_in [of t "clientName s"] in
      \<open>auto simp: keyed_rows PQntuples_def gives_return
        split: option.splits\<close>)

lemma hasChannel_gives:
  assumes "postgres_documented L content" and "tables_ok t" and "plain n"
  shows "gives content t (WrapperPg_hasChannel L n) (\<lambda>b. b = (channel_named t n \<noteq> None)) t"
  unfolding WrapperPg_hasChannel_def render.simps(9) [symmetric]
  by (rule gives_connected, simp only: simp_thms if_False, rule gives_bind [OF gives_one [OF assms(1)]])
    (use assms(2,3) in \<open>auto simp: keyed_rows PQntuples_def gives_return split: option.splits\<close>)

lemma getChannelName_gives:
  assumes "postgres_documented L content" and "tables_ok t" and "pg_int (unat i)"
  shows "gives content t (WrapperPg_getChannelName L i)
    (\<lambda>n. n = (case find (\<lambda>r. ph_id r = unat i) (t_channels t) of None \<Rightarrow> [] | Some r \<Rightarrow> ph_name r)) t"
  unfolding WrapperPg_getChannelName_def to_string_def render.simps(3) [symmetric]
  by (rule gives_connected, simp only: if_True, rule gives_bind [OF gives_one [OF assms(1)]])
    (use assms(2,3) in \<open>auto simp: keyed_rows PQntuples_def gives_return
        split: option.splits\<close>)

lemma getClientName_gives:
  assumes "postgres_documented L content" and "tables_ok t" and "pg_int (unat i)"
  shows "gives content t (WrapperPg_getClientName L i)
    (\<lambda>n. n = (case find (\<lambda>r. pc_id r = unat i) (t_clients t) of None \<Rightarrow> [] | Some r \<Rightarrow> pc_login r)) t"
  unfolding WrapperPg_getClientName_def to_string_def render.simps(4) [symmetric]
  by (rule gives_connected, simp only: simp_thms if_False, rule gives_bind [OF gives_one [OF assms(1)]])
    (use assms(2,3) in \<open>auto simp: keyed_rows PQntuples_def gives_return
        split: option.splits\<close>)

section \<open>Insertions\<close>

definition with_clients :: "(string \<times> string) list \<Rightarrow> pg_tables \<Rightarrow> pg_tables" where
  "with_clients rows t =
     t\<lparr>t_clients := t_clients t @ number_rows (next_client t) rows,
       next_client := next_client t + length rows\<rparr>"

definition with_channel :: "string \<Rightarrow> pg_tables \<Rightarrow> pg_tables" where
  "with_channel n t =
     t\<lparr>t_channels := t_channels t @ [\<lparr>ph_id = next_channel t, ph_name = n\<rparr>],
       next_channel := next_channel t + 1\<rparr>"

definition with_message :: "nat \<Rightarrow> text_msg \<Rightarrow> pg_tables \<Rightarrow> pg_tables" where
  "with_message c m t =
     t\<lparr>t_history := t_history t @ [\<lparr>pm_client = c, pm_channel = msg_channel_name m,
         pm_datetime = msg_dt m, pm_text = msg_text m\<rparr>]\<rparr>"

lemma client_named_with [simp]:
  "client_named (with_clients [(l, p)] t) n =
     (case client_named t n of
        Some r \<Rightarrow> Some r
      | None \<Rightarrow> if n = l then Some \<lparr>pc_id = next_client t, pc_login = l, pc_password = p\<rparr> else None)"
  by (auto simp: client_named_def with_clients_def find_append split: option.split)

lemma channel_named_with [simp]:
  "channel_named (with_channel l t) n =
     (case channel_named t n of
        Some r \<Rightarrow> Some r
      | None \<Rightarrow> if n = l then Some \<lparr>ph_id = next_channel t, ph_name = l\<rparr> else None)"
  by (auto simp: channel_named_def with_channel_def find_append split: option.split)

lemma client_named_None: "client_named t n = None \<longleftrightarrow> n \<notin> pc_login ` set (t_clients t)"
  by (auto simp: client_named_def find_None_iff)

lemma channel_named_None: "channel_named t n = None \<longleftrightarrow> n \<notin> ph_name ` set (t_channels t)"
  by (auto simp: channel_named_def find_None_iff)

lemma tables_ok_client:
  assumes "tables_ok t" and "client_named t l = None" and "next_client t < 2 ^ 31"
  shows "tables_ok (with_clients [(l, p)] t)"
  using assms by (auto simp: tables_ok_def with_clients_def client_named_None less_Suc_eq)

lemma tables_ok_channel:
  assumes "tables_ok t" and "channel_named t n = None" and "next_channel t < 2 ^ 31"
    and "fits 32 n" and "n \<noteq> []"
  shows "tables_ok (with_channel n t)"
  using assms by (auto simp: tables_ok_def with_channel_def channel_named_None less_Suc_eq)

lemma tables_ok_message:
  assumes "tables_ok t" and "c \<in> pc_id ` set (t_clients t)"
    and "channel_named t (msg_channel_name m) \<noteq> None" and "timestamp_exists (msg_dt m)"
  shows "tables_ok (with_message c m t)"
  using assms by (auto simp: tables_ok_def with_message_def channel_named_None)

lemma insertClients_gives:
  assumes "postgres_documented L content" and "well_formed (InsertClients rows)"
    and "next_client t + length rows \<le> 2 ^ 31"
  shows "gives content t (execThreadSafe L (render (InsertClients rows))) (\<lambda>_. True)
    (with_clients rows t)"
  unfolding execThreadSafe_def
  by (rule gives_weaken [OF gives_exec [OF assms(1,2)]]) (use assms(3) in \<open>auto simp: with_clients_def\<close>)

lemma render_client:
  "''INSERT INTO clients(login, password) VALUES ('' @ sq l @ '', '' @ sq p @ '');'' =
   render (InsertClients [(l, p)])"
  by simp

lemma checkRegUser_stores:
  assumes "postgres_documented L content" and "tables_ok t" and "plain (clientName s)"
    and "client_named t (clientName s) = None" and "tables_ok t'"
    and insert: "gives content t (execThreadSafe L (''INSERT INTO clients(login, password) VALUES ('' @
      sq (clientName s) @ '', '' @ sq (clientPassword s) @ '');'')) (\<lambda>_. True) t'"
  shows "gives content t (WrapperPg_checkRegUser L s) (\<lambda>i. i = client_id_of t' (clientName s)) t'"
proof -
  have none: "client_id_of t (clientName s) = 0" using assms(4) by (simp add: client_id_of_def)
  show ?thesis
    unfolding WrapperPg_checkRegUser_def
    by (rule gives_connected, simp only: simp_thms if_False,
        rule gives_bind [OF getClientId_gives [OF assms(1-3)]], simp add: none del: append.simps,
        rule gives_bind [OF insert])
      (rule getClientId_gives [OF assms(1,5,3)])
qed

lemma checkRegUser_fresh:
  assumes "postgres_documented L content" and "tables_ok t" and "next_client t < 2 ^ 31"
    and "fits 32 (clientName s)" and "fits 32 (clientPassword s)" and "client_named t (clientName s) = None"
  shows "gives content t (WrapperPg_checkRegUser L s) (\<lambda>i. i = word_of_nat (next_client t))
    (with_clients [(clientName s, clientPassword s)] t)"
proof -
  let ?t = "with_clients [(clientName s, clientPassword s)] t"
  have plain: "plain (clientName s)" using assms(4) by (simp add: fits_def)
  have "gives content t
      (execThreadSafe L (render (InsertClients [(clientName s, clientPassword s)]))) (\<lambda>_. True) ?t"
    by (rule insertClients_gives [OF assms(1)]) (use assms(3-5) in simp_all)
  from checkRegUser_stores [OF assms(1,2) plain assms(6) tables_ok_client [OF assms(2,6,3)]
      this [folded render_client]]
  show ?thesis by (rule gives_weaken) (simp add: client_id_of_def assms(6))
qed

lemma checkRegUser_busy:
  assumes "postgres_documented L content" and "tables_ok t" and "plain (clientName s)"
    and "client_named t (clientName s) = Some r"
  shows "gives content t (WrapperPg_checkRegUser L s) (\<lambda>i. i = 0) t"
proof -
  have "client_id_of t (clientName s) \<noteq> 0"
    using assms(4) ids_pg_int(1) [OF assms(2)] client_named_in [OF assms(4)] by (simp add: client_id_of_def)
  then show ?thesis
    unfolding WrapperPg_checkRegUser_def
    by (intro gives_connected, simp only: simp_thms if_False)
      (rule gives_bind [OF getClientId_gives [OF assms(1-3)]], simp add: gives_return)
qed

lemma createChannel_fresh:
  assumes "postgres_documented L content" and "tables_ok t" and "next_channel t < 2 ^ 31"
    and "fits 32 n" and "n \<noteq> []" and "channel_named t n = None"
  shows "gives content t (WrapperPg_createChannel L n) (\<lambda>i. i = word_of_nat (next_channel t))
    (with_channel n t)"
proof -
  have plain: "plain n" using assms(4) by (simp add: fits_def)
  have ok: "tables_ok (with_channel n t)" by (rule tables_ok_channel [OF assms(2,6,3-5)])
  have none: "channel_id_of t n = 0" using assms(6) by (simp add: channel_id_of_def)
  have some: "channel_id_of (with_channel n t) n = word_of_nat (next_channel t)"
    using assms(6) by (simp add: channel_id_of_def)
  have insert: "gives content t (execThreadSafe L (render (InsertChannel n))) (\<lambda>_. True) (with_channel n t)"
    unfolding execThreadSafe_def
    by (rule gives_weaken [OF gives_exec [OF assms(1)]])
      (use assms(3,4) in \<open>auto simp: with_channel_def\<close>)
  show ?thesis
    unfolding WrapperPg_createChannel_def render.simps(10) [symmetric]
    by (rule gives_connected, simp only: simp_thms if_False,
        rule gives_bind [OF getChannelId_gives [OF assms(1,2) plain]],
        simp add: none del: render.simps, rule gives_bind [OF insert])
      (use getChannelId_gives [OF assms(1) ok plain] some in simp)
qed

lemma createChannel_known:
  assumes "postgres_documented L content" and "tables_ok t" and "plain n"
    and "channel_named t n = Some r"
  shows "gives content t (WrapperPg_createChannel L n) (\<lambda>i. i = word_of_nat (ph_id r)) t"
proof -
  have "word_of_nat (ph_id r) \<noteq> (0 :: type_id_user)" "channel_id_of t n = word_of_nat (ph_id r)"
    using assms(4) ids_pg_int(2) [OF assms(2)] channel_named_in [OF assms(4)]
    by (simp_all add: channel_id_of_def)
  then show ?thesis
    unfolding WrapperPg_createChannel_def
    by (intro gives_connected, simp only: simp_thms if_False)
      (rule gives_bind [OF getChannelId_gives [OF assms(1-3)]], simp add: gives_return)
qed

section \<open>The account and channel contracts\<close>

definition pg_same :: "('pg \<Rightarrow> pg_tables option) \<Rightarrow> 'pg wrapper \<Rightarrow> 'pg wrapper \<Rightarrow> bool" where
  "pg_same content w w' \<longleftrightarrow> (\<forall>t. holds content t w \<longrightarrow> holds content t w')"

definition tables_of :: "('pg \<Rightarrow> pg_tables option) \<Rightarrow> 'pg wrapper \<Rightarrow> pg_tables" where
  "tables_of content w =
     (case Option.bind (connection w) content of None \<Rightarrow> empty_tables | Some t \<Rightarrow> t)"

definition pg_ok :: "('pg \<Rightarrow> pg_tables option) \<Rightarrow> 'pg wrapper \<Rightarrow> bool" where
  "pg_ok content w \<longleftrightarrow> (\<exists>t. holds content t w \<and> tables_ok t)"

lemma holds_tables_of: "holds content t w \<Longrightarrow> tables_of content w = t"
  by (auto simp: holds_def tables_of_def)

lemma pg_okE:
  assumes "pg_ok content w"
  obtains "holds content (tables_of content w) w" and "tables_ok (tables_of content w)"
proof -
  from assms obtain t where t: "holds content t w" "tables_ok t" unfolding pg_ok_def by blast
  then have "tables_of content w = t" by (simp only: holds_tables_of)
  with t show thesis using that by simp
qed

lemma pg_okI: "holds content t w \<Longrightarrow> tables_ok t \<Longrightarrow> pg_ok content w"
  by (auto simp: pg_ok_def)

lemma pg_sameI: "holds content t w \<Longrightarrow> holds content t w' \<Longrightarrow> pg_same content w w'"
  by (auto simp: pg_same_def holds_def)

lemma pg_same_keeps:
  assumes "pg_same content w w'" and "pg_ok content w"
  shows "pg_ok content w' \<and> tables_of content w' = tables_of content w"
proof -
  have t: "holds content (tables_of content w) w" "tables_ok (tables_of content w)"
    using assms(2) by (auto elim: pg_okE)
  with assms(1) have "holds content (tables_of content w) w'" by (simp add: pg_same_def)
  then show ?thesis using pg_okI [OF _ t(2)] holds_tables_of by metis
qed

text \<open>A call that gives a value and leaves the tables, as the contracts state it.\<close>

lemma gives_step:
  assumes "gives content (tables_of content w) m (\<lambda>x. x = v) t'" and "pg_ok content w" and "tables_ok t'"
  shows "\<exists>w'. m w = (Inr v, w') \<and> pg_ok content w' \<and> tables_of content w' = t'"
proof -
  have "holds content (tables_of content w) w" using assms(2) by (rule pg_okE)
  with assms(1) obtain x w' where "m w = (Inr x, w')" "x = v" "holds content t' w'" by (rule gives_run)
  then show ?thesis using pg_okI [OF _ assms(3)] holds_tables_of by metis
qed

lemma gives_same:
  assumes "gives content (tables_of content w) m (\<lambda>x. x = v) (tables_of content w)"
    and "pg_ok content w"
  shows "\<exists>w'. m w = (Inr v, w') \<and> pg_same content w w'"
proof -
  have w: "holds content (tables_of content w) w" using assms(2) by (rule pg_okE)
  with assms(1) obtain x w' where "m w = (Inr x, w')" "x = v" "holds content (tables_of content w) w'"
    by (rule gives_run)
  then show ?thesis using pg_sameI [OF w] by simp
qed

definition pg_accounts :: "('pg \<Rightarrow> pg_tables option) \<Rightarrow> 'pg wrapper \<Rightarrow> account_map" where
  "pg_accounts content w n =
     map_option (\<lambda>r. (word_of_nat (pc_id r), pc_password r)) (client_named (tables_of content w) n)"

definition pg_names :: "('pg \<Rightarrow> pg_tables option) \<Rightarrow> 'pg wrapper \<Rightarrow> string \<rightharpoonup> type_id_user" where
  "pg_names content w n =
     map_option (\<lambda>r. word_of_nat (ph_id r)) (channel_named (tables_of content w) n)"

definition room_clients :: "('pg \<Rightarrow> pg_tables option) \<Rightarrow> 'pg wrapper \<Rightarrow> bool" where
  "room_clients content w \<longleftrightarrow> next_client (tables_of content w) < 2 ^ 31"

definition room_channels :: "('pg \<Rightarrow> pg_tables option) \<Rightarrow> 'pg wrapper \<Rightarrow> bool" where
  "room_channels content w \<longleftrightarrow> next_channel (tables_of content w) < 2 ^ 31"

definition good_input :: "input_settings \<Rightarrow> bool" where
  "good_input s \<longleftrightarrow> fits 32 (clientName s) \<and> fits 32 (clientPassword s)"

definition good_channel :: "string \<Rightarrow> bool" where
  "good_channel n \<longleftrightarrow> fits 32 n \<and> n \<noteq> []"

lemma good_plain:
  "good_input s \<Longrightarrow> plain (clientName s)"
  "good_channel n \<Longrightarrow> plain n"
  by (simp_all add: good_input_def good_channel_def fits_def)

lemma fresh_word:
  assumes "i < n" and "n < 2 ^ 31"
  shows "word_of_nat n \<noteq> (word_of_nat i :: u64)"
  using assms word_pg_int_eq [of n i] by (simp add: pg_int_def)

lemma pg_account_ids:
  assumes "tables_ok (tables_of content w)" and "i \<in> account_ids (pg_accounts content w)"
  obtains r where "r \<in> set (t_clients (tables_of content w))" and "i = word_of_nat (pc_id r)"
  using assms client_named_in by (fastforce simp: account_ids_def pg_accounts_def)

lemma Pg_db_fields [simp]:
  "db_checkRegUser (Pg_db L E) = WrapperPg_checkRegUser L"
  "db_checkAuthUser (Pg_db L E) = WrapperPg_checkAuthUser L"
  "db_hasChannel (Pg_db L E) = WrapperPg_hasChannel L"
  "db_createChannel (Pg_db L E) = WrapperPg_createChannel L"
  "db_getChannelId (Pg_db L E) = WrapperPg_getChannelId L"
  "db_getChannelUsers (Pg_db L E) = WrapperPg_getChannelUsers L"
  "db_getUserNameChannels (Pg_db L E) = WrapperPg_getUserNameChannels L"
  "db_joinClientChannel (Pg_db L E) = WrapperPg_joinClientChannel L E"
  "db_addMsgHistory (Pg_db L E) = WrapperPg_addMsgHistory L"
  "db_getHistory (Pg_db L E) = WrapperPg_getHistory L E"
  by (simp_all add: Pg_db_def)

lemma pg_reg_fresh:
  assumes "postgres_documented L content" and "good_input s" and "pg_ok content w"
    and "room_clients content w" and "pg_accounts content w (clientName s) = None"
  shows "\<exists>i w'. WrapperPg_checkRegUser L s w = (Inr i, w') \<and> pg_ok content w' \<and>
      i \<noteq> REG_LOGIN_IS_BUSY \<and> i \<notin> account_ids (pg_accounts content w) \<and>
      pg_accounts content w' = (pg_accounts content w)(clientName s \<mapsto> (i, clientPassword s))"
proof -
  let ?t = "tables_of content w"
  let ?t' = "with_clients [(clientName s, clientPassword s)] ?t"
  have t: "tables_ok ?t" using assms(3) by (rule pg_okE)
  have free: "client_named ?t (clientName s) = None" using assms(5) by (simp add: pg_accounts_def)
  have next': "next_client ?t < 2 ^ 31" using assms(4) by (simp add: room_clients_def)
  have t': "tables_ok ?t'" by (rule tables_ok_client [OF t free next'])
  have "gives content ?t (WrapperPg_checkRegUser L s) (\<lambda>i. i = word_of_nat (next_client ?t)) ?t'"
    using assms(2) by (intro checkRegUser_fresh [OF assms(1) t next' _ _ free]) (simp_all add: good_input_def)
  from gives_step [OF this assms(3) t'] obtain w' where w': "WrapperPg_checkRegUser L s w =
      (Inr (word_of_nat (next_client ?t)), w')" "pg_ok content w'" "tables_of content w' = ?t'" by blast
  have "word_of_nat (next_client ?t) \<notin> account_ids (pg_accounts content w)"
  proof
    assume "word_of_nat (next_client ?t) \<in> account_ids (pg_accounts content w)"
    then obtain r where "r \<in> set (t_clients ?t)" "word_of_nat (next_client ?t) = (word_of_nat (pc_id r) :: u64)"
      using pg_account_ids [OF t] by metis
    then show False using fresh_word [of "pc_id r" "next_client ?t"] next' t by (auto simp: tables_ok_def)
  qed
  moreover have "word_of_nat (next_client ?t) \<noteq> (0 :: u64)"
    using next' t word_pg_int_0 [of "next_client ?t"] by (auto simp: pg_int_def tables_ok_def)
  moreover have "pg_accounts content w' =
      (pg_accounts content w)(clientName s \<mapsto> (word_of_nat (next_client ?t), clientPassword s))"
    using free by (auto simp: pg_accounts_def w'(3) fun_eq_iff split: option.split)
  ultimately show ?thesis
    using w' by simp
qed

lemma pg_user_registry:
  assumes "postgres_documented L content"
  shows "user_registry (pg_ok content) (pg_same content) (pg_accounts content)
    (db_checkRegUser (Pg_db L E)) (db_checkAuthUser (Pg_db L E)) (room_clients content) good_input"
proof
  fix w w' :: "'a wrapper"
  assume "pg_same content w w'" and "pg_ok content w"
  from pg_same_keeps [OF this]
  show "pg_ok content w' \<and> pg_accounts content w' = pg_accounts content w"
    by (simp add: pg_accounts_def fun_eq_iff)
next
  fix s :: input_settings and w :: "'a wrapper"
  assume "good_input s" and "pg_ok content w" and "room_clients content w"
    and "pg_accounts content w (clientName s) = None"
  from pg_reg_fresh [OF assms this]
  show "\<exists>i w'. db_checkRegUser (Pg_db L E) s w = (Inr i, w') \<and> pg_ok content w' \<and>
      i \<noteq> REG_LOGIN_IS_BUSY \<and> i \<notin> account_ids (pg_accounts content w) \<and>
      pg_accounts content w' = (pg_accounts content w)(clientName s \<mapsto> (i, clientPassword s))"
    by simp
next
  fix s :: input_settings and a and w :: "'a wrapper"
  assume good: "good_input s" and ok: "pg_ok content w" and some: "pg_accounts content w (clientName s) = Some a"
  then obtain r where "client_named (tables_of content w) (clientName s) = Some r"
    by (auto simp: pg_accounts_def)
  moreover have "tables_ok (tables_of content w)" using ok by (rule pg_okE)
  ultimately have "gives content (tables_of content w) (WrapperPg_checkRegUser L s) (\<lambda>i. i = 0)
      (tables_of content w)"
    using checkRegUser_busy [OF assms _ good_plain(1) [OF good]] by blast
  from gives_same [OF this ok]
  show "\<exists>w'. db_checkRegUser (Pg_db L E) s w = (Inr REG_LOGIN_IS_BUSY, w') \<and> pg_same content w w'"
    by simp
next
  fix s :: input_settings and w :: "'a wrapper"
  assume good: "good_input s" and ok: "pg_ok content w"
  have "tables_ok (tables_of content w)" using ok by (rule pg_okE)
  moreover have "plain (clientName s)" using good by (rule good_plain)
  moreover have "(case client_named (tables_of content w) (clientName s) of
      None \<Rightarrow> 0
    | Some r \<Rightarrow> if pc_password r = clientPassword s then word_of_nat (pc_id r) else 0) =
    auth_answer (pg_accounts content w) s"
    by (auto simp: auth_answer_def pg_accounts_def split: option.split)
  ultimately show "\<exists>w'. db_checkAuthUser (Pg_db L E) s w =
      (Inr (auth_answer (pg_accounts content w) s), w') \<and> pg_same content w w'"
    using gives_same [OF checkAuthUser_gives [OF assms, where s = s] ok] by simp
next
  fix w :: "'a wrapper"
  assume ok: "pg_ok content w"
  have t: "tables_ok (tables_of content w)" using ok by (rule pg_okE)
  show "0 \<notin> account_ids (pg_accounts content w)"
  proof
    assume "0 \<in> account_ids (pg_accounts content w)"
    with t obtain r where "r \<in> set (t_clients (tables_of content w))" "0 = (word_of_nat (pc_id r) :: u64)"
      by (rule pg_account_ids)
    then show False using ids_pg_int(1) [OF t] word_pg_int_0 by fastforce
  qed
qed

lemma pg_create_fresh:
  assumes "postgres_documented L content" and "good_channel n" and "pg_ok content w"
    and "room_channels content w" and "pg_names content w n = None"
  shows "\<exists>i w'. WrapperPg_createChannel L n w = (Inr i, w') \<and> pg_ok content w' \<and>
      i \<noteq> 0 \<and> i \<notin> ran (pg_names content w) \<and> pg_names content w' = (pg_names content w)(n \<mapsto> i)"
proof -
  let ?t = "tables_of content w" and ?t' = "with_channel n (tables_of content w)"
  have t: "tables_ok ?t" using assms(3) by (rule pg_okE)
  have free: "channel_named ?t n = None" using assms(5) by (simp add: pg_names_def)
  have next': "next_channel ?t < 2 ^ 31" using assms(4) by (simp add: room_channels_def)
  have n: "fits 32 n" "n \<noteq> []" using assms(2) by (simp_all add: good_channel_def)
  have t': "tables_ok ?t'" by (rule tables_ok_channel [OF t free next' n])
  from gives_step [OF createChannel_fresh [OF assms(1) t next' n free] assms(3) t']
  obtain w' where w': "WrapperPg_createChannel L n w = (Inr (word_of_nat (next_channel ?t)), w')"
    "pg_ok content w'" "tables_of content w' = ?t'" by blast
  have "word_of_nat (next_channel ?t) \<notin> ran (pg_names content w)"
  proof
    assume "word_of_nat (next_channel ?t) \<in> ran (pg_names content w)"
    then obtain m r where "channel_named ?t m = Some r"
      and same: "word_of_nat (ph_id r) = (word_of_nat (next_channel ?t) :: u64)"
      by (auto simp: ran_def pg_names_def)
    then have "r \<in> set (t_channels ?t)" using channel_named_in by blast
    then show False using fresh_word [of "ph_id r" "next_channel ?t"] next' t same
      by (auto simp: tables_ok_def)
  qed
  moreover have "word_of_nat (next_channel ?t) \<noteq> (0 :: u64)"
    using next' t word_pg_int_0 [of "next_channel ?t"] by (auto simp: pg_int_def tables_ok_def)
  moreover have "pg_names content w' = (pg_names content w)(n \<mapsto> word_of_nat (next_channel ?t))"
    using free by (auto simp: pg_names_def w'(3) fun_eq_iff split: option.split)
  ultimately show ?thesis
    using w' by simp
qed

text \<open>The contracts on the small server, which fulfils the hypothesis.\<close>

interpretation mini_backend: observed_backend "pg_ok Some" "pg_same Some" "tables_of Some"
  by unfold_locales (rule pg_same_keeps)

interpretation mini_users:
  user_registry "pg_ok Some" "pg_same Some" "pg_accounts Some" "db_checkRegUser (Pg_db mini E)"
    "db_checkAuthUser (Pg_db mini E)" "room_clients Some" good_input for E
  by (rule pg_user_registry [OF mini_documented])

end
