(* ===== verification/Pg_History.thy ===== *)
theory Pg_History
  imports Pg_Contracts
begin

text \<open>
  Messages over PostgreSQL: \<open>addMsgHistory\<close> and \<open>getHistory\<close> of \<open>WrapperPg\<close> fulfil the history
  contract, up to the order of the rows, which the query leaves open; the lists of channels and of
  members; and the subscription that \<open>joinClientChannel\<close> stores before its log call throws.
\<close>

section \<open>History\<close>

text \<open>A \<open>DateTime\<close> assigned from a \<open>std::tm\<close> has its six fields, with C's offsets taken back.\<close>

definition tm_documented :: "env \<Rightarrow> bool" where
  "tm_documented E \<longleftrightarrow> (\<forall>dt. datetime_in_range dt \<longrightarrow> datetime_of_tm E (tm_of dt) = dt)"

definition login_of :: "pg_tables \<Rightarrow> nat \<Rightarrow> string" where
  "login_of t i = (case find (\<lambda>r. pc_id r = i) (t_clients t) of None \<Rightarrow> [] | Some r \<Rightarrow> pc_login r)"

definition name_of :: "pg_tables \<Rightarrow> nat \<Rightarrow> string" where
  "name_of t i = (case find (\<lambda>r. ph_id r = i) (t_channels t) of None \<Rightarrow> [] | Some r \<Rightarrow> ph_name r)"

definition message_of :: "pg_tables \<Rightarrow> pg_message \<Rightarrow> text_msg" where
  "message_of t r = \<lparr>msg_author = login_of t (pm_client r), msg_text = pm_text r,
     msg_channel_name = pm_channel r, msg_dt = pm_datetime r\<rparr>"

definition messages_in :: "pg_tables \<Rightarrow> string \<Rightarrow> text_msg list" where
  "messages_in t n = map (message_of t) (filter (\<lambda>r. pm_channel r = n) (t_history t))"

definition read_row :: "pg_tables \<Rightarrow> env \<Rightarrow> string \<Rightarrow> string list \<Rightarrow> text_msg" where
  "read_row t E n row = \<lparr>msg_author = login_of t (digits_value (row ! 0)), msg_text = row ! 3,
     msg_channel_name = n, msg_dt = datetime_of_tm E (get_time (row ! 2) (unset_tm E))\<rparr>"

definition history_line :: "pg_message \<Rightarrow> string list" where
  "history_line r = [show_nat (pm_client r), pm_channel r, format_datetime (pm_datetime r), pm_text r]"

lemma read_history_line:
  assumes "tm_documented E" and "datetime_in_range (pm_datetime r)"
  shows "read_row t E (pm_channel r) (history_line r) = message_of t r"
  using assms by (simp add: read_row_def history_line_def message_of_def get_time_format tm_documented_def)

lemma history_row_gives:
  assumes "postgres_documented L content" and "tables_ok t" and "i < length (tuples res)"
    and "tuples res ! i = history_line r" and "pg_int (pm_client r)"
  shows "gives content t (history_row L E n res i) (\<lambda>m. m = read_row t E n (tuples res ! i)) t"
proof -
  have "pg_int (unat (word_of_nat (pm_client r) :: u64))" using assms(5) by (simp add: word_pg_int)
  from getClientName_gives [OF assms(1,2) this]
  have author: "gives content t (WrapperPg_getClientName L (word_of_nat (pm_client r)))
      (\<lambda>n. n = login_of t (pm_client r)) t"
    by (simp add: login_of_def word_pg_int [OF assms(5)])
  have "value_id res i 0 = (eff_return (word_of_nat (pm_client r)) :: ('a wrapper, type_id_user) eff)"
    using assms(3-5) by (simp add: history_line_def)
  then show ?thesis
    using assms(3,4) unfolding history_row_def
    by (simp only: eff_bind_return_left)
      (rule gives_bind [OF author], simp add: history_line_def gives_return_run read_row_def)
qed

lemma messages_answer:
  assumes "mset rows = mset (map history_line (filter (\<lambda>r. pm_channel r = n) (t_history t)))"
    and "tm_documented E" and "tables_ok t"
  shows "mset (map (read_row t E n) rows) = mset (messages_in t n)"
proof -
  let ?rs = "filter (\<lambda>r. pm_channel r = n) (t_history t)"
  have "read_row t E n (history_line r) = message_of t r" if "r \<in> set ?rs" for r
    using that assms(2,3) read_history_line [of E r t] by (auto simp: tables_ok_def timestamp_exists_def)
  then have "map (read_row t E n) (map history_line ?rs) = messages_in t n"
    by (simp add: messages_in_def)
  moreover have "mset (map (read_row t E n) rows) = mset (map (read_row t E n) (map history_line ?rs))"
    using assms(1) by (simp only: mset_map)
  ultimately show ?thesis by (simp only:)
qed

lemma getHistory_gives:
  assumes "postgres_documented L content" and "tables_ok t" and "tm_documented E" and "pg_int (unat c)"
  shows "gives content t (WrapperPg_getHistory L E c)
    (\<lambda>ms. mset ms = mset (messages_in t (name_of t (unat c)))) t"
proof -
  let ?n = "name_of t (unat c)"
  let ?rows = "map history_line (filter (\<lambda>r. pm_channel r = ?n) (t_history t))"
  have plain: "plain ?n"
    using assms(2) by (auto simp: name_of_def tables_ok_def fits_def find_Some_iff plain_def split: option.split)
  have select: "gives content t (execThreadSafe L (render (SelectHistory ?n)))
      (\<lambda>res. result_status res = PGRES_TUPLES_OK \<and> mset (tuples res) = mset ?rows) t"
    unfolding execThreadSafe_def
    by (rule gives_weaken [OF gives_exec [OF assms(1)]])
      (use plain in \<open>auto simp: history_line_def [abs_def]\<close>)
  have loop: "gives content t (eff_map (history_row L E ?n res) [0..<PQntuples res])
      (\<lambda>ms. mset ms = mset (messages_in t ?n)) t"
    if "mset (tuples res) = mset ?rows" for res
  proof (rule gives_weaken [OF gives_map_rows [where g = "read_row t E ?n"]])
    fix i assume i: "i < length (tuples res)"
    then have "tuples res ! i \<in> set ?rows" using that by (metis nth_mem set_mset_mset)
    then obtain r where r: "r \<in> set (t_history t)" "tuples res ! i = history_line r" by auto
    then have "pg_int (pm_client r)" using assms(2) ids_pg_int(1) [OF assms(2)] by (auto simp: tables_ok_def)
    from history_row_gives [OF assms(1,2) i r(2) this]
    show "gives content t (history_row L E ?n res i) (\<lambda>m. m = read_row t E ?n (tuples res ! i)) t" .
  qed (simp add: messages_answer [OF that assms(3,2)] del: mset_map)
  show ?thesis
    unfolding WrapperPg_getHistory_def render.simps(14) [symmetric]
    by (rule gives_connected, simp only: simp_thms if_False,
        rule gives_bind [OF getChannelName_gives [OF assms(1,2,4), folded name_of_def]],
        simp del: render.simps, rule gives_bind [OF select])
      (use loop in simp)
qed

lemma addMsgHistory_gives:
  assumes "postgres_documented L content" and "tables_ok t"
    and "plain (msg_author m)" and "client_named t (msg_author m) = Some r"
    and "fits 32 (msg_channel_name m)" and "timestamp_exists (msg_dt m)" and "fits 255 (msg_text m)"
  shows "gives content t (WrapperPg_addMsgHistory L c m) (\<lambda>_. True) (with_message (pc_id r) m t)"
proof -
  have r: "r \<in> set (t_clients t)" using client_named_in [OF assms(4)] by simp
  then have id: "pg_int (pc_id r)" using ids_pg_int(1) [OF assms(2)] by simp
  have found: "to_string (client_id_of t (msg_author m)) = show_nat (pc_id r)"
    using assms(4) word_pg_int [OF id] by (simp add: client_id_of_def to_string_def)
  let ?q = "InsertHistory (pc_id r) (msg_channel_name m) (msg_dt m) (msg_text m)"
  have insert: "gives content t (exec_query L (render ?q)) (\<lambda>_. True) (with_message (pc_id r) m t)"
    by (rule gives_weaken [OF gives_exec [OF assms(1)]])
      (use id r assms(5-7) in \<open>auto simp: with_message_def\<close>)
  show ?thesis
    unfolding WrapperPg_addMsgHistory_def Let_def
    by (rule gives_bind [OF getClientId_gives [OF assms(1-3)]], simp only: found render.simps(13) [symmetric],
        rule gives_bind [OF insert])
      (simp add: gives_return)
qed

text \<open>
  A message whose author has no account is not stored: the id it is stored under is 0, which no
  account has.
\<close>

lemma addMsgHistory_unknown:
  assumes "postgres_documented L content" and "tables_ok t"
    and "plain (msg_author m)" and "client_named t (msg_author m) = None"
    and "fits 32 (msg_channel_name m)" and "timestamp_exists (msg_dt m)" and "fits 255 (msg_text m)"
  shows "gives content t (WrapperPg_addMsgHistory L c m) (\<lambda>_. True) t"
proof -
  have zero: "0 \<notin> pc_id ` set (t_clients t)" using assms(2) by (auto simp: tables_ok_def)
  have found: "to_string (client_id_of t (msg_author m)) = show_nat 0"
    using assms(4) by (simp add: client_id_of_def to_string_def)
  let ?q = "InsertHistory 0 (msg_channel_name m) (msg_dt m) (msg_text m)"
  have insert: "gives content t (exec_query L (render ?q)) (\<lambda>_. True) t"
    by (rule gives_weaken [OF gives_exec [OF assms(1)]])
      (use zero assms(5-7) in \<open>auto simp: pg_int_def\<close>)
  show ?thesis
    unfolding WrapperPg_addMsgHistory_def Let_def
    by (rule gives_bind [OF getClientId_gives [OF assms(1-3)]], simp only: found render.simps(13) [symmetric],
        rule gives_bind [OF insert])
      (simp add: gives_return)
qed

definition pg_hist :: "('pg \<Rightarrow> pg_tables option) \<Rightarrow> 'pg wrapper \<Rightarrow> type_id_user \<Rightarrow> text_msg list" where
  "pg_hist content w c =
     (let t = tables_of content w in messages_in t (name_of t (unat c)))"

definition good_message :: "('pg \<Rightarrow> pg_tables option) \<Rightarrow> 'pg wrapper \<Rightarrow> type_id_user \<Rightarrow> text_msg \<Rightarrow> bool"
  where
  "good_message content w c m \<longleftrightarrow>
     plain (msg_author m) \<and> pg_accounts content w (msg_author m) \<noteq> None \<and>
     pg_names content w (msg_channel_name m) = Some c \<and>
     timestamp_exists (msg_dt m) \<and> fits 255 (msg_text m)"

lemma login_of_client:
  assumes "tables_ok t" and "client_named t n = Some r"
  shows "login_of t (pc_id r) = n"
proof -
  have r: "r \<in> set (t_clients t)" "pc_login r = n" using client_named_in [OF assms(2)] by simp_all
  have "find (\<lambda>x. pc_id x = pc_id r) (t_clients t) \<noteq> None" using r(1) by (auto simp: find_None_iff)
  then obtain r' where r': "find (\<lambda>x. pc_id x = pc_id r) (t_clients t) = Some r'" by auto
  from find_key [OF r'] have "r' \<in> set (t_clients t)" "pc_id r' = pc_id r" by simp_all
  then have "r' = r" using r(1) assms(1) by (auto simp: tables_ok_def distinct_map inj_on_def)
  with r r' show ?thesis by (simp add: login_of_def)
qed

lemma name_of_channel:
  assumes "tables_ok t" and "channel_named t n = Some r"
  shows "name_of t i = n \<longleftrightarrow> i = ph_id r"
proof -
  have r: "r \<in> set (t_channels t)" "ph_name r = n" using channel_named_in [OF assms(2)] by simp_all
  have "n \<noteq> []" using r assms(1) by (auto simp: tables_ok_def)
  have uniq: "x = y" if "x \<in> set (t_channels t)" "y \<in> set (t_channels t)"
    "ph_id x = ph_id y \<or> ph_name x = ph_name y" for x y
    using that assms(1) by (auto simp: tables_ok_def distinct_map inj_on_def)
  show ?thesis
  proof (cases "find (\<lambda>x. ph_id x = i) (t_channels t)")
    case None
    then have "name_of t i = []" by (simp add: name_of_def)
    moreover have "i \<noteq> ph_id r" using None r by (auto simp: find_None_iff)
    ultimately show ?thesis using \<open>n \<noteq> []\<close> by simp
  next
    case (Some r')
    from find_key [OF Some] have "r' \<in> set (t_channels t)" "ph_id r' = i" by simp_all
    then show ?thesis using uniq [of r' r] r Some by (auto simp: name_of_def)
  qed
qed

lemma messages_in_with:
  assumes "tables_ok t" and "client_named t (msg_author m) = Some r"
  shows "messages_in (with_message (pc_id r) m t) n =
    messages_in t n @ (if msg_channel_name m = n then [m] else [])"
  using login_of_client [OF assms]
  by (simp add: messages_in_def with_message_def message_of_def login_of_def)

lemma name_of_with_message [simp]: "name_of (with_message i m t) = name_of t"
  by (simp add: name_of_def with_message_def fun_eq_iff)

lemma pg_hist_with:
  assumes "tables_ok (tables_of content w)" and "pg_names content w (msg_channel_name m) = Some c"
    and "client_named (tables_of content w) (msg_author m) = Some r"
    and "tables_of content w' = with_message (pc_id r) m (tables_of content w)"
  shows "pg_hist content w' = (pg_hist content w)(c := pg_hist content w c @ [m])"
proof
  fix c'
  let ?t = "tables_of content w"
  obtain ch where ch: "channel_named ?t (msg_channel_name m) = Some ch" "c = word_of_nat (ph_id ch)"
    using assms(2) by (auto simp: pg_names_def)
  have "ch \<in> set (t_channels ?t)" using channel_named_in [OF ch(1)] by simp
  then have "unat c = ph_id ch" using ids_pg_int(2) [OF assms(1)] ch(2) by (simp add: word_pg_int)
  then have "name_of ?t (unat c') = msg_channel_name m \<longleftrightarrow> c' = c"
    using name_of_channel [OF assms(1) ch(1), of "unat c'"] by (metis word_unat_eq_iff)
  then show "pg_hist content w' c' = ((pg_hist content w)(c := pg_hist content w c @ [m])) c'"
    using messages_in_with [OF assms(1,3), of "name_of ?t (unat c')"]
    by (auto simp: pg_hist_def Let_def assms(4))
qed

lemma pg_history_log:
  assumes "postgres_documented L content" and "tm_documented E"
  shows "history_log (pg_ok content) (pg_same content) (pg_hist content)
    (db_addMsgHistory (Pg_db L E)) (db_getHistory (Pg_db L E)) (\<lambda>ms ms'. mset ms = mset ms')
    (\<lambda>c. pg_int (unat c)) (good_message content)"
proof
  fix w w' :: "'a wrapper"
  assume "pg_same content w w'" and "pg_ok content w"
  from pg_same_keeps [OF this]
  show "pg_ok content w' \<and> pg_hist content w' = pg_hist content w"
    by (simp add: pg_hist_def fun_eq_iff)
next
  fix w :: "'a wrapper" and c :: type_id_user
  assume ok: "pg_ok content w" and c: "pg_int (unat c)"
  have t: "holds content (tables_of content w) w" "tables_ok (tables_of content w)"
    using ok by (auto elim: pg_okE)
  from gives_run [OF getHistory_gives [OF assms(1) t(2) assms(2) c] t(1)]
  obtain ms w' where "WrapperPg_getHistory L E c w = (Inr ms, w')" "holds content (tables_of content w) w'"
    "mset ms = mset (pg_hist content w c)" unfolding pg_hist_def Let_def by blast
  then show "\<exists>ms w'. db_getHistory (Pg_db L E) c w = (Inr ms, w') \<and>
      mset ms = mset (pg_hist content w c) \<and> pg_same content w w'"
    using pg_sameI [OF t(1)] by auto
next
  fix w :: "'a wrapper" and c :: type_id_user and m :: text_msg
  assume ok: "pg_ok content w" and good: "good_message content w c m"
  let ?t = "tables_of content w"
  have t: "holds content ?t w" "tables_ok ?t" using ok by (auto elim: pg_okE)
  obtain r where r: "client_named ?t (msg_author m) = Some r"
    using good by (auto simp: good_message_def pg_accounts_def)
  obtain ch where ch: "channel_named ?t (msg_channel_name m) = Some ch"
    using good by (auto simp: good_message_def pg_names_def)
  have name: "fits 32 (msg_channel_name m)"
    using channel_named_in [OF ch] t(2) by (auto simp: tables_ok_def)
  have add: "gives content ?t (WrapperPg_addMsgHistory L c m) (\<lambda>_. True) (with_message (pc_id r) m ?t)"
    using good by (intro addMsgHistory_gives [OF assms(1) t(2) _ r name]) (simp_all add: good_message_def)
  have "tables_ok (with_message (pc_id r) m ?t)"
    using good ch client_named_in [OF r] by (intro tables_ok_message [OF t(2)]) (auto simp: good_message_def)
  from gives_step [OF gives_weaken [OF add] ok this]
  obtain w' where w': "WrapperPg_addMsgHistory L c m w = (Inr (), w')" "pg_ok content w'"
    "tables_of content w' = with_message (pc_id r) m ?t" by auto
  have "pg_hist content w' = (pg_hist content w)(c := pg_hist content w c @ [m])"
    using good by (intro pg_hist_with [OF t(2) _ r w'(3)]) (simp add: good_message_def)
  with w' show "\<exists>w'. db_addMsgHistory (Pg_db L E) c m w = (Inr (), w') \<and> pg_ok content w' \<and>
      pg_hist content w' = (pg_hist content w)(c := pg_hist content w c @ [m])"
    by simp
qed

section \<open>Channels and members\<close>

lemma getUserNameChannels_gives:
  assumes "postgres_documented L content" and "pg_int (unat c)"
  shows "gives content t (WrapperPg_getUserNameChannels L c)
    (\<lambda>ns. distinct ns \<and> set ns = {n. \<exists>r \<in> set (t_history t). pm_client r = unat c \<and> n = pm_channel r}) t"
proof -
  let ?rows = "remdups (map (\<lambda>r. [pm_channel r]) (filter (\<lambda>r. pm_client r = unat c) (t_history t)))"
  have select: "gives content t (execThreadSafe L (render (SelectUserChannels (unat c))))
      (\<lambda>res. result_status res = PGRES_TUPLES_OK \<and> mset (tuples res) = mset ?rows) t"
    unfolding execThreadSafe_def
    by (rule gives_weaken [OF gives_exec [OF assms(1)]]) (use assms(2) in auto)
  have loop: "gives content t (eff_map (\<lambda>i. PQgetvalue res i 0) [0..<PQntuples res])
      (\<lambda>ns. distinct ns \<and> set ns = {n. \<exists>r \<in> set (t_history t). pm_client r = unat c \<and> n = pm_channel r}) t"
    if res: "mset (tuples res) = mset ?rows" for res
  proof (rule gives_weaken [OF gives_map_rows [where g = hd]])
    have rows: "set (tuples res) = set ?rows" "distinct (tuples res)"
      using res by (metis set_mset_mset, metis distinct_remdups mset_eq_imp_distinct_iff)
    show "gives content t (PQgetvalue res i 0) (\<lambda>y. y = hd (tuples res ! i)) t" if "i < length (tuples res)" for i
    proof -
      have "tuples res ! i \<in> set ?rows" using that rows(1) nth_mem by metis
      then show ?thesis using that by (auto simp: gives_return)
    qed
    have "inj_on hd (set (tuples res))" unfolding rows(1) by (auto simp: inj_on_def)
    then show "distinct ns \<and> set ns = {n. \<exists>r \<in> set (t_history t). pm_client r = unat c \<and> n = pm_channel r}"
      if "ns = map hd (tuples res)" for ns
      using that rows by (auto simp: distinct_map image_iff)
  qed
  show ?thesis
    unfolding WrapperPg_getUserNameChannels_def to_string_def render.simps(7) [symmetric]
    by (rule gives_connected, simp only: simp_thms if_False, rule gives_bind [OF select])
      (use loop in \<open>simp del: render.simps\<close>)
qed

lemma getChannelUsers_gives:
  assumes "postgres_documented L content" and "tables_ok t" and "pg_int (unat i)"
  shows "gives content t (WrapperPg_getChannelUsers L i)
    (\<lambda>us. set us = {word_of_nat c |c. (c, unat i) \<in> set (t_subscriptions t)}) t"
proof -
  let ?rows = "remdups (map (\<lambda>r. [show_nat (fst r)]) (filter (\<lambda>r. snd r = unat i) (t_subscriptions t)))"
  let ?id = "\<lambda>row. word_of_nat (digits_value (hd row)) :: u64"
  have select: "gives content t (execThreadSafe L (render (SelectChannelUsers (unat i))))
      (\<lambda>res. result_status res = PGRES_TUPLES_OK \<and> mset (tuples res) = mset ?rows) t"
    unfolding execThreadSafe_def
    by (rule gives_weaken [OF gives_exec [OF assms(1)]]) (use assms(3) in auto)
  have loop: "gives content t (eff_map (\<lambda>j. value_id res j 0) [0..<PQntuples res])
      (\<lambda>us. set us = {word_of_nat c |c. (c, unat i) \<in> set (t_subscriptions t)}) t"
    if res: "mset (tuples res) = mset ?rows" for res
  proof (rule gives_weaken [OF gives_map_rows [where g = ?id]])
    have rows: "set (tuples res) = set ?rows" using res by (metis set_mset_mset)
    show "gives content t (value_id res j 0) (\<lambda>y. y = ?id (tuples res ! j)) t" if "j < length (tuples res)" for j
    proof -
      have "tuples res ! j \<in> set ?rows" using that rows nth_mem by metis
      then obtain r where "r \<in> set (t_subscriptions t)" "tuples res ! j = [show_nat (fst r)]" by auto
      then show ?thesis
        using that assms(2) value_id_in [of j res 0 "fst r"] by (auto simp: tables_ok_def gives_return)
    qed
    show "set us = {word_of_nat c |c. (c, unat i) \<in> set (t_subscriptions t)}"
      if "us = map ?id (tuples res)" for us
      unfolding that set_map rows by (force simp: image_iff)
  qed
  show ?thesis
    unfolding WrapperPg_getChannelUsers_def to_string_def render.simps(8) [symmetric]
    by (rule gives_connected, simp only: simp_thms if_False, rule gives_bind [OF select])
      (use loop in \<open>simp del: render.simps\<close>)
qed

lemma assign_all_map_of:
  "distinct (map fst ps) \<Longrightarrow> assign_all ps m = m ++ map_of ps"
  by (induction ps m rule: assign_all.induct)
    (simp_all add: map_add_upd_left dom_map_of_conv_image_fst)

lemma map_of_permuted:
  assumes "mset ps = mset qs" and "distinct (map fst qs)"
  shows "distinct (map fst ps)" and "map_of ps = map_of qs"
proof -
  have "mset (map fst ps) = mset (map fst qs)" using assms(1) by simp
  then show ps: "distinct (map fst ps)" using assms(2) by (metis mset_eq_imp_distinct_iff)
  show "map_of ps = map_of qs"
  proof
    fix x
    show "map_of ps x = map_of qs x"
      using map_of_eq_Some_iff [OF ps, of x] map_of_eq_Some_iff [OF assms(2), of x]
        mset_eq_setD [OF assms(1)]
      by (cases "map_of ps x"; cases "map_of qs x") auto
  qed
qed

definition stored_channels :: "pg_tables \<Rightarrow> type_id_user \<rightharpoonup> string" where
  "stored_channels t = map_of (map (\<lambda>r. (word_of_nat (ph_id r), ph_name r)) (t_channels t))"

lemma distinct_channel_words:
  "tables_ok t \<Longrightarrow> distinct (map (\<lambda>r. word_of_nat (ph_id r) :: u64) (t_channels t))"
  using ids_pg_int(2) [of t] word_pg_int_eq
  by (auto simp: tables_ok_def distinct_map inj_on_def)

lemma getCurrentChannels_gives:
  assumes "postgres_documented L content" and "tables_ok t"
  shows "gives content t (WrapperPg_getCurrentChannels L) (\<lambda>m. m = stored_channels t) t"
proof -
  let ?rows = "map (\<lambda>r. [show_nat (ph_id r), ph_name r]) (t_channels t)"
  let ?pair = "\<lambda>row. (word_of_nat (digits_value (row ! 0)) :: u64, row ! 1)"
  have select: "gives content t (execThreadSafe L (render SelectChannels))
      (\<lambda>res. result_status res = PGRES_TUPLES_OK \<and> mset (tuples res) = mset ?rows) t"
    unfolding execThreadSafe_def
    by (rule gives_weaken [OF gives_exec [OF assms(1)]]) auto
  have loop: "gives content t (eff_map (channel_row res) [0..<PQntuples res])
      (\<lambda>ps. assign_all ps Map.empty = stored_channels t) t"
    if res: "mset (tuples res) = mset ?rows" for res
  proof (rule gives_weaken [OF gives_map_rows [where g = ?pair]])
    show "gives content t (channel_row res j) (\<lambda>y. y = ?pair (tuples res ! j)) t" if "j < length (tuples res)" for j
    proof -
      have "tuples res ! j \<in> set ?rows" using that res nth_mem by (metis set_mset_mset)
      then obtain r where r: "r \<in> set (t_channels t)" "tuples res ! j = [show_nat (ph_id r), ph_name r]" by auto
      then have "value_id res j 0 = (eff_return (word_of_nat (ph_id r)) :: ('a wrapper, type_id_user) eff)"
        using that ids_pg_int(2) [OF assms(2)] by simp
      then show ?thesis using that r(2) by (simp add: channel_row_def gives_return gives_return_run)
    qed
    let ?ps = "map (\<lambda>r. (word_of_nat (ph_id r) :: u64, ph_name r)) (t_channels t)"
    have ps: "mset (map ?pair (tuples res)) = mset ?ps"
    proof -
      have "mset (map ?pair (tuples res)) = mset (map ?pair ?rows)" using res by (simp only: mset_map)
      then show ?thesis by (simp add: comp_def)
    qed
    have distinct: "distinct (map fst ?ps)" using distinct_channel_words [OF assms(2)] by (simp add: comp_def)
    note answer = map_of_permuted [OF ps distinct]
    show "assign_all xs Map.empty = stored_channels t" if "xs = map ?pair (tuples res)" for xs
      unfolding that assign_all_map_of [OF answer(1)] answer(2) by (simp add: stored_channels_def)
  qed
  show ?thesis
    unfolding WrapperPg_getCurrentChannels_def render.simps(15) [symmetric]
    by (rule gives_connected, simp only: simp_thms if_False, rule gives_bind [OF select],
        simp del: render.simps, rule gives_bind [OF loop])
      (simp_all add: gives_return gives_return_run)
qed

section \<open>The channel contract\<close>

lemma pg_channel_lookup:
  assumes "postgres_documented L content"
  shows "channel_lookup (pg_ok content) (pg_same content) (pg_names content)
    (db_hasChannel (Pg_db L E)) (db_createChannel (Pg_db L E)) (room_channels content) good_channel
    (db_getChannelId (Pg_db L E)) (db_getChannelUsers (Pg_db L E))"
proof
  fix w w' :: "'a wrapper"
  assume "pg_same content w w'" and "pg_ok content w"
  from pg_same_keeps [OF this]
  show "pg_ok content w' \<and> pg_names content w' = pg_names content w"
    by (simp add: pg_names_def fun_eq_iff)
next
  fix n and w :: "'a wrapper"
  assume good: "good_channel n" and ok: "pg_ok content w"
  have t: "tables_ok (tables_of content w)" using ok by (rule pg_okE)
  show "\<exists>w'. db_hasChannel (Pg_db L E) n w = (Inr (pg_names content w n \<noteq> None), w') \<and>
      pg_same content w w'"
    using gives_same [OF hasChannel_gives [OF assms t good_plain(2) [OF good]] ok]
    by (simp add: pg_names_def)
next
  fix n and w :: "'a wrapper"
  assume "good_channel n" and "pg_ok content w" and "room_channels content w"
    and "pg_names content w n = None"
  from pg_create_fresh [OF assms this]
  show "\<exists>i w'. db_createChannel (Pg_db L E) n w = (Inr i, w') \<and> pg_ok content w' \<and>
      i \<noteq> 0 \<and> i \<notin> ran (pg_names content w) \<and> pg_names content w' = (pg_names content w)(n \<mapsto> i)"
    by simp
next
  fix w w' :: "'a wrapper"
  assume "pg_same content w w'" and "pg_ok content w" and "room_channels content w"
  then show "room_channels content w'" using pg_same_keeps [of content w w'] by (simp add: room_channels_def)
next
  fix n i and w :: "'a wrapper"
  assume good: "good_channel n" and ok: "pg_ok content w" and some: "pg_names content w n = Some i"
  then obtain r where r: "channel_named (tables_of content w) n = Some r" "i = word_of_nat (ph_id r)"
    by (auto simp: pg_names_def)
  have t: "tables_ok (tables_of content w)" using ok by (rule pg_okE)
  show "\<exists>w'. db_createChannel (Pg_db L E) n w = (Inr i, w') \<and> pg_same content w w'"
    using gives_same [OF createChannel_known [OF assms t good_plain(2) [OF good] r(1)] ok] r(2) by simp
  show "\<exists>w'. db_getChannelId (Pg_db L E) n w = (Inr i, w') \<and> pg_same content w w'"
    using gives_same [OF getChannelId_gives [OF assms t good_plain(2) [OF good]] ok] r
    by (simp add: channel_id_of_def)
next
  fix n and i :: type_id_user and w :: "'a wrapper"
  let ?t = "tables_of content w"
  assume ok: "pg_ok content w" and some: "pg_names content w n = Some i"
  then obtain r where r: "channel_named ?t n = Some r" "i = word_of_nat (ph_id r)"
    by (auto simp: pg_names_def)
  have t: "holds content ?t w" "tables_ok ?t" using ok by (auto elim: pg_okE)
  have "pg_int (ph_id r)" using channel_named_in [OF r(1)] ids_pg_int(2) [OF t(2)] by simp
  then have "pg_int (unat i)" using r(2) by (simp add: word_pg_int)
  from gives_run [OF getChannelUsers_gives [OF assms t(2) this] t(1)]
  show "\<exists>us w'. db_getChannelUsers (Pg_db L E) i w = (Inr us, w') \<and> pg_same content w w'"
    using pg_sameI [OF t(1)] by (metis Pg_db_fields(6))
next
  fix w :: "'a wrapper"
  assume ok: "pg_ok content w"
  have t: "tables_ok (tables_of content w)" using ok by (rule pg_okE)
  show "0 \<notin> ran (pg_names content w)"
  proof
    assume "0 \<in> ran (pg_names content w)"
    then obtain m r where "channel_named (tables_of content w) m = Some r" "word_of_nat (ph_id r) = (0 :: u64)"
      by (auto simp: ran_def pg_names_def)
    then show False using ids_pg_int(2) [OF t] channel_named_in word_pg_int_0 by fastforce
  qed
qed

interpretation mini_channels:
  channel_lookup "pg_ok Some" "pg_same Some" "pg_names Some" "db_hasChannel (Pg_db mini E)"
    "db_createChannel (Pg_db mini E)" "room_channels Some" good_channel "db_getChannelId (Pg_db mini E)"
    "db_getChannelUsers (Pg_db mini E)" for E
  by (rule pg_channel_lookup [OF mini_documented])

section \<open>Subscriptions\<close>

lemma hasChannelClient_gives:
  assumes "postgres_documented L content" and "pg_int (unat c)" and "pg_int (unat i)"
  shows "gives content t (WrapperPg_hasChannelClient L i c)
    (\<lambda>b. b = ((unat c, unat i) \<in> set (t_subscriptions t))) t"
proof -
  let ?rows = "map (\<lambda>r. [show_nat (fst r), show_nat (snd r)])
    (filter (\<lambda>r. r = (unat c, unat i)) (t_subscriptions t))"
  have select: "gives content t (execThreadSafe L (render (SelectSubscription (unat c) (unat i))))
      (\<lambda>res. result_status res = PGRES_TUPLES_OK \<and> mset (tuples res) = mset ?rows) t"
    unfolding execThreadSafe_def
    by (rule gives_weaken [OF gives_exec [OF assms(1)]]) (use assms(2,3) in auto)
  have found: "0 < PQntuples res \<longleftrightarrow> (unat c, unat i) \<in> set (t_subscriptions t)"
    if "mset (tuples res) = mset ?rows" for res
  proof -
    have "length (tuples res) = length ?rows" using that by (rule mset_eq_length)
    then show ?thesis by (auto simp: PQntuples_def filter_empty_conv)
  qed
  show ?thesis
    unfolding WrapperPg_hasChannelClient_def to_string_def render.simps(11) [symmetric]
    by (rule gives_connected, simp only: simp_thms if_False, rule gives_bind [OF select])
      (use found in \<open>simp del: render.simps add: gives_return\<close>)
qed

definition with_subscription :: "nat \<Rightarrow> nat \<Rightarrow> pg_tables \<Rightarrow> pg_tables" where
  "with_subscription c i t = t\<lparr>t_subscriptions := t_subscriptions t @ [(c, i)]\<rparr>"

lemma tables_ok_subscription:
  "tables_ok t \<Longrightarrow> pg_int c \<Longrightarrow> pg_int i \<Longrightarrow> tables_ok (with_subscription c i t)"
  by (simp add: tables_ok_def with_subscription_def)

text \<open>The two lookups of \<open>joinClientChannel\<close>, then what is left of it.\<close>

lemma joinClientChannel_run:
  assumes "postgres_documented L content" and "tables_ok t" and "plain n"
    and "channel_named t n = Some r" and "pg_int (unat c)" and "holds content t w"
  obtains w' where "holds content t w'"
    and "WrapperPg_joinClientChannel L E c n w =
      (if (unat c, ph_id r) \<in> set (t_subscriptions t) then (Inr (), w')
       else eff_bind (execThreadSafe L (render (InsertSubscription (unat c) (ph_id r)))) (\<lambda>res.
         if result_status res = PGRES_COMMAND_OK then
           boost_format E ''joinClientChannel: successfully add client_id=%1% to channel='' 2
         else eff_return ()) w')"
proof -
  have id: "pg_int (ph_id r)" using channel_named_in [OF assms(4)] ids_pg_int(2) [OF assms(2)] by simp
  have i: "channel_id_of t n = word_of_nat (ph_id r)" "unat (word_of_nat (ph_id r) :: u64) = ph_id r"
    using assms(4) id by (simp_all add: channel_id_of_def word_pg_int)
  obtain w1 where w1: "WrapperPg_getChannelId L n w = (Inr (word_of_nat (ph_id r)), w1)" "holds content t w1"
    using gives_run [OF getChannelId_gives [OF assms(1-3)] assms(6)] i(1) by metis
  have "pg_int (unat (word_of_nat (ph_id r) :: u64))" using id i(2) by simp
  from gives_run [OF hasChannelClient_gives [OF assms(1,5) this] w1(2)]
  obtain w2 where w2: "holds content t w2" "WrapperPg_hasChannelClient L (word_of_nat (ph_id r)) c w1 =
      (Inr ((unat c, ph_id r) \<in> set (t_subscriptions t)), w2)" unfolding i(2) by blast
  have on: "isConnected w" using assms(6) by (simp add: holds_def)
  show thesis
    by (rule that [OF w2(1)])
      (use on w1(1) w2(2) i(2) in \<open>cases "(unat c, ph_id r) \<in> set (t_subscriptions t)";
        simp add: WrapperPg_joinClientChannel_def to_string_def\<close>)
qed

lemma joinClientChannel_new:
  assumes "postgres_documented L content" and "format_documented E" and "tables_ok t" and "plain n"
    and "channel_named t n = Some r" and "pg_int (unat c)" and "holds content t w"
    and "(unat c, ph_id r) \<notin> set (t_subscriptions t)"
  obtains w' where "holds content (with_subscription (unat c) (ph_id r) t) w'"
    and "WrapperPg_joinClientChannel L E c n w = (Inl (Thrown (Format_error ''too_many_args'')), w')"
proof -
  have id: "pg_int (ph_id r)" using channel_named_in [OF assms(5)] ids_pg_int(2) [OF assms(3)] by simp
  obtain w1 where w1: "holds content t w1" and run: "WrapperPg_joinClientChannel L E c n w =
      eff_bind (execThreadSafe L (render (InsertSubscription (unat c) (ph_id r)))) (\<lambda>res.
         if result_status res = PGRES_COMMAND_OK then
           boost_format E ''joinClientChannel: successfully add client_id=%1% to channel='' 2
         else eff_return ()) w1"
    using joinClientChannel_run [OF assms(1,3-7), of E] assms(8) by metis
  have "gives content t (execThreadSafe L (render (InsertSubscription (unat c) (ph_id r))))
      (\<lambda>res. result_status res = PGRES_COMMAND_OK) (with_subscription (unat c) (ph_id r) t)"
    unfolding execThreadSafe_def
    by (rule gives_weaken [OF gives_exec [OF assms(1)]])
      (use id assms(6) in \<open>auto simp: with_subscription_def\<close>)
  from gives_run [OF this w1] obtain res w2 where
    "execThreadSafe L (render (InsertSubscription (unat c) (ph_id r))) w1 = (Inr res, w2)"
    "result_status res = PGRES_COMMAND_OK" "holds content (with_subscription (unat c) (ph_id r) t) w2"
    by metis
  then show thesis
    using that [of w2] run assms(2) by (simp add: boost_format_extra directives_def del: render.simps)
qed

lemma joinClientChannel_again:
  assumes "postgres_documented L content" and "tables_ok t" and "plain n"
    and "channel_named t n = Some r" and "pg_int (unat c)" and "holds content t w"
    and "(unat c, ph_id r) \<in> set (t_subscriptions t)"
  obtains w' where "holds content t w'" and "WrapperPg_joinClientChannel L E c n w = (Inr (), w')"
  using joinClientChannel_run [OF assms(1-6), of E] assms(7) by metis

section \<open>The history contract on the small server\<close>

lemma sample_tm_documented: "tm_documented sample_env"
  by (simp add: tm_documented_def sample_env_def tm_of_def)

interpretation mini_history:
  history_log "pg_ok Some" "pg_same Some" "pg_hist Some" "db_addMsgHistory (Pg_db mini sample_env)"
    "db_getHistory (Pg_db mini sample_env)" "\<lambda>ms ms'. mset ms = mset ms'" "\<lambda>c. pg_int (unat c)"
    "good_message Some"
  by (rule pg_history_log [OF mini_documented sample_tm_documented])

end
