(* ===== verification/Storage.thy ===== *)
theory Storage
  imports Database
begin

text \<open>
  \<open>db::Storage\<close> (\<open>database/Storage.h\<close>, \<open>database/Storage.cpp\<close>), the in-memory backend: its
  maps as a record, each member function as a function on that record, the table that makes it an
  \<open>IDatabase\<close>, the invariant between its maps, and the contracts of theory \<open>Database\<close> that it
  fulfils.
\<close>

section \<open>State and operations\<close>

record storage =
  counterId :: u64 \<comment> \<open>\<open>GeneratorId::counterId_\<close>\<close>
  nameIdUsers :: "string \<rightharpoonup> type_id_user"
  nameSettingsUsers :: "type_id_user \<rightharpoonup> input_settings"
  clientChannels :: "type_id_user \<rightharpoonup> string list"
  nameIdChannels :: "string \<rightharpoonup> type_id_user"
  history :: "type_id_user \<rightharpoonup> text_msg list"

definition empty_storage :: storage where
  "empty_storage = \<lparr>counterId = 0, nameIdUsers = Map.empty, nameSettingsUsers = Map.empty,
     clientChannels = Map.empty, nameIdChannels = Map.empty, history = Map.empty\<rparr>"

definition generate :: "storage \<Rightarrow> type_id_user \<times> storage" where
  "generate d = (counterId d + 1, d\<lparr>counterId := counterId d + 1\<rparr>)"

definition Storage_connect :: "connect_settings \<Rightarrow> storage \<Rightarrow> bool \<times> storage" where
  "Storage_connect cs d = (True, d)"

definition Storage_checkRegUser :: "input_settings \<Rightarrow> storage \<Rightarrow> type_id_user \<times> storage" where
  "Storage_checkRegUser s d =
     (if nameIdUsers d (clientName s) = None then
        let (i, d1) = generate d;
            d2 = d1\<lparr>nameIdUsers := (nameIdUsers d1)(clientName s \<mapsto> i)\<rparr>
        in (i, d2\<lparr>nameSettingsUsers := (nameSettingsUsers d2)(i \<mapsto> s)\<rparr>)
      else (REG_LOGIN_IS_BUSY, d))"

definition Storage_checkAuthUser :: "input_settings \<Rightarrow> storage \<Rightarrow> type_id_user \<times> storage" where
  "Storage_checkAuthUser s d =
     (case nameIdUsers d (clientName s) of
        Some temp_id \<Rightarrow>
          (case nameSettingsUsers d temp_id of
             Some st \<Rightarrow>
               if clientPassword st = clientPassword s then (temp_id, d)
               else (AUTH_LOGIN_IS_NOT_AVAILABLE, d)
           | None \<Rightarrow> (AUTH_LOGIN_IS_NOT_AVAILABLE, d))
      | None \<Rightarrow> (AUTH_LOGIN_IS_NOT_AVAILABLE, d))"

definition Storage_getUserNameChannels :: "type_id_user \<Rightarrow> storage \<Rightarrow> string list \<times> storage" where
  "Storage_getUserNameChannels c d =
     (case clientChannels d c of Some cs \<Rightarrow> (cs, d) | None \<Rightarrow> ([], d))"

definition Storage_getChannelUsers ::
  "type_id_user \<Rightarrow> storage \<Rightarrow> type_id_user list \<times> storage" where
  "Storage_getChannelUsers c d = ([], d)"

definition Storage_hasChannel :: "string \<Rightarrow> storage \<Rightarrow> bool \<times> storage" where
  "Storage_hasChannel n d = (nameIdChannels d n \<noteq> None, d)"

text \<open>
  The final \<open>return nameIdChannels_[channelName]\<close> default-inserts 0 when the key is missing;
  after the branch above it never is, but the read is written as the code has it.
\<close>

definition Storage_createChannel :: "string \<Rightarrow> storage \<Rightarrow> type_id_user \<times> storage" where
  "Storage_createChannel n d =
     (let d1 = (if \<not> fst (Storage_hasChannel n d) then
                  let (i, d') = generate d
                  in d'\<lparr>nameIdChannels := (nameIdChannels d')(n \<mapsto> i)\<rparr>
                else d)
      in case nameIdChannels d1 n of
           Some i \<Rightarrow> (i, d1)
         | None \<Rightarrow> (0, d1\<lparr>nameIdChannels := (nameIdChannels d1)(n \<mapsto> 0)\<rparr>))"

definition Storage_joinClientChannel ::
  "type_id_user \<Rightarrow> string \<Rightarrow> storage \<Rightarrow> unit \<times> storage" where
  "Storage_joinClientChannel c n d =
     ((), d\<lparr>clientChannels := (clientChannels d)
          (c \<mapsto> (case clientChannels d c of None \<Rightarrow> [] | Some ns \<Rightarrow> ns) @ [n])\<rparr>)"

definition Storage_addMsgHistory ::
  "type_id_user \<Rightarrow> text_msg \<Rightarrow> storage \<Rightarrow> unit \<times> storage" where
  "Storage_addMsgHistory c m d =
     ((), d\<lparr>history := (history d)
          (c \<mapsto> (case history d c of None \<Rightarrow> [] | Some ms \<Rightarrow> ms) @ [m])\<rparr>)"

definition Storage_getHistory :: "type_id_user \<Rightarrow> storage \<Rightarrow> text_msg list \<times> storage" where
  "Storage_getHistory c d = (case history d c of Some ms \<Rightarrow> (ms, d) | None \<Rightarrow> ([], d))"

definition Storage_getChannelId :: "string \<Rightarrow> storage \<Rightarrow> type_id_user \<times> storage" where
  "Storage_getChannelId n d = (0, d)"

definition Storage_getCurrentChannels :: "storage \<Rightarrow> (type_id_user \<rightharpoonup> string) \<times> storage" where
  "Storage_getCurrentChannels d = (Map.empty, d)"

definition Storage_db :: "storage idatabase" where
  "Storage_db =
     \<lparr>db_connect = (\<lambda>cs. eff_pure (Storage_connect cs)),
      db_checkRegUser = (\<lambda>s. eff_pure (Storage_checkRegUser s)),
      db_checkAuthUser = (\<lambda>s. eff_pure (Storage_checkAuthUser s)),
      db_getUserNameChannels = (\<lambda>c. eff_pure (Storage_getUserNameChannels c)),
      db_getChannelUsers = (\<lambda>c. eff_pure (Storage_getChannelUsers c)),
      db_hasChannel = (\<lambda>n. eff_pure (Storage_hasChannel n)),
      db_createChannel = (\<lambda>n. eff_pure (Storage_createChannel n)),
      db_joinClientChannel = (\<lambda>c n. eff_pure (Storage_joinClientChannel c n)),
      db_addMsgHistory = (\<lambda>c m. eff_pure (Storage_addMsgHistory c m)),
      db_getHistory = (\<lambda>c. eff_pure (Storage_getHistory c)),
      db_getChannelId = (\<lambda>n. eff_pure (Storage_getChannelId n)),
      db_getCurrentChannels = eff_pure Storage_getCurrentChannels\<rparr>"

lemmas Storage_ops =
  Storage_connect_def Storage_checkRegUser_def Storage_checkAuthUser_def
  Storage_getUserNameChannels_def Storage_getChannelUsers_def Storage_hasChannel_def
  Storage_createChannel_def Storage_joinClientChannel_def Storage_addMsgHistory_def
  Storage_getHistory_def Storage_getChannelId_def Storage_getCurrentChannels_def generate_def

section \<open>The invariant\<close>

text \<open>
  Every id in use was handed out by the generator, so it lies between 1 and the counter; names map
  to distinct ids, users and channels share no id, and the settings stored under a user's id are
  those of that user's name.
\<close>

definition used_ids :: "storage \<Rightarrow> type_id_user set" where
  "used_ids d = ran (nameIdUsers d) \<union> ran (nameIdChannels d)"

definition storage_inv :: "storage \<Rightarrow> bool" where
  "storage_inv d \<longleftrightarrow>
     (\<forall>i \<in> used_ids d. 0 < i \<and> i \<le> counterId d) \<and>
     inj_on (nameIdUsers d) (dom (nameIdUsers d)) \<and>
     inj_on (nameIdChannels d) (dom (nameIdChannels d)) \<and>
     ran (nameIdUsers d) \<inter> ran (nameIdChannels d) = {} \<and>
     dom (nameSettingsUsers d) = ran (nameIdUsers d) \<and>
     (\<forall>n i s. nameIdUsers d n = Some i \<longrightarrow> nameSettingsUsers d i = Some s \<longrightarrow> clientName s = n)"

definition storage_room :: "storage \<Rightarrow> bool" where
  "storage_room d \<longleftrightarrow> counterId d + 1 \<noteq> 0"

lemma storage_inv_empty: "storage_inv empty_storage"
  by (simp add: storage_inv_def empty_storage_def used_ids_def)

lemma counter_next:
  assumes "(c :: u64) + 1 \<noteq> 0"
  shows "c < c + 1" and "0 < c + 1"
proof -
  show "0 < c + 1" using assms by (simp add: word_gt_0)
  show "c < c + 1" using assms by unat_arith
qed

text \<open>
  The two lists of ids a fresh one is compared with both end at the counter.
\<close>

lemma fresh_id:
  assumes "storage_inv d" and "storage_room d"
  shows "counterId d + 1 \<notin> used_ids d" and "counterId d + 1 \<noteq> 0"
    and "\<forall>i \<in> used_ids d. 0 < i \<and> i \<le> counterId d + 1"
  using assms counter_next [of "counterId d"]
  by (auto simp: storage_inv_def storage_room_def)

lemma checkRegUser_cases:
  "nameIdUsers d (clientName s) = None \<Longrightarrow>
     Storage_checkRegUser s d =
       (counterId d + 1,
        d\<lparr>counterId := counterId d + 1,
          nameIdUsers := (nameIdUsers d)(clientName s \<mapsto> counterId d + 1),
          nameSettingsUsers := (nameSettingsUsers d)(counterId d + 1 \<mapsto> s)\<rparr>)"
  "nameIdUsers d (clientName s) = Some i \<Longrightarrow> Storage_checkRegUser s d = (0, d)"
  by (simp_all add: Storage_ops)

lemma createChannel_cases:
  "nameIdChannels d n = None \<Longrightarrow>
     Storage_createChannel n d =
       (counterId d + 1,
        d\<lparr>counterId := counterId d + 1,
          nameIdChannels := (nameIdChannels d)(n \<mapsto> counterId d + 1)\<rparr>)"
  "nameIdChannels d n = Some i \<Longrightarrow> Storage_createChannel n d = (i, d)"
  by (simp_all add: Storage_ops)

lemma checkRegUser_inv:
  assumes "storage_inv d" and "storage_room d"
  shows "storage_inv (snd (Storage_checkRegUser s d))"
proof (cases "nameIdUsers d (clientName s)")
  case None
  note fresh = fresh_id [OF assms]
  from fresh(1) have "counterId d + 1 \<notin> ran (nameIdUsers d)" "counterId d + 1 \<notin> ran (nameIdChannels d)"
    by (auto simp: used_ids_def)
  with None fresh assms(1) show ?thesis
    unfolding storage_inv_def checkRegUser_cases(1) [OF None]
    by (auto simp: used_ids_def ran_map_upd inj_on_def word_gt_0 dest: ranI split: if_splits)
next
  case (Some i)
  with assms(1) show ?thesis by (simp add: checkRegUser_cases)
qed

lemma createChannel_inv:
  assumes "storage_inv d" and "storage_room d"
  shows "storage_inv (snd (Storage_createChannel n d))"
proof (cases "nameIdChannels d n")
  case None
  note fresh = fresh_id [OF assms]
  from fresh(1) have "counterId d + 1 \<notin> ran (nameIdUsers d)" "counterId d + 1 \<notin> ran (nameIdChannels d)"
    by (auto simp: used_ids_def)
  with None fresh assms(1) show ?thesis
    unfolding storage_inv_def createChannel_cases(1) [OF None]
    by (auto simp: used_ids_def ran_map_upd inj_on_def word_gt_0 dest: ranI split: if_splits)
next
  case (Some i)
  with assms(1) show ?thesis by (simp add: createChannel_cases)
qed

section \<open>Sequences of calls\<close>

text \<open>
  The calls that write to the backend, and a run of them from the empty storage. One call takes at
  most one id from the generator, so the counter cannot wrap within the first \<open>2 ^ 64 - 1\<close> calls.
\<close>

datatype storage_call =
    CheckRegUser input_settings
  | CheckAuthUser input_settings
  | CreateChannel string
  | JoinClientChannel type_id_user string
  | AddMsgHistory type_id_user text_msg

fun storage_apply :: "storage_call \<Rightarrow> storage \<Rightarrow> storage" where
  "storage_apply (CheckRegUser s) d = snd (Storage_checkRegUser s d)"
| "storage_apply (CheckAuthUser s) d = snd (Storage_checkAuthUser s d)"
| "storage_apply (CreateChannel n) d = snd (Storage_createChannel n d)"
| "storage_apply (JoinClientChannel c n) d = snd (Storage_joinClientChannel c n d)"
| "storage_apply (AddMsgHistory c m) d = snd (Storage_addMsgHistory c m d)"

lemma storage_apply_inv:
  assumes "storage_inv d" and "storage_room d"
  shows "storage_inv (storage_apply c d)"
proof (cases c)
  case (CheckRegUser s)
  with assms checkRegUser_inv show ?thesis by simp
next
  case (CheckAuthUser s)
  then show ?thesis using assms by (auto simp: Storage_checkAuthUser_def split: option.split)
next
  case (CreateChannel n)
  with assms createChannel_inv show ?thesis by simp
qed (use assms in \<open>simp_all add: Storage_ops storage_inv_def used_ids_def\<close>)

lemma storage_apply_counter:
  "unat (counterId (storage_apply c d)) \<le> Suc (unat (counterId d))"
proof -
  have "unat (counterId d + 1) \<le> Suc (unat (counterId d))"
    by (simp add: unat_word_ariths)
  then show ?thesis
    by (cases c) (auto simp: Storage_ops split: option.split)
qed

lemma storage_run_inv:
  assumes "storage_inv d" and "unat (counterId d) + length cs < 2 ^ 64"
  shows "storage_inv (fold storage_apply cs d) \<and>
         unat (counterId (fold storage_apply cs d)) \<le> unat (counterId d) + length cs"
  using assms
proof (induction cs arbitrary: d)
  case Nil
  then show ?case by simp
next
  case (Cons c cs)
  have "unat (counterId d) < 2 ^ 64 - 1" using Cons.prems(2) by simp
  then have "storage_room d"
    unfolding storage_room_def by (simp add: unat_eq_zero [symmetric] unat_word_ariths)
  with Cons.prems(1) have "storage_inv (storage_apply c d)" by (rule storage_apply_inv)
  moreover have "unat (counterId (storage_apply c d)) + length cs < 2 ^ 64"
    using Cons.prems(2) storage_apply_counter [of c d] by simp
  ultimately show ?case
    using Cons.IH [of "storage_apply c d"] storage_apply_counter [of c d] by auto
qed

section \<open>The contracts Storage fulfils\<close>

definition storage_accounts :: "storage \<Rightarrow> account_map" where
  "storage_accounts d n =
     (case nameIdUsers d n of
        None \<Rightarrow> None
      | Some i \<Rightarrow> map_option (\<lambda>s. (i, clientPassword s)) (nameSettingsUsers d i))"

definition storage_history :: "storage \<Rightarrow> type_id_user \<Rightarrow> text_msg list" where
  "storage_history d c = (case history d c of None \<Rightarrow> [] | Some ms \<Rightarrow> ms)"

lemma storage_settings_total:
  assumes "storage_inv d" and "nameIdUsers d n = Some i"
  obtains s where "nameSettingsUsers d i = Some s" and "clientName s = n"
proof -
  from assms have "i \<in> dom (nameSettingsUsers d)" by (auto simp: storage_inv_def intro: ranI)
  then obtain s where "nameSettingsUsers d i = Some s" by auto
  with assms that show ?thesis by (auto simp: storage_inv_def)
qed

lemma storage_accounts_None:
  "storage_inv d \<Longrightarrow> storage_accounts d n = None \<longleftrightarrow> nameIdUsers d n = None"
  by (cases "nameIdUsers d n")
    (auto simp: storage_accounts_def elim: storage_settings_total)

lemma storage_account_ids:
  assumes "storage_inv d"
  shows "account_ids (storage_accounts d) = ran (nameIdUsers d)"
proof -
  have "i \<in> account_ids (storage_accounts d)" if "nameIdUsers d n = Some i" for n i
  proof -
    from assms that obtain s where "nameSettingsUsers d i = Some s" by (rule storage_settings_total)
    with that have "storage_accounts d n = Some (i, clientPassword s)"
      by (simp add: storage_accounts_def)
    then show ?thesis by (auto simp: account_ids_def)
  qed
  moreover have "nameIdUsers d n = Some i" if "storage_accounts d n = Some (i, p)" for n i p
    using that by (auto simp: storage_accounts_def split: option.splits)
  ultimately show ?thesis by (fastforce simp: account_ids_def ran_def)
qed

lemma storage_accounts_reg:
  assumes "storage_inv d" and "storage_room d" and "nameIdUsers d (clientName s) = None"
  shows "storage_accounts (snd (Storage_checkRegUser s d)) =
         (storage_accounts d)(clientName s \<mapsto> (counterId d + 1, clientPassword s))"
proof
  fix n
  have "counterId d + 1 \<notin> ran (nameIdUsers d)"
    using fresh_id(1) [OF assms(1,2)] by (simp add: used_ids_def)
  then show "storage_accounts (snd (Storage_checkRegUser s d)) n =
    ((storage_accounts d)(clientName s \<mapsto> (counterId d + 1, clientPassword s))) n"
    using assms(3)
    by (auto simp: checkRegUser_cases storage_accounts_def split: option.split dest: ranI)
qed

lemma storage_auth_reads:
  assumes "storage_inv d"
  shows "Storage_checkAuthUser s d = (auth_answer (storage_accounts d) s, d)"
  by (cases "nameIdUsers d (clientName s)")
    (auto simp: Storage_checkAuthUser_def auth_answer_def storage_accounts_def split: option.split)

interpretation storage_users:
  user_registry storage_inv "(=)" storage_accounts "db_checkRegUser Storage_db"
    "db_checkAuthUser Storage_db" storage_room "\<lambda>_. True"
proof
  fix d :: storage and s :: input_settings
  assume "storage_inv d" and "storage_room d" and "storage_accounts d (clientName s) = None"
  moreover from this have None: "nameIdUsers d (clientName s) = None"
    by (simp add: storage_accounts_None)
  ultimately show "\<exists>i d'. db_checkRegUser Storage_db s d = (Inr i, d') \<and> storage_inv d' \<and>
      i \<noteq> REG_LOGIN_IS_BUSY \<and> i \<notin> account_ids (storage_accounts d) \<and>
      storage_accounts d' = (storage_accounts d)(clientName s \<mapsto> (i, clientPassword s))"
    using checkRegUser_inv [of d s] storage_accounts_reg [of d s] fresh_id [of d]
    by (auto simp: Storage_db_def checkRegUser_cases storage_account_ids used_ids_def)
next
  fix d :: storage and s :: input_settings and a
  assume "storage_inv d" and "storage_accounts d (clientName s) = Some a"
  then obtain i where "nameIdUsers d (clientName s) = Some i"
    by (cases "nameIdUsers d (clientName s)") (auto simp: storage_accounts_def)
  then show "\<exists>d'. db_checkRegUser Storage_db s d = (Inr REG_LOGIN_IS_BUSY, d') \<and> d = d'"
    by (simp add: Storage_db_def checkRegUser_cases)
next
  fix d :: storage and s :: input_settings
  assume "storage_inv d"
  then show "\<exists>d'. db_checkAuthUser Storage_db s d = (Inr (auth_answer (storage_accounts d) s), d')
      \<and> d = d'"
    by (simp add: Storage_db_def storage_auth_reads)
next
  fix d :: storage
  assume "storage_inv d"
  then show "0 \<notin> account_ids (storage_accounts d)"
    by (auto simp: storage_account_ids storage_inv_def used_ids_def)
qed simp

interpretation storage_names:
  channel_directory storage_inv "(=)" nameIdChannels "db_hasChannel Storage_db"
    "db_createChannel Storage_db" storage_room "\<lambda>_. True"
proof
  fix d :: storage and n
  show "\<exists>d'. db_hasChannel Storage_db n d = (Inr (nameIdChannels d n \<noteq> None), d') \<and> d = d'"
    by (simp add: Storage_db_def Storage_hasChannel_def)
next
  fix d :: storage and n
  assume "storage_inv d" and "storage_room d" and "nameIdChannels d n = None"
  then show "\<exists>i d'. db_createChannel Storage_db n d = (Inr i, d') \<and> storage_inv d' \<and>
      i \<noteq> 0 \<and> i \<notin> ran (nameIdChannels d) \<and> nameIdChannels d' = (nameIdChannels d)(n \<mapsto> i)"
    using createChannel_inv [of d n] fresh_id [of d]
    by (auto simp: Storage_db_def createChannel_cases used_ids_def)
next
  fix d :: storage and n i
  assume "nameIdChannels d n = Some i"
  then show "\<exists>d'. db_createChannel Storage_db n d = (Inr i, d') \<and> d = d'"
    by (simp add: Storage_db_def createChannel_cases)
qed auto

interpretation storage_log:
  history_log storage_inv "(=)" storage_history "db_addMsgHistory Storage_db"
    "db_getHistory Storage_db" "(=)" "\<lambda>_. True" "\<lambda>_ _ _. True"
proof
  fix c d
  show "\<exists>ms d'. db_getHistory Storage_db c d = (Inr ms, d') \<and> ms = storage_history d c \<and> d = d'"
    by (simp add: Storage_db_def Storage_getHistory_def storage_history_def split: option.split)
next
  fix c m d
  assume "storage_inv d"
  then show "\<exists>d'. db_addMsgHistory Storage_db c m d = (Inr (), d') \<and> storage_inv d' \<and>
      storage_history d' = (storage_history d)(c := storage_history d c @ [m])"
    by (auto simp: Storage_db_def Storage_addMsgHistory_def storage_history_def fun_eq_iff
        storage_inv_def used_ids_def split: option.split)
qed simp

section \<open>An abstract specification of the backend\<close>

text \<open>
  What \<open>Storage\<close> promises, without its representation: accounts and channels in one map each,
  ids as unbounded numbers from one counter, and a history for every channel. \<open>storage_abs\<close> reads
  it off the five maps.
\<close>

record backend =
  bk_next :: nat
  bk_accounts :: "string \<rightharpoonup> nat \<times> string"
  bk_channels :: "string \<rightharpoonup> nat"
  bk_joined :: "type_id_user \<Rightarrow> string list"
  bk_history :: "type_id_user \<Rightarrow> text_msg list"

definition backend_empty :: backend where
  "backend_empty = \<lparr>bk_next = 0, bk_accounts = Map.empty, bk_channels = Map.empty,
     bk_joined = (\<lambda>_. []), bk_history = (\<lambda>_. [])\<rparr>"

fun backend_apply :: "storage_call \<Rightarrow> backend \<Rightarrow> backend" where
  "backend_apply (CheckRegUser s) a =
     (if bk_accounts a (clientName s) = None then
        a\<lparr>bk_next := Suc (bk_next a),
          bk_accounts := (bk_accounts a)(clientName s \<mapsto> (Suc (bk_next a), clientPassword s))\<rparr>
      else a)"
| "backend_apply (CheckAuthUser s) a = a"
| "backend_apply (CreateChannel n) a =
     (if bk_channels a n = None then
        a\<lparr>bk_next := Suc (bk_next a), bk_channels := (bk_channels a)(n \<mapsto> Suc (bk_next a))\<rparr>
      else a)"
| "backend_apply (JoinClientChannel c n) a =
     a\<lparr>bk_joined := (bk_joined a)(c := bk_joined a c @ [n])\<rparr>"
| "backend_apply (AddMsgHistory c m) a =
     a\<lparr>bk_history := (bk_history a)(c := bk_history a c @ [m])\<rparr>"

definition storage_joined :: "storage \<Rightarrow> type_id_user \<Rightarrow> string list" where
  "storage_joined d c = (case clientChannels d c of None \<Rightarrow> [] | Some ns \<Rightarrow> ns)"

definition storage_abs :: "storage \<Rightarrow> backend" where
  "storage_abs d =
     \<lparr>bk_next = unat (counterId d),
      bk_accounts = (\<lambda>n. map_option (\<lambda>(i, p). (unat i, p)) (storage_accounts d n)),
      bk_channels = (\<lambda>n. map_option unat (nameIdChannels d n)),
      bk_joined = storage_joined d,
      bk_history = storage_history d\<rparr>"

lemma counter_suc:
  assumes "storage_room d"
  shows "unat (counterId d + 1) = Suc (unat (counterId d))"
proof -
  have "unat (counterId d) < 2 ^ LENGTH(64)" by (rule unsigned_less)
  with assms show ?thesis
    by (simp add: storage_room_def unat_eq_zero [symmetric] unat_word_ariths mod_Suc split: if_splits)
qed

lemma storage_abs_call:
  assumes "storage_inv d" and "storage_room d"
  shows "storage_abs (storage_apply c d) = backend_apply c (storage_abs d)"
proof (cases c)
  case (CheckRegUser s)
  show ?thesis
  proof (cases "nameIdUsers d (clientName s)")
    case None
    with assms CheckRegUser storage_accounts_reg [OF assms None] counter_suc [OF assms(2)]
    show ?thesis
      by (simp add: storage_abs_def storage_accounts_None checkRegUser_cases storage_joined_def
          storage_history_def fun_eq_iff)
  next
    case (Some i)
    then have "storage_accounts d (clientName s) \<noteq> None"
      using assms(1) by (simp add: storage_accounts_None)
    with Some CheckRegUser show ?thesis
      by (auto simp: storage_abs_def checkRegUser_cases)
  qed
next
  case (CreateChannel n)
  with counter_suc [OF assms(2)] show ?thesis
    by (cases "nameIdChannels d n")
      (auto simp: storage_abs_def createChannel_cases storage_joined_def storage_history_def
        storage_accounts_def fun_eq_iff split: option.split)
next
  case (CheckAuthUser s)
  then show ?thesis by (auto simp: Storage_checkAuthUser_def split: option.split)
next
  case (JoinClientChannel i n)
  then show ?thesis
    by (auto simp: storage_abs_def Storage_joinClientChannel_def storage_joined_def
        storage_history_def storage_accounts_def fun_eq_iff split: option.split)
next
  case (AddMsgHistory i m)
  then show ?thesis
    by (auto simp: storage_abs_def Storage_addMsgHistory_def storage_joined_def
        storage_history_def storage_accounts_def fun_eq_iff split: option.split)
qed

lemma room_within: "unat (counterId d) + length (c # cs) < 2 ^ 64 \<Longrightarrow> storage_room d"
  unfolding storage_room_def by (simp add: unat_eq_zero [symmetric] unat_word_ariths)

lemma storage_abs_run:
  assumes "storage_inv d" and "unat (counterId d) + length cs < 2 ^ 64"
  shows "storage_abs (fold storage_apply cs d) = fold backend_apply cs (storage_abs d)"
  using assms
proof (induction cs arbitrary: d)
  case (Cons c cs)
  have room: "storage_room d" using Cons.prems(2) by (rule room_within)
  moreover have "unat (counterId (storage_apply c d)) + length cs < 2 ^ 64"
    using Cons.prems(2) storage_apply_counter [of c d] by simp
  ultimately show ?case
    using Cons.IH [of "storage_apply c d"] Cons.prems(1)
    by (simp add: storage_apply_inv storage_abs_call)
qed simp

lemma storage_abs_empty: "storage_abs empty_storage = backend_empty"
  by (simp add: storage_abs_def empty_storage_def backend_empty_def storage_accounts_def
      storage_joined_def storage_history_def fun_eq_iff)

lemma history_run:
  "storage_history (fold storage_apply cs d) c =
   storage_history d c @ List.map_filter (\<lambda>k. case k of AddMsgHistory c' m \<Rightarrow>
      if c' = c then Some m else None | _ \<Rightarrow> None) cs"
proof (induction cs arbitrary: d)
  case (Cons k cs)
  have "storage_history (storage_apply k d) c = storage_history d c @
      (case k of AddMsgHistory c' m \<Rightarrow> if c' = c then [m] else [] | _ \<Rightarrow> [])"
    by (cases k) (auto simp: Storage_ops storage_history_def split: option.split)
  with Cons [of "storage_apply k d"] show ?case
    by (cases k) (auto simp: map_filter_simps)
qed (simp add: map_filter_simps)

section \<open>Properties\<close>

text \<open>C5: After any sequence of fewer than \<open>2 ^ 64\<close> calls on a new \<open>Storage\<close>, its five maps
  represent exactly the state of the abstract backend after the same calls: the code's maps refine
  one account table, one channel table, the joined channels and the histories.\<close>

theorem storage_refines_backend:
  assumes "length cs < 2 ^ 64"
  shows "storage_abs (fold storage_apply cs empty_storage) = fold backend_apply cs backend_empty"
proof -
  have "unat (counterId empty_storage) + length cs < 2 ^ 64"
    using assms by (simp add: empty_storage_def)
  from storage_abs_run [OF storage_inv_empty this] show ?thesis by (simp add: storage_abs_empty)
qed

lemma storage_refines_backend_witness:
  "bk_accounts (storage_abs (fold storage_apply
     [CheckRegUser \<lparr>clientName = ''ann'', clientPassword = ''x''\<rparr>, CreateChannel ''c'',
      CheckRegUser \<lparr>clientName = ''bob'', clientPassword = ''y''\<rparr>] empty_storage)) ''bob'' =
   Some (3, ''y'')"
  by (subst storage_refines_backend) (simp_all add: backend_empty_def)

text \<open>The maps stay consistent in every such state: ids are between 1 and the counter, users
  and channels share none, names are distinct, and every account has settings under its own name.\<close>

theorem storage_wellformed:
  assumes "length cs < 2 ^ 64"
  shows "storage_inv (fold storage_apply cs empty_storage)"
  using storage_run_inv [OF storage_inv_empty, of cs] assms by (simp add: empty_storage_def)

lemma storage_wellformed_witness:
  "storage_inv (fold storage_apply
     [CheckRegUser \<lparr>clientName = ''ann'', clientPassword = ''x''\<rparr>, CreateChannel ''c''] empty_storage)"
  by (rule storage_wellformed) simp

text \<open>The id generator wraps. With the counter at its maximum, a registration of a free login
  stores the account under id 0 and answers with that id, which is the code for a busy login.\<close>

theorem registration_at_wrap:
  assumes "counterId d = - 1" and "nameIdUsers d (clientName s) = None"
  shows "fst (Storage_checkRegUser s d) = REG_LOGIN_IS_BUSY \<and>
    nameIdUsers (snd (Storage_checkRegUser s d)) (clientName s) = Some 0 \<and>
    fst (Storage_checkAuthUser s (snd (Storage_checkRegUser s d))) = AUTH_LOGIN_IS_NOT_AVAILABLE"
  using assms by (simp add: checkRegUser_cases Storage_checkAuthUser_def)

lemma registration_at_wrap_witness:
  "fst (Storage_checkRegUser \<lparr>clientName = ''ann'', clientPassword = ''x''\<rparr>
     (empty_storage\<lparr>counterId := - 1\<rparr>)) = REG_LOGIN_IS_BUSY"
  by (rule registration_at_wrap [THEN conjunct1]) (simp_all add: empty_storage_def)

text \<open>Registration of a free login succeeds with an id nobody has, and the same credentials
  then authorise with that id, whatever other calls that stay within the id range come between.\<close>

theorem register_then_authorise:
  assumes "storage_inv d" and "nameIdUsers d (clientName s) = None"
    and "Storage_checkRegUser s d = (i, d')" and "unat (counterId d) + length cs + 1 < 2 ^ 64"
  shows "i \<noteq> REG_LOGIN_IS_BUSY \<and> i \<notin> used_ids d \<and>
    fst (Storage_checkAuthUser s (fold storage_apply cs d')) = i"
proof -
  have room: "storage_room d" using assms(4) by (intro room_within [of _ undefined cs]) simp
  have d': "d' = storage_apply (CheckRegUser s) d" and i: "i = counterId d + 1"
    using assms(2,3) by (auto simp: checkRegUser_cases)
  have inv: "storage_inv d'" unfolding d' using assms(1) room by (rule storage_apply_inv)
  have small: "unat (counterId d') + length cs < 2 ^ 64"
    using storage_apply_counter [of "CheckRegUser s" d] assms(4) d' by simp
  have acc: "bk_accounts (fold backend_apply cs a) n = bk_accounts a n"
    if "bk_accounts a n \<noteq> None" for a n
    using that
  proof (induction cs arbitrary: a)
    case (Cons k ks)
    have "bk_accounts (backend_apply k a) n = bk_accounts a n" using Cons.prems by (cases k) auto
    with Cons show ?case by simp
  qed simp
  have "bk_accounts (storage_abs d') (clientName s) = Some (unat i, clientPassword s)"
    using storage_accounts_reg [OF assms(1) room assms(2)] d' i by (simp add: storage_abs_def)
  then have "bk_accounts (storage_abs (fold storage_apply cs d')) (clientName s) =
      Some (unat i, clientPassword s)"
    using acc [of "storage_abs d'" "clientName s"] storage_abs_run [OF inv small] by simp
  then have "storage_accounts (fold storage_apply cs d') (clientName s) = Some (i, clientPassword s)"
    by (auto simp: storage_abs_def word_unat_eq_iff)
  moreover have "storage_inv (fold storage_apply cs d')"
    using storage_run_inv [OF inv small] by simp
  ultimately show ?thesis
    using fresh_id [OF assms(1) room] i by (simp add: storage_auth_reads auth_answer_def)
qed

lemma register_then_authorise_witness:
  "fst (Storage_checkAuthUser \<lparr>clientName = ''ann'', clientPassword = ''x''\<rparr>
     (fold storage_apply [CreateChannel ''c'', CheckRegUser \<lparr>clientName = ''ann'', clientPassword = ''z''\<rparr>]
       (snd (Storage_checkRegUser \<lparr>clientName = ''ann'', clientPassword = ''x''\<rparr> empty_storage)))) = 1"
proof -
  let ?s = "\<lparr>clientName = ''ann'', clientPassword = ''x''\<rparr>"
  have reg: "Storage_checkRegUser ?s empty_storage = (1, snd (Storage_checkRegUser ?s empty_storage))"
    and free: "nameIdUsers empty_storage (clientName ?s) = None"
    by (simp_all add: Storage_ops empty_storage_def)
  show ?thesis
    by (rule register_then_authorise [OF storage_inv_empty free reg, THEN conjunct2, THEN conjunct2])
      (simp add: empty_storage_def)
qed

text \<open>Authorisation answers an id exactly for the login and password of an account: no wrong
  password and no unknown login is accepted, no right one refused, and nothing is written.\<close>

theorem authorisation_exact:
  assumes "storage_inv d"
  shows "snd (Storage_checkAuthUser s d) = d \<and>
    (fst (Storage_checkAuthUser s d) = i \<and> i \<noteq> AUTH_LOGIN_IS_NOT_AVAILABLE \<longleftrightarrow>
     nameIdUsers d (clientName s) = Some i \<and>
     map_option clientPassword (nameSettingsUsers d i) = Some (clientPassword s))"
proof -
  have "i \<noteq> 0" if "nameIdUsers d (clientName s) = Some i"
    using that assms by (auto simp: storage_inv_def used_ids_def dest: ranI)
  then show ?thesis by (auto simp: Storage_checkAuthUser_def split: option.splits)
qed

lemma authorisation_exact_witness:
  "fst (Storage_checkAuthUser \<lparr>clientName = ''ann'', clientPassword = ''x''\<rparr> empty_storage) \<noteq> 5"
  using authorisation_exact [OF storage_inv_empty, of "\<lparr>clientName = ''ann'', clientPassword = ''x''\<rparr>" 5]
  by (simp add: empty_storage_def)

text \<open>\<open>getHistory\<close> of a channel returns the messages added under its id, all of them and in the
  order they were added, across any sequence of calls.\<close>

theorem history_complete:
  "Storage_getHistory c (fold storage_apply cs empty_storage) =
   (List.map_filter (\<lambda>k. case k of AddMsgHistory c' m \<Rightarrow> if c' = c then Some m else None | _ \<Rightarrow> None) cs,
    fold storage_apply cs empty_storage)"
proof -
  have "Storage_getHistory c d = (storage_history d c, d)" for d
    by (simp add: Storage_getHistory_def storage_history_def split: option.split)
  then show ?thesis by (simp add: history_run) (simp add: storage_history_def empty_storage_def)
qed

text \<open>Creating two channels gives the same id exactly when their names are the same.\<close>

theorem channel_ids_distinct:
  assumes "storage_inv d" and "storage_room d"
    and "Storage_createChannel n d = (i, d1)" and "storage_room d1"
    and "Storage_createChannel m d1 = (j, d2)"
  shows "i \<noteq> 0 \<and> (i = j \<longleftrightarrow> n = m) \<and> nameIdChannels d2 n = Some i \<and> nameIdChannels d2 m = Some j"
proof -
  have inv1: "storage_inv d1" and inv2: "storage_inv d2"
    using createChannel_inv [OF assms(1,2), of n] assms(3) createChannel_inv [of d1 m] assms(4,5)
    by simp_all
  have n: "nameIdChannels d1 n = Some i"
    using assms(3) by (cases "nameIdChannels d n") (auto simp: createChannel_cases)
  have m: "nameIdChannels d2 m = Some j" and keep: "nameIdChannels d2 n = Some i"
    using assms(5) n by (cases "nameIdChannels d1 m"; auto simp: createChannel_cases)+
  have "inj_on (nameIdChannels d2) (dom (nameIdChannels d2))" using inv2 by (simp add: storage_inv_def)
  then have "i = j \<Longrightarrow> n = m" using m keep by (auto dest!: inj_onD [where x = n and y = m])
  moreover have "i \<noteq> 0" using keep inv2 by (auto simp: storage_inv_def used_ids_def dest: ranI)
  ultimately show ?thesis using m keep by auto
qed

lemma channel_ids_distinct_witness:
  "fst (Storage_createChannel ''b'' (snd (Storage_createChannel ''a'' empty_storage))) \<noteq>
   fst (Storage_createChannel ''a'' empty_storage)"
proof -
  have room: "storage_room empty_storage" "storage_room (snd (Storage_createChannel ''a'' empty_storage))"
    by (simp_all add: storage_room_def Storage_ops empty_storage_def)
  show ?thesis
    using channel_ids_distinct [OF storage_inv_empty room(1) prod.collapse [symmetric] room(2)
        prod.collapse [symmetric], of "''b''"] by force
qed

end
