(* ===== verification/Channels.thy ===== *)
theory Channels
  imports Session_Write Storage
begin

text \<open>
  \<open>channels/Channel.h\<close>, \<open>channels/Channel.cpp\<close>: the channel object. A member function takes the
  \<open>channelPtr\<close> it is called through; calling through null is a failure. A loop over the unordered
  set \<open>idUsers_\<close> runs in an order the implementation chooses, so the operation that has one
  takes a function \<open>ord\<close> from the set to the list of its elements; \<open>enumerates\<close> states that it
  lists each element once.
\<close>

section \<open>Operations\<close>

fun insert_all :: "type_id_user list \<Rightarrow> type_id_user set \<Rightarrow> type_id_user set" where
  "insert_all [] S = S"
| "insert_all (i # is) S = insert_all is (insert i S)"

definition Channel_new :: "'db idatabase \<Rightarrow> string \<Rightarrow> type_id_user \<Rightarrow> ('db world, channel) eff" where
  "Channel_new D name i =
     (if name = [] then eff_throw (Invalid_argument ''Channel: empty name'')
      else if i = 0 then eff_throw (Invalid_argument ''Channel: id equal zero'')
      else
        eff_bind (eff_gets w_db) (\<lambda>db.
        case db of
          None \<Rightarrow> eff_return \<lparr>ch_name = name, ch_id = i, idUsers = {}\<rparr>
        | Some _ \<Rightarrow>
            eff_bind (on_db (db_getChannelUsers D i)) (\<lambda>users_id.
            eff_return \<lparr>ch_name = name, ch_id = i, idUsers = insert_all users_id {}\<rparr>)))"

definition idUsers_insert :: "channel_ref \<Rightarrow> type_id_user \<Rightarrow> ('db world, unit) eff" where
  "idUsers_insert r i = eff_modify (\<lambda>w.
     case w_heap w r of
       None \<Rightarrow> w
     | Some c \<Rightarrow> w\<lparr>w_heap := (w_heap w)(r \<mapsto> c\<lparr>idUsers := insert i (idUsers c)\<rparr>)\<rparr>)"

definition Channel_addUser :: "env \<Rightarrow> channel_ptr \<Rightarrow> type_id_user \<Rightarrow> ('db world, unit) eff" where
  "Channel_addUser E p client_id =
     eff_bind (deref p) (\<lambda>(r, c).
     eff_bind (eff_gets w_users) (\<lambda>manager.
     case manager of
       None \<Rightarrow> eff_return ()
     | Some _ \<Rightarrow>
         if client_id \<notin> idUsers c then
           eff_bind (idUsers_insert r client_id) (\<lambda>_.
           eff_bind (getUser client_id) (\<lambda>user.
           case user of
             None \<Rightarrow> eff_return ()
           | Some u \<Rightarrow>
               eff_bind (write_if_alive (u_session u)
                           (serialize E (JoinRoomResponseMsg (ch_name c) True))) (\<lambda>_.
               eff_return ())))
         else eff_return ()))"

definition newer_than :: "env \<Rightarrow> datetime \<Rightarrow> text_msg \<Rightarrow> bool" where
  "newer_than E since msg \<longleftrightarrow>
     dt_equal E since (default_DateTime E) \<or> dt_less E since (msg_dt msg)"

definition Channel_sendHistory ::
  "'db idatabase \<Rightarrow> env \<Rightarrow> channel_ptr \<Rightarrow> type_id_user \<Rightarrow> datetime \<Rightarrow> ('db world, unit) eff" where
  "Channel_sendHistory D E p client_id since =
     eff_bind (deref p) (\<lambda>(r, c).
     eff_bind (eff_gets w_users) (\<lambda>manager.
     case manager of
       None \<Rightarrow> eff_return ()
     | Some _ \<Rightarrow>
         if client_id \<notin> idUsers c then eff_return ()
         else
           eff_bind (getUser client_id) (\<lambda>clientPtr.
           case clientPtr of
             None \<Rightarrow> eff_return ()
           | Some u \<Rightarrow>
               eff_bind (lock_session (u_session u)) (\<lambda>alive.
               if alive then
                 eff_bind (eff_gets w_db) (\<lambda>db.
                 eff_bind (case db of
                             None \<Rightarrow> eff_return []
                           | Some _ \<Rightarrow>
                               eff_bind (on_db (db_getHistory D (ch_id c))) (\<lambda>history.
                               eff_return (filter (newer_than E since) history)))
                   (\<lambda>responseHistory.
                 if responseHistory \<noteq> [] then
                   eff_bind (ClientSession_write (u_session u)
                       (serialize E (HistoryResponseMsg (ch_name c) responseHistory))) (\<lambda>_.
                   eff_return ())
                 else eff_return ()))
               else eff_return ()))))"

text \<open>
  The loop of \<open>Channel::write\<close>. \<open>buffer\<close> is the one local variable all iterations move from, so
  it is an argument of the recursion.
\<close>

fun write_loop :: "type_id_user list \<Rightarrow> bytes \<Rightarrow> ('db world, unit) eff" where
  "write_loop [] buffer = eff_return ()"
| "write_loop (i # is) buffer =
     eff_bind (getUser i) (\<lambda>user.
     case user of
       None \<Rightarrow> write_loop is buffer
     | Some u \<Rightarrow>
         eff_bind (write_if_alive (u_session u) buffer) (\<lambda>buffer'.
         write_loop is buffer'))"

definition Channel_write ::
  "'db idatabase \<Rightarrow> env \<Rightarrow> (type_id_user set \<Rightarrow> type_id_user list) \<Rightarrow> channel_ptr \<Rightarrow> text_msg
     \<Rightarrow> ('db world, unit) eff" where
  "Channel_write D E ord p message =
     eff_bind (deref p) (\<lambda>(r, c).
     eff_bind (eff_gets w_users) (\<lambda>manager.
     case manager of
       None \<Rightarrow> eff_return ()
     | Some _ \<Rightarrow>
         eff_bind (write_loop (ord (idUsers c)) (serialize E (EchoResponseMsg message))) (\<lambda>_.
         eff_bind (eff_gets w_db) (\<lambda>db.
         case db of
           None \<Rightarrow> eff_return ()
         | Some _ \<Rightarrow> on_db (db_addMsgHistory D (ch_id c) message)))))"

section \<open>Construction\<close>

lemma insert_all_set [simp]: "insert_all is S = set is \<union> S"
  by (induction "is" arbitrary: S) auto

lemma Channel_new_ok:
  assumes "Channel_new D name i w = (Inr c, w')"
  shows "channel_ok c" and "ch_name c = name" and "ch_id c = i" and "name \<noteq> []" and "i \<noteq> 0"
proof -
  have *: "name \<noteq> [] \<and> i \<noteq> 0 \<and> (\<exists>us. c = \<lparr>ch_name = name, ch_id = i, idUsers = set us\<rparr>)"
  proof (cases "w_db w")
    case None
    with assms show ?thesis
      by (auto simp: Channel_new_def split: if_splits intro: exI [of _ "[]"])
  next
    case (Some d)
    with assms show ?thesis
      by (auto simp: Channel_new_def split: if_splits elim!: eff_bind_cases)
  qed
  then show "channel_ok c" and "ch_name c = name" and "ch_id c = i" and "name \<noteq> []" and "i \<noteq> 0"
    by (auto simp: channel_ok_def)
qed

lemma Channel_new_rejects:
  "Channel_new D [] i w = (Inl (Thrown (Invalid_argument ''Channel: empty name'')), w)"
  "name \<noteq> [] \<Longrightarrow>
   Channel_new D name 0 w = (Inl (Thrown (Invalid_argument ''Channel: id equal zero'')), w)"
  by (simp_all add: Channel_new_def)

lemma Channel_new_keeps [keeps_rules]: "keeps world_inv (Channel_new D name i)"
  unfolding Channel_new_def by (intro keeps_rules) simp

lemma Channel_new_frame:
  assumes "Channel_new D name i w = (r, w')"
  shows "\<exists>d. w' = w\<lparr>w_db := d\<rparr>"
proof (cases "w_db w")
  case None
  with assms show ?thesis
    by (auto simp: Channel_new_def split: if_splits intro: exI [of _ "w_db w"])
next
  case (Some d)
  with assms show ?thesis
    by (auto simp: Channel_new_def split: if_splits elim!: eff_bind_cases
        intro: exI [of _ "w_db w"])
qed

section \<open>Joining\<close>

lemma idUsers_insert_run:
  "w_heap w r = Some c \<Longrightarrow>
   idUsers_insert r i w =
     (Inr (), w\<lparr>w_heap := (w_heap w)(r \<mapsto> c\<lparr>idUsers := insert i (idUsers c)\<rparr>)\<rparr>)"
  by (simp add: idUsers_insert_def)

lemma idUsers_insert_keeps [keeps_rules]: "keeps world_inv (idUsers_insert r i)"
  unfolding idUsers_insert_def
proof (rule keeps_modify)
  fix w :: "'a world"
  assume w: "world_inv w"
  show "world_inv (case w_heap w r of None \<Rightarrow> w
      | Some c \<Rightarrow> w\<lparr>w_heap := (w_heap w)(r \<mapsto> c\<lparr>idUsers := insert i (idUsers c)\<rparr>)\<rparr>)"
  proof (cases "w_heap w r")
    case None
    with w show ?thesis by simp
  next
    case (Some c)
    with w have "channel_ok c" by (auto simp: world_inv_def heap_ok_def)
    then have "channel_ok (c\<lparr>idUsers := insert i (idUsers c)\<rparr>)" by (simp add: channel_ok_def)
    with w Some show ?thesis by (auto intro: world_inv_update_channel)
  qed
qed

lemma Channel_addUser_keeps [keeps_rules]: "keeps world_inv (Channel_addUser E p i)"
  unfolding Channel_addUser_def by (intro keeps_rules)

text \<open>What \<open>addUser\<close> does, by branch: membership is recorded before the user is looked up.\<close>

lemma addUser_member:
  "w_heap w r = Some c \<Longrightarrow> i \<in> idUsers c \<Longrightarrow> Channel_addUser E (Some r) i w = (Inr (), w)"
  by (cases "w_users w") (simp_all add: Channel_addUser_def)

lemma addUser_new:
  assumes "w_heap w r = Some c" and "w_users w = Some um" and "i \<notin> idUsers c"
  shows "Channel_addUser E (Some r) i w =
    (Inr (),
     (case UserManager_getUser i um of
        None \<Rightarrow> id
      | Some u \<Rightarrow>
          if u_session u \<in> w_sessions w
          then enqueue [(u_session u, serialize E (JoinRoomResponseMsg (ch_name c) True))]
          else id)
     (w\<lparr>w_heap := (w_heap w)(r \<mapsto> c\<lparr>idUsers := insert i (idUsers c)\<rparr>)\<rparr>))"
  using assms by (cases "UserManager_getUser i um") (simp_all add: Channel_addUser_def idUsers_insert_run)

lemma addUser_null: "Channel_addUser E None i w = (Inl Null_pointer, w)"
  by (simp add: Channel_addUser_def)

section \<open>Sending the history\<close>

lemma Channel_sendHistory_keeps [keeps_rules]: "keeps world_inv (Channel_sendHistory D E p i since)"
  unfolding Channel_sendHistory_def lock_session_def
  by (intro keeps_rules) simp

lemma sendHistory_non_member:
  "w_heap w r = Some c \<Longrightarrow> i \<notin> idUsers c \<Longrightarrow>
   Channel_sendHistory D E (Some r) i since w = (Inr (), w)"
  by (cases "w_users w") (simp_all add: Channel_sendHistory_def)

lemma sendHistory_member:
  assumes "w_heap w r = Some c" and "w_users w = Some um" and "i \<in> idUsers c"
    and "UserManager_getUser i um = Some u" and "u_session u \<in> w_sessions w"
    and "w_db w = Some d" and "db_getHistory D (ch_id c) d = (Inr msgs, d')"
  shows "Channel_sendHistory D E (Some r) i since w =
    (Inr (),
     enqueue (if filter (newer_than E since) msgs = [] then []
              else [(u_session u, serialize E
                       (HistoryResponseMsg (ch_name c) (filter (newer_than E since) msgs)))])
       (w\<lparr>w_db := Some d'\<rparr>))"
  using assms by (simp add: Channel_sendHistory_def lock_session_def)

section \<open>Writing to the members\<close>

definition enumerates :: "(type_id_user set \<Rightarrow> type_id_user list) \<Rightarrow> bool" where
  "enumerates ord \<longleftrightarrow> (\<forall>S. finite S \<longrightarrow> set (ord S) = S \<and> distinct (ord S))"

text \<open>The live sessions of a list of users, in order.\<close>

definition live_session :: "user_manager \<Rightarrow> session set \<Rightarrow> type_id_user \<Rightarrow> session option" where
  "live_session um S i =
     (case UserManager_getUser i um of
        None \<Rightarrow> None
      | Some u \<Rightarrow> if u_session u \<in> S then Some (u_session u) else None)"

definition recipients :: "user_manager \<Rightarrow> session set \<Rightarrow> type_id_user list \<Rightarrow> session list" where
  "recipients um S is = List.map_filter (live_session um S) is"

lemma recipients_simps [simp]:
  "recipients um S [] = []"
  "recipients um S (i # is) =
     (case live_session um S i of None \<Rightarrow> recipients um S is | Some s \<Rightarrow> s # recipients um S is)"
  by (simp_all add: recipients_def map_filter_simps split: option.split)

text \<open>
  What the loop posts for a list of recipients: the first task takes the buffer with it, the tasks
  after it are given what is left, an empty vector.
\<close>

fun fanout :: "bytes \<Rightarrow> session list \<Rightarrow> write_task list" where
  "fanout b [] = []"
| "fanout b (s # ss) = (s, b) # fanout [] ss"

lemma fanout_sessions [simp]: "map fst (fanout b ss) = ss"
  by (induction ss arbitrary: b) auto

lemma fanout_empty: "fanout [] ss = map (\<lambda>s. (s, [])) ss"
  by (induction ss) auto

lemma fanout_eq_broadcast: "fanout b ss = map (\<lambda>s. (s, b)) ss \<longleftrightarrow> b = [] \<or> length ss \<le> 1"
  by (cases ss rule: remdups_adj.cases) (auto simp: fanout_empty)

lemma write_loop_run:
  assumes "w_users w = Some um" and "w_queue w \<noteq> None"
  shows "write_loop is b w = (Inr (), enqueue (fanout b (recipients um (w_sessions w) is)) w)"
  using assms
proof (induction "is" arbitrary: b w)
  case Nil
  then show ?case by simp
next
  case (Cons i "is")
  then show ?case
    by (cases "UserManager_getUser i um") (simp_all add: live_session_def)
qed

lemma write_loop_no_queue:
  "w_users w = Some um \<Longrightarrow> w_queue w = None \<Longrightarrow> write_loop is b w = (Inr (), w)"
proof (induction "is" arbitrary: b)
  case (Cons i "is")
  moreover have "enqueue ts w = w" for ts using Cons.prems(2) by (simp add: enqueue_def)
  then have "write_if_alive s b w = (Inr b, w)" for s
    using Cons.prems(2) by (cases "s \<in> w_sessions w") simp_all
  ultimately show ?case by (cases "UserManager_getUser i um") simp_all
qed simp

lemma write_loop_keeps [keeps_rules]: "keeps world_inv (write_loop is b)"
  by (induction "is" arbitrary: b) (auto intro!: keeps_rules)

lemma Channel_write_keeps [keeps_rules]: "keeps world_inv (Channel_write D E ord p m)"
  unfolding Channel_write_def by (intro keeps_rules) simp

lemma Channel_write_run:
  assumes "w_heap w r = Some c" and "w_users w = Some um" and "w_queue w \<noteq> None"
    and "w_db w = Some d"
  shows "Channel_write D E ord (Some r) m w =
    (fst (db_addMsgHistory D (ch_id c) m d),
     (enqueue (fanout (serialize E (EchoResponseMsg m))
                (recipients um (w_sessions w) (ord (idUsers c)))) w)
       \<lparr>w_db := Some (snd (db_addMsgHistory D (ch_id c) m d))\<rparr>)"
  using assms by (simp add: Channel_write_def write_loop_run)

section \<open>Properties\<close>

text \<open>
  The world of the examples: \<open>Storage\<close> holding the given history, and channel object 0, with the
  given id and users 1 and 2 as members, connected on sessions 10 and 20.
\<close>

definition sample_channel :: channel where
  "sample_channel = \<lparr>ch_name = ''c'', ch_id = 3, idUsers = {1, 2}\<rparr>"

definition sample_message :: text_msg where
  "sample_message = \<lparr>msg_author = ''ann'', msg_text = ''hi'', msg_channel_name = ''c'',
     msg_dt = zero_datetime\<rparr>"

definition sample_storage :: storage where
  "sample_storage = empty_storage\<lparr>counterId := 3, history := [3 \<mapsto> [sample_message]]\<rparr>"

definition sample_users :: user_manager where
  "sample_users = \<lparr>idClients = [1 \<mapsto> Some (sample_user 10 1), 2 \<mapsto> Some (sample_user 20 2)]\<rparr>"

definition sample_world :: "storage world" where
  "sample_world = \<lparr>w_db = Some sample_storage, w_users = Some sample_users,
     idChannels = [3 \<mapsto> Some 0], w_heap = [0 \<mapsto> sample_channel], w_next = 1,
     w_sessions = {10, 20}, w_engine = True, w_queue = Some []\<rparr>"

definition sorted_ids :: "type_id_user set \<Rightarrow> type_id_user list" where
  "sorted_ids S = sorted_list_of_set S"

lemma sorted_ids_enumerates: "enumerates sorted_ids"
  by (simp add: enumerates_def sorted_ids_def)

lemma sample_ids: "sorted_ids {1, 2} = [1, 2]"
  by (simp add: sorted_ids_def sorted_list_of_set_insert)

lemma sample_world_fields [simp]:
  "w_heap sample_world = [0 \<mapsto> sample_channel]" "w_users sample_world = Some sample_users"
  "w_queue sample_world = Some []" "w_db sample_world = Some sample_storage"
  "w_sessions sample_world = {10, 20}" "ch_id sample_channel = 3" "ch_name sample_channel = ''c''"
  "idUsers sample_channel = {1, 2}"
  by (simp_all add: sample_world_def sample_channel_def)

lemma sample_live [simp]:
  "live_session sample_users {10, 20} i = (if i = 1 then Some 10 else if i = 2 then Some 20 else None)"
  by (simp add: live_session_def sample_users_def UserManager_getUser_def sample_user_def)

lemma sample_history [simp]:
  "db_getHistory Storage_db 3 sample_storage = (Inr [sample_message], sample_storage)"
  by (simp add: Storage_db_def Storage_getHistory_def sample_storage_def)

text \<open>A channel object is only ever constructed with a name and a non-zero id, and it has the
  name and id it was asked for; whether construction succeeds or throws, it changes nothing of the
  shared state but the database it asks for the members.\<close>

theorem channel_construction:
  assumes "Channel_new D name i w = (r, w')"
  shows "(\<exists>d. w' = w\<lparr>w_db := d\<rparr>) \<and>
    (case r of
       Inl e \<Rightarrow> True
     | Inr c \<Rightarrow> name \<noteq> [] \<and> i \<noteq> 0 \<and> ch_name c = name \<and> ch_id c = i \<and> finite (idUsers c))"
  using Channel_new_frame [OF assms] Channel_new_ok [of D name i w _ w'] assms
  by (auto simp: channel_ok_def split: sum.split)

lemma channel_construction_witness:
  "\<exists>c w'. Channel_new Storage_db ''c'' 5 sample_world = (Inr c, w') \<and> ch_id c = 5"
  using channel_construction [OF prod.collapse [symmetric], of Storage_db "''c''" 5 sample_world]
  by (cases "Channel_new Storage_db ''c'' 5 sample_world")
    (auto simp: Channel_new_def Storage_db_def Storage_getChannelUsers_def)

text \<open>\<open>addUser\<close> records the membership before it looks the user up, so the id becomes a member
  even when no such user is connected; a second \<open>addUser\<close> of the same id changes nothing and
  posts nothing; and only the new member's own session is written to.\<close>

theorem addUser_once:
  assumes "w_heap w r = Some c" and "w_users w = Some um"
    and "Channel_addUser E (Some r) i w = (x, w')"
  shows "x = Inr () \<and> w_heap w' r = Some (c\<lparr>idUsers := insert i (idUsers c)\<rparr>) \<and>
    Channel_addUser E (Some r) i w' = (Inr (), w') \<and>
    w' = enqueue
      (if i \<in> idUsers c then []
       else case live_session um (w_sessions w) i of
              None \<Rightarrow> []
            | Some s \<Rightarrow> [(s, serialize E (JoinRoomResponseMsg (ch_name c) True))])
      (w\<lparr>w_heap := (w_heap w)(r \<mapsto> c\<lparr>idUsers := insert i (idUsers c)\<rparr>)\<rparr>)"
proof (cases "i \<in> idUsers c")
  case True
  then have "c\<lparr>idUsers := insert i (idUsers c)\<rparr> = c" by (simp add: insert_absorb)
  moreover have "(w_heap w)(r \<mapsto> c) = w_heap w" using assms(1) by (rule map_upd_triv)
  ultimately show ?thesis using assms True by (simp add: addUser_member)
next
  case False
  with assms have x: "x = Inr ()" and w': "w' = enqueue
      (case live_session um (w_sessions w) i of
         None \<Rightarrow> []
       | Some s \<Rightarrow> [(s, serialize E (JoinRoomResponseMsg (ch_name c) True))])
      (w\<lparr>w_heap := (w_heap w)(r \<mapsto> c\<lparr>idUsers := insert i (idUsers c)\<rparr>)\<rparr>)"
    by (auto simp: addUser_new live_session_def split: option.splits)
  then have "w_heap w' r = Some (c\<lparr>idUsers := insert i (idUsers c)\<rparr>)" by simp
  with x w' False show ?thesis by (simp add: addUser_member)
qed

lemma addUser_once_witness:
  "w_heap (snd (Channel_addUser sample_env (Some 0) 9 sample_world)) 0 =
   Some (sample_channel\<lparr>idUsers := {9, 1, 2}\<rparr>)"
  using addUser_once [OF _ _ prod.collapse [symmetric], of sample_world 0 sample_channel sample_users
      sample_env 9] by simp

text \<open>C35: \<open>sendHistory\<close> to a connected member posts one message to that member's session, holding
  exactly the stored messages newer than the requested time, in their stored order (all of them for
  the default time), and nothing when there are none; for a non-member it does nothing at all.\<close>

theorem history_reply:
  assumes "w_heap w r = Some c" and "w_users w = Some um"
    and "live_session um (w_sessions w) i = Some s"
    and "w_db w = Some d" and "db_getHistory D (ch_id c) d = (Inr msgs, d')"
  shows "Channel_sendHistory D E (Some r) i since w =
    (Inr (),
     if i \<notin> idUsers c then w
     else enqueue
       (let new = filter (\<lambda>m. dt_equal E since (default_DateTime E) \<or> dt_less E since (msg_dt m)) msgs
        in if new = [] then [] else [(s, serialize E (HistoryResponseMsg (ch_name c) new))])
       (w\<lparr>w_db := Some d'\<rparr>))"
proof (cases "i \<in> idUsers c")
  case True
  obtain u where "UserManager_getUser i um = Some u" and "u_session u \<in> w_sessions w" "s = u_session u"
    using assms(3) by (auto simp: live_session_def split: option.splits if_splits)
  moreover have "newer_than E since =
      (\<lambda>m. dt_equal E since (default_DateTime E) \<or> dt_less E since (msg_dt m))"
    by (simp add: newer_than_def fun_eq_iff)
  ultimately show ?thesis
    using sendHistory_member [OF assms(1,2) True _ _ assms(4,5)] True by (simp add: Let_def)
next
  case False
  with assms(1) show ?thesis by (simp add: sendHistory_non_member)
qed

lemma history_reply_witness:
  "w_queue (snd (Channel_sendHistory Storage_db sample_env (Some 0) 1 zero_datetime sample_world)) =
   Some [(10, sample_serialize (HistoryResponseMsg ''c'' [sample_message]))]"
  by (subst history_reply [of _ 0 sample_channel sample_users _ 10 sample_storage _
        "[sample_message]" sample_storage])
    (simp_all add: enqueue_def)

text \<open>C2: \<open>Channel::write\<close> hands the queue one task for every member that is connected on a live
  session, in the order of the loop, appends the message to the channel's history, and changes
  nothing else. The first task carries the serialised message; the buffer it was moved from is
  what every later task carries.\<close>

theorem write_posts_fanout:
  assumes "w_heap w r = Some c" and "w_users w = Some um" and "w_queue w = Some q"
    and "w_db w = Some d" and "db_addMsgHistory D (ch_id c) m d = (Inr (), d')"
  shows "Channel_write D E ord (Some r) m w =
    (Inr (), w\<lparr>w_db := Some d',
               w_queue := Some (q @ fanout (serialize E (EchoResponseMsg m))
                 (recipients um (w_sessions w) (ord (idUsers c))))\<rparr>)"
  using Channel_write_run [OF assms(1,2) _ assms(4)] assms(3,5) by (simp add: enqueue_def)

lemma write_posts_fanout_witness:
  "w_queue (snd (Channel_write Storage_db sample_env sorted_ids (Some 0) sample_message sample_world)) =
   Some [(10, sample_serialize (EchoResponseMsg sample_message)), (20, [])]"
  by (subst write_posts_fanout [of _ 0 sample_channel sample_users "[]" sample_storage _ _
        "snd (Storage_addMsgHistory 3 sample_message sample_storage)"])
    (simp_all add: sample_ids Storage_db_def Storage_addMsgHistory_def)

text \<open>C1: The message reaches every connected member only if at most one is connected: what
  \<open>Channel::write\<close> posts is the broadcast of the message exactly then (or when it serialises to
  nothing).\<close>

theorem write_broadcasts_iff:
  assumes "w_heap w r = Some c" and "w_users w = Some um" and "w_queue w = Some q"
    and "w_db w = Some d"
  shows "w_queue (snd (Channel_write D E ord (Some r) m w)) =
      Some (q @ map (\<lambda>s. (s, serialize E (EchoResponseMsg m)))
                    (recipients um (w_sessions w) (ord (idUsers c)))) \<longleftrightarrow>
    serialize E (EchoResponseMsg m) = [] \<or> length (recipients um (w_sessions w) (ord (idUsers c))) \<le> 1"
  using Channel_write_run [OF assms(1,2) _ assms(4)] assms(3)
  by (simp add: fanout_eq_broadcast)

lemma write_broadcasts_iff_witness:
  "w_queue (snd (Channel_write Storage_db sample_env sorted_ids (Some 0) sample_message sample_world)) \<noteq>
   Some [(10, sample_serialize (EchoResponseMsg sample_message)),
         (20, sample_serialize (EchoResponseMsg sample_message))]"
  using write_broadcasts_iff [of sample_world 0 sample_channel sample_users "[]" sample_storage
      Storage_db sample_env sorted_ids sample_message]
  by (simp add: sample_ids)

text \<open>A message never leaves its channel: every task \<open>Channel::write\<close> adds to the queue is for a
  session on which a member of the channel is connected, and every such member's session gets
  one.\<close>

theorem write_only_to_members:
  assumes "w_heap w r = Some c" and "w_users w = Some um" and "w_queue w = Some q"
    and "w_db w = Some d" and "enumerates ord" and "finite (idUsers c)"
  shows "\<exists>ts. w_queue (snd (Channel_write D E ord (Some r) m w)) = Some (q @ ts) \<and>
    fst ` set ts = {s. \<exists>i \<in> idUsers c. live_session um (w_sessions w) i = Some s} \<and>
    length ts = card {i \<in> idUsers c. live_session um (w_sessions w) i \<noteq> None}"
proof -
  let ?rs = "recipients um (w_sessions w) (ord (idUsers c))"
  let ?ts = "fanout (serialize E (EchoResponseMsg m)) ?rs"
  have ord: "set (ord (idUsers c)) = idUsers c" "distinct (ord (idUsers c))"
    using assms(5,6) by (simp_all add: enumerates_def)
  have "fst ` set ?ts = set ?rs" by (metis fanout_sessions set_map)
  also have "\<dots> = {s. \<exists>i \<in> idUsers c. live_session um (w_sessions w) i = Some s}"
    using ord(1) by (force simp: recipients_def List.map_filter_def)
  finally have sessions: "fst ` set ?ts =
    {s. \<exists>i \<in> idUsers c. live_session um (w_sessions w) i = Some s}" .
  have "length ?ts = length ?rs" by (metis fanout_sessions length_map)
  also have "\<dots> = length (filter (\<lambda>i. live_session um (w_sessions w) i \<noteq> None) (ord (idUsers c)))"
    by (simp add: recipients_def List.map_filter_def comp_def)
  also have "\<dots> = card (set (filter (\<lambda>i. live_session um (w_sessions w) i \<noteq> None) (ord (idUsers c))))"
    using ord(2) by (intro distinct_card [symmetric]) simp
  also have "\<dots> = card {i \<in> idUsers c. live_session um (w_sessions w) i \<noteq> None}"
    using ord(1) by simp
  finally show ?thesis
    using Channel_write_run [OF assms(1,2) _ assms(4)] assms(3) sessions
    by (intro exI [of _ ?ts]) simp
qed

lemma write_only_to_members_witness:
  "\<exists>ts. w_queue (snd (Channel_write Storage_db sample_env sorted_ids (Some 0) sample_message sample_world)) =
     Some ts \<and> length ts = 2"
proof -
  have "{i \<in> idUsers sample_channel. live_session sample_users (w_sessions sample_world) i \<noteq> None} = {1, 2}"
    by auto
  then show ?thesis
    using write_only_to_members [OF _ _ _ _ sorted_ids_enumerates, of sample_world 0 sample_channel
        sample_users "[]" sample_storage Storage_db sample_env sample_message] by auto
qed

end
