(* ===== verification/Channels_Manager.thy ===== *)
theory Channels_Manager
  imports Channels
begin

text \<open>
  \<open>channels/ChannelsManager.h\<close>, \<open>channels/ChannelsManager.cpp\<close>: the directory of channel
  objects over the database. Each member function runs to its end here; the lock around
  \<open>idChannels_\<close> therefore has nothing to do in this theory.
\<close>

section \<open>Operations\<close>

definition getUserNameChannels :: "'db idatabase \<Rightarrow> type_id_user \<Rightarrow> ('db world, string list) eff" where
  "getUserNameChannels D client_id =
     eff_bind (eff_gets w_db) (\<lambda>db.
     case db of
       None \<Rightarrow> eff_return []
     | Some _ \<Rightarrow> on_db (db_getUserNameChannels D client_id))"

definition joinClientChannel ::
  "'db idatabase \<Rightarrow> type_id_user \<Rightarrow> string \<Rightarrow> ('db world, unit) eff" where
  "joinClientChannel D client_id name =
     eff_bind (eff_gets w_db) (\<lambda>db.
     case db of
       None \<Rightarrow> eff_return ()
     | Some _ \<Rightarrow> on_db (db_joinClientChannel D client_id name))"

text \<open>\<open>idChannels_[channel_id] = channel\<close>\<close>

definition register_channel :: "type_id_user \<Rightarrow> channel_ptr \<Rightarrow> ('db world, unit) eff" where
  "register_channel i p = eff_modify (\<lambda>w. w\<lparr>idChannels := (idChannels w)(i \<mapsto> p)\<rparr>)"

definition new_registered_channel ::
  "'db idatabase \<Rightarrow> string \<Rightarrow> type_id_user \<Rightarrow> ('db world, channel_ptr) eff" where
  "new_registered_channel D name i =
     eff_bind (Channel_new D name i) (\<lambda>c.
     eff_bind (make_shared_channel c) (\<lambda>p.
     eff_bind (register_channel i p) (\<lambda>_.
     eff_return p)))"

fun generate_channels ::
  "'db idatabase \<Rightarrow> (type_id_user \<rightharpoonup> string) \<Rightarrow> type_id_user list \<Rightarrow> ('db world, unit) eff" where
  "generate_channels D channels [] = eff_return ()"
| "generate_channels D channels (i # is) =
     (case channels i of
        None \<Rightarrow> generate_channels D channels is
      | Some name \<Rightarrow>
          eff_bind (new_registered_channel D name i) (\<lambda>_.
          generate_channels D channels is))"

definition createChannelFromDb ::
  "'db idatabase \<Rightarrow> (type_id_user set \<Rightarrow> type_id_user list) \<Rightarrow> ('db world, unit) eff" where
  "createChannelFromDb D ord =
     eff_bind (eff_gets w_db) (\<lambda>db.
     eff_bind (case db of
                 None \<Rightarrow> eff_return Map.empty
               | Some _ \<Rightarrow> on_db (db_getCurrentChannels D)) (\<lambda>channels.
     generate_channels D channels (ord (dom channels))))"

definition createOrGetChannelByName ::
  "'db idatabase \<Rightarrow> string \<Rightarrow> ('db world, channel_ptr) eff" where
  "createOrGetChannelByName D name =
     eff_bind (eff_gets w_db) (\<lambda>db.
     case db of
       None \<Rightarrow> eff_return None
     | Some _ \<Rightarrow>
         eff_bind (on_db (db_hasChannel D name)) (\<lambda>known.
         if known then
           eff_bind (on_db (db_getChannelId D name)) (\<lambda>channel_id.
           eff_bind (eff_gets (\<lambda>w. idChannels w channel_id)) (\<lambda>found.
           case found of
             None \<Rightarrow> new_registered_channel D name channel_id
           | Some p \<Rightarrow> eff_return p))
         else
           eff_bind (on_db (db_createChannel D name)) (\<lambda>channel_id.
           new_registered_channel D name channel_id)))"

definition has :: "'db idatabase \<Rightarrow> string \<Rightarrow> ('db world, bool) eff" where
  "has D name =
     eff_bind (eff_gets w_db) (\<lambda>db.
     case db of
       None \<Rightarrow> eff_return False
     | Some _ \<Rightarrow>
         eff_bind (on_db (db_getChannelId D name)) (\<lambda>channel_id.
         eff_gets (\<lambda>w. idChannels w channel_id \<noteq> None)))"

definition get :: "'db idatabase \<Rightarrow> string \<Rightarrow> ('db world, channel_ptr) eff" where
  "get D name =
     eff_bind (eff_gets w_db) (\<lambda>db.
     case db of
       None \<Rightarrow> eff_return None
     | Some _ \<Rightarrow>
         eff_bind (on_db (db_getChannelId D name)) (\<lambda>channel_id.
         eff_bind (eff_gets (\<lambda>w. idChannels w channel_id)) (\<lambda>found.
         case found of
           None \<Rightarrow> eff_throw (Out_of_range ''idChannels_.at'')
         | Some p \<Rightarrow> eff_return p)))"

section \<open>Lemmas\<close>

lemma new_registered_ok:
  assumes "Channel_new D name i w = (Inr c, w1)"
  shows "new_registered_channel D name i w =
    (Inr (Some (w_next w1)),
     w1\<lparr>w_heap := (w_heap w1)(w_next w1 \<mapsto> c), w_next := Suc (w_next w1),
        idChannels := (idChannels w1)(i \<mapsto> Some (w_next w1))\<rparr>)"
  using assms by (simp add: new_registered_channel_def make_shared_channel_def register_channel_def)

lemma new_registered_fails:
  "Channel_new D name i w = (Inl e, w1) \<Longrightarrow> new_registered_channel D name i w = (Inl e, w1)"
  by (simp add: new_registered_channel_def)

text \<open>A channel object that the directory files under its own id.\<close>

definition registered :: "channel_ptr \<Rightarrow> 'db world \<Rightarrow> bool" where
  "registered p w \<longleftrightarrow>
     (\<exists>k c. p = Some k \<and> w_heap w k = Some c \<and> idChannels w (ch_id c) = Some p)"

lemma registered_valid: "registered p w \<Longrightarrow> valid_ptr p w \<and> p \<noteq> None"
  by (auto simp: registered_def valid_ptr_def)

lemma new_registered_inv:
  assumes "world_inv w" and "new_registered_channel D name i w = (r, w')"
  shows "world_inv w'" and "r = Inr p \<Longrightarrow> registered p w'"
proof -
  obtain cr w1 where new: "Channel_new D name i w = (cr, w1)" by force
  then have w1: "world_inv w1" using assms(1) by (rule keeps_run [OF Channel_new_keeps, rotated])
  have "world_inv w' \<and> (r = Inr p \<longrightarrow> registered p w')"
  proof (cases cr)
    case (Inl e)
    with new assms(2) have "r = Inl e" and "w' = w1" by (simp_all add: new_registered_fails)
    with w1 show ?thesis by simp
  next
    case (Inr c)
    note c = Channel_new_ok [OF new [unfolded Inr]]
    let ?w2 = "w1\<lparr>w_heap := (w_heap w1)(w_next w1 \<mapsto> c), w_next := Suc (w_next w1)\<rparr>"
    have "world_inv ?w2" using w1 c(1) by (rule world_inv_alloc)
    then have "world_inv (?w2\<lparr>idChannels := (idChannels ?w2)(i \<mapsto> Some (w_next w1))\<rparr>)"
      using c(3) by (intro world_inv_register) simp_all
    with assms(2) new Inr show ?thesis
      by (auto simp: new_registered_ok registered_def c(3))
  qed
  then show "world_inv w'" and "r = Inr p \<Longrightarrow> registered p w'" by simp_all
qed

lemma new_registered_keeps [keeps_rules]: "keeps world_inv (new_registered_channel D name i)"
  unfolding keeps_def by (metis new_registered_inv(1) prod.collapse)

lemma generate_channels_keeps [keeps_rules]: "keeps world_inv (generate_channels D channels is)"
  by (induction "is") (simp_all only: generate_channels.simps, (intro keeps_rules; assumption?)+)

lemma createChannelFromDb_keeps [keeps_rules]: "keeps world_inv (createChannelFromDb D ord)"
  unfolding createChannelFromDb_def by (intro keeps_rules) simp

lemma directory_reads_keep [keeps_rules]:
  "keeps world_inv (getUserNameChannels D i)"
  "keeps world_inv (joinClientChannel D i name)"
  "keeps world_inv (has D name)"
  "keeps world_inv (get D name)"
  unfolding getUserNameChannels_def joinClientChannel_def has_def get_def
  by ((intro keeps_rules; simp)+)

lemma createOrGet_keeps [keeps_rules]: "keeps world_inv (createOrGetChannelByName D name)"
  unfolding createOrGetChannelByName_def by (intro keeps_rules; simp)

lemma directory_registered: "world_inv w \<Longrightarrow> idChannels w i = Some p \<Longrightarrow> registered p w"
  by (fastforce simp: world_inv_def directory_ok_def registered_def)

lemma new_registered_ensures:
  "ensures world_inv (new_registered_channel D name i)
     (\<lambda>p w. world_inv w \<and> registered p w) world_inv"
  by (rule ensuresI) (auto split: prod.split sum.split dest: new_registered_inv)

lemma createOrGet_ensures:
  "ensures (\<lambda>w. world_inv w \<and> w_db w \<noteq> None) (createOrGetChannelByName D name)
     (\<lambda>p w. world_inv w \<and> registered p w) world_inv"
proof -
  let ?Q = "\<lambda>p (w :: 'a world). world_inv w \<and> registered p w"
  let ?pick = "\<lambda>channel_id found. case found of
      None \<Rightarrow> new_registered_channel D name channel_id
    | Some p \<Rightarrow> eff_return p"
  let ?body = "\<lambda>known.
    if known then
      eff_bind (on_db (db_getChannelId D name)) (\<lambda>channel_id.
      eff_bind (eff_gets (\<lambda>w. idChannels w channel_id)) (?pick channel_id))
    else
      eff_bind (on_db (db_createChannel D name)) (\<lambda>channel_id.
      new_registered_channel D name channel_id)"
  have pick: "ensures (\<lambda>w. world_inv w \<and> idChannels w i = found) (?pick i found) ?Q world_inv"
    for i found
  proof (cases found)
    case None
    then show ?thesis
      by (simp, intro ensures_weaken [OF new_registered_ensures]) simp_all
  next
    case (Some p)
    then show ?thesis by (auto simp: ensures_def dest: directory_registered)
  qed
  have db: "keeps world_inv (on_db m)" for m :: "('a, 'x) eff"
    by (rule keeps_on_db) simp
  have body: "ensures world_inv (?body known) ?Q world_inv" for known
  proof (cases known)
    case True
    then show ?thesis
      by (simp only: if_True) (intro ensures_seq ensures_read db pick)
  next
    case False
    then show ?thesis
      by (simp only: if_False) (intro ensures_seq db new_registered_ensures)
  qed
  have "ensures world_inv (eff_bind (on_db (db_hasChannel D name)) ?body) ?Q world_inv"
    by (rule ensures_seq [OF db body])
  then show ?thesis
    by (auto simp: ensures_def createOrGetChannelByName_def)
qed

lemma createOrGet_no_db:
  "w_db w = None \<Longrightarrow> createOrGetChannelByName D name w = (Inr None, w)"
  by (simp add: createOrGetChannelByName_def)

lemma createOrGet_valid:
  assumes "world_inv w" and "createOrGetChannelByName D name w = (Inr p, w')"
  shows "valid_ptr p w'" and "p = None \<longleftrightarrow> w_db w = None"
proof -
  have "valid_ptr p w' \<and> (p = None \<longleftrightarrow> w_db w = None)"
  proof (cases "w_db w")
    case None
    with assms(2) show ?thesis by (simp add: createOrGet_no_db)
  next
    case (Some d)
    with assms ensures_Inr [OF createOrGet_ensures _ assms(2)] registered_valid show ?thesis
      by fastforce
  qed
  then show "valid_ptr p w'" and "p = None \<longleftrightarrow> w_db w = None" by simp_all
qed

text \<open>The three ways \<open>createOrGetChannelByName\<close> goes when the database is there.\<close>

lemma createOrGet_found:
  assumes "w_db w = Some d" and "db_hasChannel D name d = (Inr True, d1)"
    and "db_getChannelId D name d1 = (Inr i, d2)" and "idChannels w i = Some p"
  shows "createOrGetChannelByName D name w = (Inr p, w\<lparr>w_db := Some d2\<rparr>)"
  using assms by (simp add: createOrGetChannelByName_def)

lemma createOrGet_generated:
  assumes "w_db w = Some d" and "db_hasChannel D name d = (Inr True, d1)"
    and "db_getChannelId D name d1 = (Inr i, d2)" and "idChannels w i = None"
  shows "createOrGetChannelByName D name w =
    new_registered_channel D name i (w\<lparr>w_db := Some d2\<rparr>)"
  using assms by (simp add: createOrGetChannelByName_def)

lemma createOrGet_created:
  assumes "w_db w = Some d" and "db_hasChannel D name d = (Inr False, d1)"
    and "db_createChannel D name d1 = (Inr i, d2)"
  shows "createOrGetChannelByName D name w =
    new_registered_channel D name i (w\<lparr>w_db := Some d2\<rparr>)"
  using assms by (simp add: createOrGetChannelByName_def)

text \<open>Restoring the directory.\<close>

definition users_answer :: "'db idatabase \<Rightarrow> bool" where
  \<comment> \<open>\<open>getChannelUsers\<close> does not throw\<close>
  "users_answer D \<longleftrightarrow> (\<forall>i d. \<exists>us d'. db_getChannelUsers D i d = (Inr us, d'))"

text \<open>The same for some ids, while the backend keeps a condition of its own.\<close>

definition users_answer_on :: "type_id_user set \<Rightarrow> ('db \<Rightarrow> bool) \<Rightarrow> 'db idatabase \<Rightarrow> bool" where
  "users_answer_on S ok D \<longleftrightarrow>
     (\<forall>i \<in> S. \<forall>d. ok d \<longrightarrow> (\<exists>us d'. db_getChannelUsers D i d = (Inr us, d') \<and> ok d'))"

definition db_ok :: "('db \<Rightarrow> bool) \<Rightarrow> 'db world \<Rightarrow> bool" where
  "db_ok ok w \<longleftrightarrow> (\<forall>d. w_db w = Some d \<longrightarrow> ok d)"

definition filed :: "type_id_user \<Rightarrow> string \<Rightarrow> 'db world \<Rightarrow> bool" where
  "filed i name w \<longleftrightarrow>
     (\<exists>k c. idChannels w i = Some (Some k) \<and> w_heap w k = Some c \<and> ch_name c = name \<and> ch_id c = i)"

lemma new_registered_files:
  assumes "users_answer_on S ok D" and "name \<noteq> []" and "i \<noteq> 0" and "heap_ok w"
    and "i \<in> S" and "db_ok ok w"
  obtains p w' where "new_registered_channel D name i w = (Inr p, w')" and "filed i name w'"
    and "heap_ok w'" and "db_ok ok w'" and "\<And>j. j \<noteq> i \<Longrightarrow> idChannels w' j = idChannels w j"
    and "\<And>j n. j \<noteq> i \<Longrightarrow> filed j n w \<Longrightarrow> filed j n w'"
proof -
  obtain c w1 where new: "Channel_new D name i w = (Inr c, w1)" and db: "db_ok ok w1"
  proof (cases "w_db w")
    case None
    with assms(2,3) that show thesis by (simp add: Channel_new_def db_ok_def)
  next
    case (Some d)
    moreover obtain us d' where "db_getChannelUsers D i d = (Inr us, d')" "ok d'"
      using assms(1,5,6) Some unfolding users_answer_on_def db_ok_def by blast
    ultimately show thesis using assms(2,3) that by (simp add: Channel_new_def db_ok_def)
  qed
  obtain d where w1: "w1 = w\<lparr>w_db := d\<rparr>" using Channel_new_frame [OF new] by blast
  note c = Channel_new_ok [OF new]
  have free: "w_heap w (w_next w) = None"
    using assms(4) by (cases "w_heap w (w_next w)") (auto simp: heap_ok_def)
  show thesis
  proof (rule that [OF new_registered_ok [OF new]])
    let ?w' = "w1\<lparr>w_heap := (w_heap w1)(w_next w1 \<mapsto> c), w_next := Suc (w_next w1),
        idChannels := (idChannels w1)(i \<mapsto> Some (w_next w1))\<rparr>"
    show "filed i name ?w'" using c by (simp add: filed_def)
    show "heap_ok ?w'" using assms(4) c(1) w1 by (auto simp: heap_ok_def less_Suc_eq)
    show "db_ok ok ?w'" using db by (simp add: db_ok_def)
    show "idChannels ?w' j = idChannels w j" if "j \<noteq> i" for j using that w1 by simp
    show "filed j n ?w'" if "j \<noteq> i" "filed j n w" for j n
      using that free w1 by (fastforce simp: filed_def)
  qed
qed

lemma generate_channels_files:
  assumes "users_answer_on S ok D" and "set is \<subseteq> S" and "heap_ok w" and "db_ok ok w" and "distinct is"
    and "\<forall>i \<in> set is. \<exists>n. channels i = Some n \<and> n \<noteq> [] \<and> i \<noteq> 0"
  shows "\<exists>w'. generate_channels D channels is w = (Inr (), w') \<and>
    (\<forall>i \<in> set is. filed i (the (channels i)) w') \<and>
    (\<forall>j n. j \<notin> set is \<longrightarrow> filed j n w \<longrightarrow> filed j n w') \<and>
    (\<forall>j. j \<notin> set is \<longrightarrow> idChannels w' j = idChannels w j)"
  using assms(2-)
proof (induction "is" arbitrary: w)
  case (Cons i "is")
  obtain n where n: "channels i = Some n" "n \<noteq> []" "i \<noteq> 0" using Cons.prems(5) by auto
  have i: "i \<in> S" "set is \<subseteq> S" using Cons.prems(1) by simp_all
  obtain p w1 where w1: "new_registered_channel D n i w = (Inr p, w1)" "filed i n w1" "heap_ok w1"
    "db_ok ok w1" "\<And>j. j \<noteq> i \<Longrightarrow> idChannels w1 j = idChannels w j"
    "\<And>j n. j \<noteq> i \<Longrightarrow> filed j n w \<Longrightarrow> filed j n w1"
    by (rule new_registered_files [OF assms(1) n(2,3) Cons.prems(2) i(1) Cons.prems(3)], rule that)
  obtain w' where w': "generate_channels D channels is w1 = (Inr (), w')"
    "\<forall>i \<in> set is. filed i (the (channels i)) w'"
    "\<forall>j n. j \<notin> set is \<longrightarrow> filed j n w1 \<longrightarrow> filed j n w'"
    "\<forall>j. j \<notin> set is \<longrightarrow> idChannels w' j = idChannels w1 j"
    using Cons.IH [OF i(2) w1(3,4)] Cons.prems(4,5) by auto
  have fresh: "i \<notin> set is" using Cons.prems(4) by simp
  have "generate_channels D channels (i # is) w = (Inr (), w')" using w1(1) n(1) w'(1) by simp
  moreover have "\<forall>j \<in> set (i # is). filed j (the (channels j)) w'"
    using w'(2,3) w1(2) fresh n(1) by simp
  moreover have "\<forall>j n. j \<notin> set (i # is) \<longrightarrow> filed j n w \<longrightarrow> filed j n w'"
    using w'(3) w1(6) by simp
  moreover have "\<forall>j. j \<notin> set (i # is) \<longrightarrow> idChannels w' j = idChannels w j"
    using w'(4) w1(5) by simp
  ultimately show ?case by blast
qed simp

text \<open>Start-up, for a backend that answers the questions about its own channels.\<close>

lemma createChannelFromDb_files:
  assumes "world_inv w" and "w_db w = Some d" and "db_getCurrentChannels D d = (Inr channels, d1)"
    and "users_answer_on (dom channels) ok D" and "ok d1" and "finite (dom channels)" and "enumerates ord"
    and "\<forall>i n. channels i = Some n \<longrightarrow> i \<noteq> 0 \<and> n \<noteq> []"
  shows "\<exists>w'. createChannelFromDb D ord w = (Inr (), w') \<and>
    (\<forall>i n. channels i = Some n \<longrightarrow> filed i n w') \<and>
    (\<forall>i. channels i = None \<longrightarrow> idChannels w' i = idChannels w i)"
proof -
  have ord: "set (ord (dom channels)) = dom channels" "distinct (ord (dom channels))"
    using assms(6,7) by (simp_all add: enumerates_def)
  let ?w1 = "w\<lparr>w_db := Some d1\<rparr>"
  have "world_inv ?w1" using assms(1) by simp
  then have heap: "heap_ok ?w1" unfolding world_inv_def by blast
  have db: "db_ok ok ?w1" using assms(5) by (simp add: db_ok_def)
  have named: "\<forall>i \<in> set (ord (dom channels)). \<exists>n. channels i = Some n \<and> n \<noteq> [] \<and> i \<noteq> 0"
    using ord(1) assms(8) by auto
  obtain w' where "generate_channels D channels (ord (dom channels)) ?w1 = (Inr (), w')"
    and "\<forall>i \<in> dom channels. filed i (the (channels i)) w'"
    and "\<forall>i. i \<notin> dom channels \<longrightarrow> idChannels w' i = idChannels ?w1 i"
    using generate_channels_files [OF assms(4) _ heap db ord(2) named] ord(1) by auto
  then show ?thesis
    using assms(2,3) by (intro exI [of _ w']) (force simp: createChannelFromDb_def)
qed

section \<open>Over a backend that keeps the channel contract\<close>

locale manager_backend =
  channel_lookup ok same names "db_hasChannel D" "db_createChannel D" room good "db_getChannelId D"
    "db_getChannelUsers D"
  for D :: "'db idatabase"
    and ok :: "'db \<Rightarrow> bool"
    and same :: "'db \<Rightarrow> 'db \<Rightarrow> bool"
    and names :: "'db \<Rightarrow> string \<rightharpoonup> type_id_user"
    and room :: "'db \<Rightarrow> bool"
    and good :: "string \<Rightarrow> bool"
begin

lemma new_registered_known:
  assumes "w_db w = Some d" and "ok d" and "names d n = Some i" and "n \<noteq> []"
  obtains p w' d' where "new_registered_channel D n i w = (Inr p, w')" and "idChannels w' i = Some p"
    and "w_db w' = Some d'" and "ok d'" and "names d' = names d"
proof -
  obtain us d' where users: "db_getChannelUsers D i d = (Inr us, d')" "same d d'"
    using getUsers_reads [OF assms(2,3)] by blast
  have "i \<noteq> 0" using names_nonzero [OF assms(2)] assms(3) by (auto simp: ran_def)
  then have "Channel_new D n i w =
      (Inr \<lparr>ch_name = n, ch_id = i, idUsers = set us\<rparr>, w\<lparr>w_db := Some d'\<rparr>)"
    using assms(1,4) users(1) by (simp add: Channel_new_def)
  from new_registered_ok [OF this] show thesis
    using same_keeps [OF users(2) assms(2)] by (intro that [where d' = d']) auto
qed

text \<open>Of a name the backend knows, the object returned is the one the manager has, if it has one.\<close>

lemma createOrGet_known:
  assumes "w_db w = Some d" and "ok d" and "good n" and "n \<noteq> []" and "names d n = Some i"
  obtains p w' d' where "createOrGetChannelByName D n w = (Inr p, w')" and "idChannels w' i = Some p"
    and "w_db w' = Some d'" and "ok d'" and "names d' = names d"
    and "idChannels w i \<noteq> None \<longrightarrow> idChannels w i = Some p \<and> w' = w\<lparr>w_db := Some d'\<rparr>"
proof -
  obtain d1 where d1: "db_hasChannel D n d = (Inr True, d1)" "same d d1"
    using has_reads [OF assms(3,2)] assms(5) by auto
  then have ok1: "ok d1" "names d1 = names d" using same_keeps [OF d1(2) assms(2)] by simp_all
  then obtain d2 where d2: "db_getChannelId D n d1 = (Inr i, d2)" "same d1 d2"
    using getId_reads [OF assms(3) ok1(1)] assms(5) by auto
  have ok2: "ok d2" "names d2 = names d" using same_keeps [OF d2(2) ok1(1)] ok1(2) by simp_all
  show thesis
  proof (cases "idChannels w i")
    case None
    have "names d2 n = Some i" using ok2(2) assms(5) by simp
    from new_registered_known [OF _ ok2(1) this assms(4), of "w\<lparr>w_db := Some d2\<rparr>"]
    obtain p w' d' where new: "new_registered_channel D n i (w\<lparr>w_db := Some d2\<rparr>) = (Inr p, w')"
      "idChannels w' i = Some p" "w_db w' = Some d'" "ok d'" "names d' = names d2" by auto
    have "createOrGetChannelByName D n w = (Inr p, w')"
      using createOrGet_generated [OF assms(1) d1(1) d2(1) None] new(1) by simp
    then show thesis
      by (rule that [of p w' d']) (use None new(2-5) ok2(2) in simp_all)
  next
    case (Some p)
    from createOrGet_found [OF assms(1) d1(1) d2(1) Some] show thesis
      by (rule that) (use Some ok2 in simp_all)
  qed
qed

lemma createOrGet_unknown:
  assumes "w_db w = Some d" and "ok d" and "room d" and "good n" and "n \<noteq> []" and "names d n = None"
  obtains i p w' d' where "createOrGetChannelByName D n w = (Inr p, w')" and "idChannels w' i = Some p"
    and "w_db w' = Some d'" and "ok d'" and "names d' n = Some i"
proof -
  obtain d1 where d1: "db_hasChannel D n d = (Inr False, d1)" "same d d1"
    using has_reads [OF assms(4,2)] assms(6) by auto
  then have d1': "ok d1" "names d1 n = None" "room d1"
    using same_keeps [OF d1(2) assms(2)] room_stays [OF d1(2) assms(2,3)] assms(6) by simp_all
  obtain i d2 where d2: "db_createChannel D n d1 = (Inr i, d2)" "ok d2" "names d2 n = Some i"
    using create_fresh [OF assms(4) d1'(1,3,2)] by auto
  from new_registered_known [OF _ d2(2,3) assms(5), of "w\<lparr>w_db := Some d2\<rparr>"]
  obtain p w' d' where "new_registered_channel D n i (w\<lparr>w_db := Some d2\<rparr>) = (Inr p, w')"
    "idChannels w' i = Some p" "w_db w' = Some d'" "ok d'" "names d' = names d2" by auto
  then show thesis
    using d2(3) createOrGet_created [OF assms(1) d1(1) d2(1)] by (intro that [of p w' i d']) simp_all
qed

text \<open>Asking twice for a channel gives one object, and the second time changes nothing but the backend.\<close>

lemma createOrGet_twice:
  assumes "w_db w = Some d" and "ok d" and "room d" and "good n" and "n \<noteq> []"
    and "createOrGetChannelByName D n w = (r1, w1)" and "createOrGetChannelByName D n w1 = (r2, w2)"
  shows "\<exists>p i d2. r1 = Inr p \<and> r2 = Inr p \<and> idChannels w1 i = Some p \<and> w2 = w1\<lparr>w_db := Some d2\<rparr> \<and>
    ok d2 \<and> names d2 n = Some i"
proof -
  obtain p i d1 where first: "r1 = Inr p" "idChannels w1 i = Some p" "w_db w1 = Some d1" "ok d1"
    "names d1 n = Some i"
  proof (cases "names d n")
    case None
    from createOrGet_unknown [OF assms(1-5) None] obtain i p w' d' where
      "createOrGetChannelByName D n w = (Inr p, w')" "idChannels w' i = Some p" "w_db w' = Some d'"
      "ok d'" "names d' n = Some i" by metis
    then show thesis using assms(6) by (intro that [of p i d']) simp_all
  next
    case (Some i)
    from createOrGet_known [OF assms(1,2,4,5) Some] obtain p w' d' where
      "createOrGetChannelByName D n w = (Inr p, w')" "idChannels w' i = Some p" "w_db w' = Some d'"
      "ok d'" "names d' = names d" by metis
    then show thesis using Some assms(6) by (intro that [of p i d']) simp_all
  qed
  from createOrGet_known [OF first(3,4) assms(4,5) first(5)] obtain p' w' d2 where
    second: "createOrGetChannelByName D n w1 = (Inr p', w')" "ok d2" "names d2 = names d1"
    "idChannels w1 i \<noteq> None \<longrightarrow> idChannels w1 i = Some p' \<and> w' = w1\<lparr>w_db := Some d2\<rparr>" by metis
  then show ?thesis
    using first assms(7) by (intro exI [of _ p] exI [of _ i] exI [of _ d2]) simp
qed

end

section \<open>Properties\<close>

text \<open>C36: \<open>createOrGetChannelByName\<close> keeps the shared state well formed whether it returns or
  throws; it returns null exactly when the database is gone, and otherwise a channel object that
  the directory files under its own id.\<close>

theorem createOrGet_registered:
  assumes "world_inv w" and "createOrGetChannelByName D name w = (r, w')"
  shows "world_inv w' \<and>
    (case r of
       Inl e \<Rightarrow> w_db w \<noteq> None
     | Inr p \<Rightarrow> if w_db w = None then p = None
               else \<exists>k c. p = Some k \<and> w_heap w' k = Some c \<and> idChannels w' (ch_id c) = Some p)"
proof (cases "w_db w")
  case None
  with assms show ?thesis by (auto simp: createOrGet_no_db)
next
  case (Some d)
  have "world_inv w'" using keeps_run [OF createOrGet_keeps assms] .
  then show ?thesis
    using Some assms ensures_Inr [OF createOrGet_ensures, of w D name _ w']
    by (cases r) (auto simp: registered_def)
qed

lemma sample_world_inv: "world_inv sample_world"
  by (simp add: sample_world_def world_inv_def heap_ok_def directory_ok_def users_inv_def
      sample_users_def sample_user_def sample_channel_def channel_ok_def)

lemma createOrGet_registered_witness:
  "world_inv (snd (createOrGetChannelByName Storage_db ''new'' sample_world))"
  using createOrGet_registered [OF sample_world_inv prod.collapse [symmetric], of Storage_db "''new''"]
  by simp

text \<open>At start-up the directory is restored from the database: if every stored channel has a name
  and a non-zero id and the database answers, \<open>createChannelFromDb\<close> succeeds and each of them is
  filed under its id as an object with its name.\<close>

theorem startup_restores_channels:
  assumes "world_inv w" and "w_db w = Some d" and "db_getCurrentChannels D d = (Inr channels, d1)"
    and "users_answer D" and "finite (dom channels)" and "enumerates ord"
    and "\<forall>i n. channels i = Some n \<longrightarrow> i \<noteq> 0 \<and> n \<noteq> []"
  shows "\<exists>w'. createChannelFromDb D ord w = (Inr (), w') \<and>
    (\<forall>i n. channels i = Some n \<longrightarrow> filed i n w')"
proof -
  have "users_answer_on (dom channels) (\<lambda>_. True) D"
    using assms(4) by (simp add: users_answer_def users_answer_on_def)
  from createChannelFromDb_files [OF assms(1-3) this TrueI assms(5-7)] show ?thesis by blast
qed

lemma startup_restores_channels_witness:
  "\<exists>w'. createChannelFromDb (Storage_db\<lparr>db_getCurrentChannels := (\<lambda>d. (Inr [5 \<mapsto> ''old''], d))\<rparr>)
     sorted_ids (start_world empty_storage) = (Inr (), w') \<and> filed 5 ''old'' w'"
  (is "\<exists>w'. createChannelFromDb ?D _ _ = _ \<and> _")
proof -
  have "w_db (start_world empty_storage) = Some empty_storage"
    and "db_getCurrentChannels ?D empty_storage = (Inr [5 \<mapsto> ''old''], empty_storage)"
    and "users_answer ?D" and "finite (dom [5 \<mapsto> ''old''])"
    and "\<forall>i n. [5 \<mapsto> ''old''] i = Some n \<longrightarrow> i \<noteq> (0 :: type_id_user) \<and> n \<noteq> []"
    by (auto simp: start_world_def users_answer_def Storage_db_def Storage_getChannelUsers_def)
  from startup_restores_channels [OF world_inv_start this(1-4) sorted_ids_enumerates this(5)]
  show ?thesis by auto
qed

lemma storage_known_throws:
  assumes "world_inv w" and "w_db w = Some d" and "name \<noteq> []" and "nameIdChannels d name \<noteq> None"
  shows "createOrGetChannelByName Storage_db name w =
    (Inl (Thrown (Invalid_argument ''Channel: id equal zero'')), w)"
proof -
  have "idChannels w 0 = None"
    using assms(1) by (cases "idChannels w 0")
      (fastforce simp: world_inv_def directory_ok_def heap_ok_def channel_ok_def)+
  moreover have "db_hasChannel Storage_db name d = (Inr True, d)"
    and "db_getChannelId Storage_db name d = (Inr 0, d)"
    using assms(4) by (simp_all add: Storage_db_def Storage_hasChannel_def Storage_getChannelId_def)
  ultimately show ?thesis
    using assms(2,3) createOrGet_generated [OF assms(2), of Storage_db name d 0 d]
    by (simp add: new_registered_fails Channel_new_rejects)
qed

text \<open>Over \<open>Storage\<close> a channel can be reached by name once. The first
  \<open>createOrGetChannelByName\<close> of a new name creates the channel; every later one asks
  \<open>getChannelId\<close>, which \<open>Storage\<close> answers with 0, and throws from the constructor of a
  channel with id 0.\<close>

theorem storage_channel_once:
  assumes "world_inv w" and "w_db w = Some d" and "storage_inv d" and "storage_room d"
    and "name \<noteq> []" and "nameIdChannels d name = None"
    and "createOrGetChannelByName Storage_db name w = (r, w')"
  shows "(\<exists>k c. r = Inr (Some k) \<and> w_heap w' k = Some c \<and> ch_name c = name \<and> idUsers c = {}) \<and>
    createOrGetChannelByName Storage_db name w' =
      (Inl (Thrown (Invalid_argument ''Channel: id equal zero'')), w')"
proof -
  let ?i = "counterId d + 1" and ?d = "snd (Storage_createChannel name d)"
  let ?c = "\<lparr>ch_name = name, ch_id = ?i, idUsers = {}\<rparr>"
  let ?w1 = "w\<lparr>w_db := Some ?d\<rparr>"
  have i: "?i \<noteq> 0" using assms(4) by (simp add: storage_room_def)
  have has: "db_hasChannel Storage_db name d = (Inr False, d)"
    and create: "db_createChannel Storage_db name d = (Inr ?i, ?d)"
    using assms(6) by (simp_all add: Storage_db_def Storage_hasChannel_def createChannel_cases)
  have new: "Channel_new Storage_db name ?i ?w1 = (Inr ?c, ?w1)"
    using i assms(5) by (simp add: Channel_new_def Storage_db_def Storage_getChannelUsers_def)
  have run: "r = Inr (Some (w_next w))" and heap: "w_heap w' (w_next w) = Some ?c"
    and db: "w_db w' = Some ?d"
    using assms(7) createOrGet_created [OF assms(2) has create] new_registered_ok [OF new] by auto
  moreover have "world_inv w'" using keeps_run [OF createOrGet_keeps assms(1,7)] .
  moreover have "nameIdChannels ?d name \<noteq> None" using assms(6) by (simp add: createChannel_cases)
  ultimately show ?thesis using storage_known_throws [OF _ db assms(5)] by auto
qed

lemma storage_channel_once_witness:
  "fst (createOrGetChannelByName Storage_db ''c''
     (snd (createOrGetChannelByName Storage_db ''c'' (start_world empty_storage)))) =
   Inl (Thrown (Invalid_argument ''Channel: id equal zero''))"
proof -
  have "w_db (start_world empty_storage) = Some empty_storage" and "storage_room empty_storage"
    and "nameIdChannels empty_storage ''c'' = None"
    by (simp_all add: start_world_def storage_room_def empty_storage_def)
  from storage_channel_once [OF world_inv_start this(1) storage_inv_empty this(2) _ this(3)
      prod.collapse [symmetric]]
  show ?thesis by simp
qed

end
