(* ===== verification/Query_Engine.thy ===== *)
theory Query_Engine
  imports Channels_Manager Storage
begin

text \<open>
  \<open>engine/QueryEngine.h\<close>, \<open>engine/QueryEngine.cpp\<close>, and the two member functions of
  \<open>UserManager\<close> that ask the database (\<open>channels/users/UserManager.cpp\<close>): the six requests a
  client can make, as effects on the world.
\<close>

section \<open>Operations\<close>

definition QueryEngine_new :: "user_manager option \<Rightarrow> exn + unit" where
  "QueryEngine_new manager =
     (case manager of
        None \<Rightarrow> Inl (Invalid_argument ''manager pointer is nullptr'')
      | Some _ \<Rightarrow> Inr ())"

definition UserManager_checkRegUser ::
  "'db idatabase \<Rightarrow> input_settings \<Rightarrow> ('db world, type_id_user) eff" where
  "UserManager_checkRegUser D settings =
     eff_bind (eff_gets w_db) (\<lambda>db.
     case db of
       None \<Rightarrow> eff_return REG_LOGIN_IS_BUSY
     | Some _ \<Rightarrow> on_db (db_checkRegUser D settings))"

definition UserManager_checkAuthUser ::
  "'db idatabase \<Rightarrow> input_settings \<Rightarrow> ('db world, type_id_user) eff" where
  "UserManager_checkAuthUser D settings =
     eff_bind (eff_gets w_db) (\<lambda>db.
     case db of
       None \<Rightarrow> eff_return AUTH_LOGIN_IS_NOT_AVAILABLE
     | Some _ \<Rightarrow> on_db (db_checkAuthUser D settings))"

definition input_of :: "credentials \<Rightarrow> input_settings" where
  "input_of c = \<lparr>clientName = login c, clientPassword = password c\<rparr>"

definition settings_of :: "session \<Rightarrow> credentials \<Rightarrow> type_id_user \<Rightarrow> user_settings" where
  "settings_of s c i = \<lparr>us_session = s, us_name = login c, us_password = password c, us_id = i\<rparr>"

definition QueryEngine_reg ::
  "'db idatabase \<Rightarrow> env \<Rightarrow> session \<Rightarrow> credentials \<Rightarrow> ('db world, unit) eff" where
  "QueryEngine_reg D E s request =
     eff_bind (UserManager_checkRegUser D (input_of request)) (\<lambda>client_id.
     eff_bind (if client_id \<noteq> REG_LOGIN_IS_BUSY then
                 on_users (UserManager_push (UserManager_create (settings_of s request client_id)))
               else eff_return ()) (\<lambda>_.
     eff_bind (write_if_alive s (serialize E (RegistrationResponseMsg client_id))) (\<lambda>_.
     eff_return ())))"

definition QueryEngine_auth ::
  "'db idatabase \<Rightarrow> env \<Rightarrow> session \<Rightarrow> credentials \<Rightarrow> ('db world, unit) eff" where
  "QueryEngine_auth D E s request =
     eff_bind (UserManager_checkAuthUser D (input_of request)) (\<lambda>client_id.
     eff_bind (if client_id \<noteq> AUTH_LOGIN_IS_NOT_AVAILABLE then
                 on_users (UserManager_push (UserManager_create (settings_of s request client_id)))
               else eff_return ()) (\<lambda>_.
     eff_bind (write_if_alive s (serialize E (AuthorisationResponseMsg client_id))) (\<lambda>_.
     eff_return ())))"

definition QueryEngine_getHistory ::
  "'db idatabase \<Rightarrow> env \<Rightarrow> history_request \<Rightarrow> ('db world, unit) eff" where
  "QueryEngine_getHistory D E request =
     eff_bind (createOrGetChannelByName D (hr_channel_name request)) (\<lambda>channel.
     let since = request_datetime E (hr_since request)
     in Channel_sendHistory D E channel (hr_client_id request) since)"

definition QueryEngine_getChannels ::
  "'db idatabase \<Rightarrow> env \<Rightarrow> channels_request \<Rightarrow> ('db world, unit) eff" where
  "QueryEngine_getChannels D E request =
     eff_bind (getUser (cr_client_id request)) (\<lambda>clientPtr.
     case clientPtr of
       None \<Rightarrow> boost_format E ''client is nullptr'' 1
     | Some u \<Rightarrow>
         eff_bind (lock_session (u_session u)) (\<lambda>alive.
         if alive then
           eff_bind (getUserNameChannels D (cr_client_id request)) (\<lambda>channels.
           eff_bind (ClientSession_write (u_session u)
                       (serialize E (ChannelsResponseMsg channels))) (\<lambda>_.
           eff_return ()))
         else eff_return ()))"

definition QueryEngine_joinRoom ::
  "'db idatabase \<Rightarrow> env \<Rightarrow> join_room_request \<Rightarrow> ('db world, unit) eff" where
  "QueryEngine_joinRoom D E request =
     eff_bind (createOrGetChannelByName D (jr_channel_name request)) (\<lambda>channel.
     eff_bind (getUser (jr_client_id request)) (\<lambda>clientPtr.
     case clientPtr of
       None \<Rightarrow> eff_return ()
     | Some u \<Rightarrow>
         eff_bind (Channel_addUser E channel (u_id u)) (\<lambda>_.
         joinClientChannel D (jr_client_id request) (jr_channel_name request))))"

definition text_message :: "env \<Rightarrow> text_request \<Rightarrow> text_msg" where
  "text_message E request =
     \<lparr>msg_author = tr_login request, msg_text = tr_text request,
      msg_channel_name = tr_channel_name request,
      msg_dt = request_datetime E (tr_datetime request)\<rparr>"

definition QueryEngine_sendText ::
  "'db idatabase \<Rightarrow> env \<Rightarrow> (type_id_user set \<Rightarrow> type_id_user list) \<Rightarrow> text_request
     \<Rightarrow> ('db world, unit) eff" where
  "QueryEngine_sendText D E ord request =
     eff_bind (createOrGetChannelByName D (tr_channel_name request)) (\<lambda>channel.
     case channel of
       Some _ \<Rightarrow> Channel_write D E ord channel (text_message E request)
     | None \<Rightarrow> eff_return ())"

section \<open>The invariant\<close>

lemma create_some [simp]:
  "UserManager_create (settings_of s c i) =
     Some \<lparr>u_session = s, u_login = login c, u_password = password c, u_id = i\<rparr>"
  by (simp add: UserManager_create_def User_new_def settings_of_def)

lemma push_user_keeps:
  assumes "u_id u \<noteq> 0"
  shows "keeps world_inv (on_users (UserManager_push (Some u)))"
  unfolding keeps_def
proof (intro allI impI)
  fix w :: "'a world"
  assume w: "world_inv w"
  show "world_inv (snd (on_users (UserManager_push (Some u)) w))"
  proof (cases "w_users w")
    case None
    with w show ?thesis by simp
  next
    case (Some um)
    with w have "users_inv um" by (simp add: world_inv_users)
    then obtain um' where "UserManager_push (Some u) um = (Inr (), um')" and "users_inv um'"
      using assms by (rule push_users_inv)
    with w Some show ?thesis by (simp add: world_inv_set_users)
  qed
qed

lemma keeps_cond: "(b \<Longrightarrow> keeps I m) \<Longrightarrow> keeps I (if b then m else eff_return ())"
  by (simp add: keeps_atoms)

lemma check_keeps [keeps_rules]:
  "keeps world_inv (UserManager_checkRegUser D st)"
  "keeps world_inv (UserManager_checkAuthUser D st)"
  unfolding UserManager_checkRegUser_def UserManager_checkAuthUser_def
  by (intro keeps_rules; simp)+

lemma reg_keeps [keeps_rules]: "keeps world_inv (QueryEngine_reg D E s c)"
  unfolding QueryEngine_reg_def create_some by (intro keeps_rules push_user_keeps) simp

lemma auth_keeps [keeps_rules]: "keeps world_inv (QueryEngine_auth D E s c)"
  unfolding QueryEngine_auth_def create_some by (intro keeps_rules push_user_keeps) simp

lemma requests_keep [keeps_rules]:
  "keeps world_inv (QueryEngine_getHistory D E hr)"
  "keeps world_inv (QueryEngine_getChannels D E cr)"
  "keeps world_inv (QueryEngine_joinRoom D E jr)"
  "keeps world_inv (QueryEngine_sendText D E ord tr)"
  unfolding QueryEngine_getHistory_def QueryEngine_getChannels_def QueryEngine_joinRoom_def
    QueryEngine_sendText_def Let_def lock_session_def
  by (intro keeps_rules)+

section \<open>Registration and authorisation, for every backend that keeps accounts\<close>

definition respond :: "env \<Rightarrow> session \<Rightarrow> response \<Rightarrow> 'db world \<Rightarrow> 'db world" where
  "respond E s r w = (if s \<in> w_sessions w then enqueue [(s, serialize E r)] w else w)"

lemma respond_fields [simp]:
  "w_db (respond E s r w) = w_db w"
  "w_users (respond E s r w) = w_users w"
  "idChannels (respond E s r w) = idChannels w"
  "w_heap (respond E s r w) = w_heap w"
  "w_sessions (respond E s r w) = w_sessions w"
  "world_inv (respond E s r w) = world_inv w"
  by (simp_all add: respond_def)

lemma write_respond:
  "eff_bind (write_if_alive s (serialize E r)) (\<lambda>_. eff_return ()) w = (Inr (), respond E s r w)"
  by (cases "s \<in> w_sessions w") (simp_all add: respond_def)

locale engine_accounts =
  user_registry ok same accounts "db_checkRegUser D" "db_checkAuthUser D" room good
  for D :: "'db idatabase"
    and accounts :: "'db \<Rightarrow> account_map"
    and ok :: "'db \<Rightarrow> bool"
    and same :: "'db \<Rightarrow> 'db \<Rightarrow> bool"
    and room :: "'db \<Rightarrow> bool"
    and good :: "input_settings \<Rightarrow> bool"
begin

lemma reg_fresh_login:
  assumes "world_inv w" and "w_db w = Some d" and "w_users w = Some um"
    and "ok d" and "room d" and "accounts d (login c) = None" and "good (input_of c)"
  obtains i d' um' where
    "QueryEngine_reg D E s c w =
       (Inr (), respond E s (RegistrationResponseMsg i) (w\<lparr>w_db := Some d', w_users := Some um'\<rparr>))"
    and "i \<noteq> 0" and "ok d'" and "accounts d' = (accounts d)(login c \<mapsto> (i, password c))"
    and "i \<notin> account_ids (accounts d)"
    and "\<exists>u. UserManager_getUser i um' = Some u \<and> u_session u = s"
    and "\<forall>j. j \<noteq> i \<longrightarrow> idClients um' j = idClients um j"
proof -
  have "accounts d (clientName (input_of c)) = None" using assms(6) by (simp add: input_of_def)
  then obtain i d' where db: "db_checkRegUser D (input_of c) d = (Inr i, d')" "ok d'" "i \<noteq> 0"
    "i \<notin> account_ids (accounts d)" "accounts d' = (accounts d)(login c \<mapsto> (i, password c))"
    using reg_fresh [OF assms(7,4,5)] by (auto simp: input_of_def)
  let ?u = "\<lparr>u_session = s, u_login = login c, u_password = password c, u_id = i\<rparr>"
  have um: "users_inv um" using assms(1,3) by (rule world_inv_users)
  obtain um' where push: "UserManager_push (Some ?u) um = (Inr (), um')"
    using push_users_inv [OF um, of ?u] db(3) by auto
  have "QueryEngine_reg D E s c w =
    (Inr (), respond E s (RegistrationResponseMsg i) (w\<lparr>w_db := Some d', w_users := Some um'\<rparr>))"
    using assms(2,3) db push
    by (simp add: QueryEngine_reg_def UserManager_checkRegUser_def write_respond del: write_if_alive_run)
  then show thesis
    using db(2-5) push_getUser [OF um push] push_frame [OF um push] by (intro that) auto
qed

lemma reg_busy_login:
  assumes "w_db w = Some d" and "ok d" and "accounts d (login c) = Some a" and "good (input_of c)"
  shows "\<exists>d'. same d d' \<and>
    QueryEngine_reg D E s c w = (Inr (), respond E s (RegistrationResponseMsg 0) (w\<lparr>w_db := Some d'\<rparr>))"
proof -
  obtain d' where "db_checkRegUser D (input_of c) d = (Inr 0, d')" and "same d d'"
    using reg_busy [OF assms(4,2), of a] assms(3) by (auto simp: input_of_def)
  then show ?thesis using assms(1)
    by (auto simp: QueryEngine_reg_def UserManager_checkRegUser_def write_respond
        simp del: write_if_alive_run intro!: exI [of _ d'])
qed

lemma auth_rejected:
  assumes "w_db w = Some d" and "ok d" and "\<And>i. accounts d (login c) \<noteq> Some (i, password c)"
    and "good (input_of c)"
  shows "\<exists>d'. same d d' \<and>
    QueryEngine_auth D E s c w =
      (Inr (), respond E s (AuthorisationResponseMsg 0) (w\<lparr>w_db := Some d'\<rparr>))"
proof -
  have "auth_answer (accounts d) (input_of c) = 0"
    using assms(3) by (auto simp: auth_answer_def input_of_def split: option.split)
  then obtain d' where "db_checkAuthUser D (input_of c) d = (Inr 0, d')" and "same d d'"
    using auth_reads [OF assms(4,2)] by auto
  then show ?thesis using assms(1)
    by (auto simp: QueryEngine_auth_def UserManager_checkAuthUser_def write_respond
        simp del: write_if_alive_run intro!: exI [of _ d'])
qed

lemma auth_accepted:
  assumes "world_inv w" and "w_db w = Some d" and "w_users w = Some um"
    and "ok d" and "accounts d (login c) = Some (i, password c)" and "good (input_of c)"
  obtains d' um' where
    "QueryEngine_auth D E s c w =
       (Inr (), respond E s (AuthorisationResponseMsg i) (w\<lparr>w_db := Some d', w_users := Some um'\<rparr>))"
    and "same d d'" and "i \<noteq> 0"
    and "\<exists>u. UserManager_getUser i um' = Some u \<and> u_session u = s"
    and "\<forall>j. j \<noteq> i \<longrightarrow> idClients um' j = idClients um j"
proof -
  have "i \<in> account_ids (accounts d)" using assms(5) by (auto simp: account_ids_def)
  with ids_nonzero [OF assms(4)] have i: "i \<noteq> 0" by auto
  have "auth_answer (accounts d) (input_of c) = i"
    using assms(5) by (simp add: auth_answer_def input_of_def)
  then obtain d' where db: "db_checkAuthUser D (input_of c) d = (Inr i, d')" "same d d'"
    using auth_reads [OF assms(6,4)] by auto
  let ?u = "\<lparr>u_session = s, u_login = login c, u_password = password c, u_id = i\<rparr>"
  have um: "users_inv um" using assms(1,3) by (rule world_inv_users)
  obtain um' where push: "UserManager_push (Some ?u) um = (Inr (), um')"
    using push_users_inv [OF um, of ?u] i by auto
  have "QueryEngine_auth D E s c w =
    (Inr (), respond E s (AuthorisationResponseMsg i) (w\<lparr>w_db := Some d', w_users := Some um'\<rparr>))"
    using assms(2,3) db i push
    by (simp add: QueryEngine_auth_def UserManager_checkAuthUser_def write_respond
        del: write_if_alive_run)
  then show thesis
    using i db(2) push_getUser [OF um push] push_frame [OF um push] by (intro that) auto
qed

text \<open>Registration from one session, then authorisation from another.\<close>

lemma reg_then_login:
  assumes "world_inv w" and "w_db w = Some d" and "w_users w = Some um"
    and "ok d" and "room d" and "accounts d (login c) = None" and "good (input_of c)"
    and "QueryEngine_reg D E s c w = (r1, w1)" and "QueryEngine_auth D E t c w1 = (r2, w2)"
  shows "\<exists>i um1 um2 d' d2. r1 = Inr () \<and> r2 = Inr () \<and> i \<noteq> 0 \<and> i \<notin> account_ids (accounts d) \<and>
    w1 = respond E s (RegistrationResponseMsg i) (w\<lparr>w_db := Some d', w_users := Some um1\<rparr>) \<and>
    w2 = respond E t (AuthorisationResponseMsg i) (w1\<lparr>w_db := Some d2, w_users := Some um2\<rparr>) \<and>
    ok d' \<and> same d' d2 \<and> accounts d' = (accounts d)(login c \<mapsto> (i, password c)) \<and>
    map_option u_session (UserManager_getUser i um1) = Some s \<and>
    map_option u_session (UserManager_getUser i um2) = Some t"
proof -
  from reg_fresh_login [OF assms(1-7), of E s]
  obtain i d' um1 where reg: "QueryEngine_reg D E s c w =
      (Inr (), respond E s (RegistrationResponseMsg i) (w\<lparr>w_db := Some d', w_users := Some um1\<rparr>))"
    and d': "ok d'" "accounts d' = (accounts d)(login c \<mapsto> (i, password c))"
    and i: "i \<noteq> 0" "i \<notin> account_ids (accounts d)"
    and user: "\<exists>u. UserManager_getUser i um1 = Some u \<and> u_session u = s"
    by metis
  have w1: "w1 = respond E s (RegistrationResponseMsg i) (w\<lparr>w_db := Some d', w_users := Some um1\<rparr>)"
    using reg assms(8) by simp
  have inv: "world_inv w1" using keeps_run [OF reg_keeps assms(1,8)] .
  have db: "w_db w1 = Some d'" and users: "w_users w1 = Some um1" using w1 by simp_all
  have acc: "accounts d' (login c) = Some (i, password c)" using d'(2) by simp
  from auth_accepted [OF inv db users d'(1) acc assms(7), of E t]
  obtain um2 d2 where auth: "QueryEngine_auth D E t c w1 =
      (Inr (), respond E t (AuthorisationResponseMsg i) (w1\<lparr>w_db := Some d2, w_users := Some um2\<rparr>))"
    and same: "same d' d2" and user2: "\<exists>u. UserManager_getUser i um2 = Some u \<and> u_session u = t"
    by metis
  show ?thesis
    using reg auth assms(8,9) i user user2 w1 d' same
    by (intro exI [of _ i] exI [of _ um1] exI [of _ um2] exI [of _ d'] exI [of _ d2]) auto
qed

end

interpretation storage_engine:
  engine_accounts Storage_db storage_accounts storage_inv "(=)" storage_room "\<lambda>_. True"
  by unfold_locales

section \<open>Channels over Storage\<close>

lemma storage_no_members [simp]: "db_getChannelUsers Storage_db i d = (Inr [], d)"
  by (simp add: Storage_db_def Storage_getChannelUsers_def)

lemma storage_new_channel:
  assumes "w_db w = Some d" and "storage_room d" and "name \<noteq> []" and "nameIdChannels d name = None"
  shows "createOrGetChannelByName Storage_db name w =
    (Inr (Some (w_next w)),
     w\<lparr>w_db := Some (snd (Storage_createChannel name d)),
       w_heap := (w_heap w)(w_next w \<mapsto> \<lparr>ch_name = name, ch_id = counterId d + 1, idUsers = {}\<rparr>),
       w_next := Suc (w_next w),
       idChannels := (idChannels w)(counterId d + 1 \<mapsto> Some (w_next w))\<rparr>)"
proof -
  have "db_hasChannel Storage_db name d = (Inr False, d)"
    and "db_createChannel Storage_db name d = (Inr (counterId d + 1), snd (Storage_createChannel name d))"
    using assms(4) by (simp_all add: Storage_db_def Storage_hasChannel_def createChannel_cases)
  then show ?thesis
    using assms(1-3) by (simp add: createOrGet_created new_registered_ok [OF _] storage_room_def Channel_new_def
        new_registered_channel_def make_shared_channel_def register_channel_def)
qed

lemma directory_zero: "world_inv w \<Longrightarrow> idChannels w 0 = None"
  by (cases "idChannels w 0") (fastforce simp: world_inv_def directory_ok_def heap_ok_def channel_ok_def)+

lemma storage_empty_name:
  assumes "world_inv w" and "w_db w = Some d"
  shows "\<exists>e d'. createOrGetChannelByName Storage_db [] w = (Inl e, w\<lparr>w_db := d'\<rparr>)"
proof (cases "nameIdChannels d []")
  case None
  then have "db_hasChannel Storage_db [] d = (Inr False, d)"
    and "db_createChannel Storage_db [] d = (Inr (counterId d + 1), snd (Storage_createChannel [] d))"
    by (simp_all add: Storage_db_def Storage_hasChannel_def createChannel_cases)
  then show ?thesis
    using assms(2) by (auto simp: createOrGet_created new_registered_fails Channel_new_rejects)
next
  case (Some i)
  then have "db_hasChannel Storage_db [] d = (Inr True, d)"
    and "db_getChannelId Storage_db [] d = (Inr 0, d)"
    by (simp_all add: Storage_db_def Storage_hasChannel_def Storage_getChannelId_def)
  then show ?thesis
    using assms(2) directory_zero [OF assms(1)]
    by (auto simp: createOrGet_generated new_registered_fails Channel_new_rejects
        intro: exI [of _ "Some d"])
qed

section \<open>Properties\<close>

text \<open>
  A client of the examples, and a world in which nobody has registered yet but the sessions 7 and 8
  are connected.
\<close>

definition sample_credentials :: credentials where
  "sample_credentials = \<lparr>login = ''ann'', password = ''x''\<rparr>"

definition fresh_world :: "storage world" where
  "fresh_world = (start_world empty_storage)\<lparr>w_sessions := {7, 8}\<rparr>"

lemma fresh_world_facts [simp]:
  "world_inv fresh_world" "w_db fresh_world = Some empty_storage"
  "w_users fresh_world = Some empty_user_manager" "w_queue fresh_world = Some []"
  "w_sessions fresh_world = {7, 8}"
  "storage_inv empty_storage" "storage_room empty_storage" "nameIdUsers empty_storage n = None"
  "nameIdChannels empty_storage n = None"
  by (simp_all add: fresh_world_def storage_inv_empty, simp_all add: start_world_def empty_storage_def
      storage_room_def)

text \<open>C34: Over \<open>Storage\<close>, registering a free login from one session and then authorising the same
  credentials from another gives the same new non-zero id in both replies. The first session is
  filed as the user's, and authorisation moves the user to the second; each reply goes only to the
  session that asked.\<close>

theorem register_login_takeover:
  assumes "world_inv w" and "w_db w = Some d" and "w_users w = Some um"
    and "storage_inv d" and "storage_room d" and "nameIdUsers d (login c) = None"
    and "QueryEngine_reg Storage_db E s c w = (r1, w1)"
    and "QueryEngine_auth Storage_db E t c w1 = (r2, w2)"
  shows "\<exists>i um1 um2 d'. r1 = Inr () \<and> r2 = Inr () \<and> i \<noteq> 0 \<and> i \<notin> ran (nameIdUsers d) \<and>
    w1 = respond E s (RegistrationResponseMsg i) (w\<lparr>w_db := Some d', w_users := Some um1\<rparr>) \<and>
    w2 = respond E t (AuthorisationResponseMsg i) (w1\<lparr>w_users := Some um2\<rparr>) \<and>
    map_option u_session (UserManager_getUser i um1) = Some s \<and>
    map_option u_session (UserManager_getUser i um2) = Some t"
proof -
  have "storage_accounts d (login c) = None" using assms(4,6) by (simp add: storage_accounts_None)
  from storage_engine.reg_then_login [OF assms(1-5) this TrueI assms(7,8)]
  obtain i um1 um2 d' where "r1 = Inr ()" "r2 = Inr ()" "i \<noteq> 0" "i \<notin> account_ids (storage_accounts d)"
    "w1 = respond E s (RegistrationResponseMsg i) (w\<lparr>w_db := Some d', w_users := Some um1\<rparr>)"
    "w2 = respond E t (AuthorisationResponseMsg i) (w1\<lparr>w_db := Some d', w_users := Some um2\<rparr>)"
    "map_option u_session (UserManager_getUser i um1) = Some s"
    "map_option u_session (UserManager_getUser i um2) = Some t" by blast
  then show ?thesis
    using assms(4) by (intro exI [of _ i] exI [of _ um1] exI [of _ um2] exI [of _ d'])
      (simp add: storage_account_ids)
qed

lemma register_login_takeover_witness:
  "fst (QueryEngine_auth Storage_db sample_env 8 sample_credentials
     (snd (QueryEngine_reg Storage_db sample_env 7 sample_credentials fresh_world))) = Inr ()"
  using register_login_takeover [OF fresh_world_facts(1,2,3,6,7,8) prod.collapse [symmetric]
      prod.collapse [symmetric], of sample_env 7 sample_credentials 8] by metis

text \<open>A refused login changes nothing: over \<open>Storage\<close>, registering a login that exists, or
  authorising with a login and password that are not an account, answers code 0 to the asking
  session (if it is alive) and leaves the whole shared state as it was.\<close>

theorem refused_logins:
  assumes "w_db w = Some d" and "storage_inv d"
  shows "(storage_accounts d (login c) = None \<or>
      QueryEngine_reg Storage_db E s c w = (Inr (), respond E s (RegistrationResponseMsg 0) w)) \<and>
    ((\<exists>i. storage_accounts d (login c) = Some (i, password c)) \<or>
      QueryEngine_auth Storage_db E s c w = (Inr (), respond E s (AuthorisationResponseMsg 0) w))"
  using storage_engine.reg_busy_login [OF assms, of c _ E s]
    storage_engine.auth_rejected [OF assms, of c E s] world_self(1) [OF assms(1)]
  by (metis option.exhaust)

lemma refused_logins_witness:
  "QueryEngine_auth Storage_db sample_env 7 sample_credentials fresh_world =
   (Inr (), respond sample_env 7 (AuthorisationResponseMsg 0) fresh_world)"
  using refused_logins [of fresh_world empty_storage sample_credentials sample_env 7]
  by (simp add: storage_accounts_None) (simp add: storage_accounts_def)

text \<open>Joining a new channel over \<open>Storage\<close> makes the connected client its only member, posts one
  positive answer to the client's session, and records the channel for the client, so that
  \<open>getChannels\<close> afterwards answers with the client's earlier channels and this one.\<close>

theorem join_then_list:
  assumes "w_db w = Some d" and "storage_room d" and "w_users w = Some um"
    and "UserManager_getUser i um = Some u" and "u_id u = i" and "u_session u \<in> w_sessions w"
    and "name \<noteq> []" and "nameIdChannels d name = None"
    and "QueryEngine_joinRoom Storage_db E \<lparr>jr_client_id = i, jr_channel_name = name\<rparr> w = (r1, w1)"
    and "QueryEngine_getChannels Storage_db E \<lparr>cr_client_id = i\<rparr> w1 = (r2, w2)"
  shows "r1 = Inr () \<and> r2 = Inr () \<and>
    map_option idUsers (w_heap w1 (w_next w)) = Some {i} \<and>
    w_queue w2 = map_option (\<lambda>q. q @
      [(u_session u, serialize E (JoinRoomResponseMsg name True)),
       (u_session u, serialize E (ChannelsResponseMsg (storage_joined d i @ [name])))]) (w_queue w)"
proof -
  let ?c = "\<lparr>ch_name = name, ch_id = counterId d + 1, idUsers = {}\<rparr>"
  let ?wc = "w\<lparr>w_db := Some (snd (Storage_createChannel name d)),
       w_heap := (w_heap w)(w_next w \<mapsto> ?c),
       w_next := Suc (w_next w),
       idChannels := (idChannels w)(counterId d + 1 \<mapsto> Some (w_next w))\<rparr>"
  let ?wa = "enqueue [(u_session u, serialize E (JoinRoomResponseMsg name True))]
      (?wc\<lparr>w_heap := (w_heap w)(w_next w \<mapsto> ?c\<lparr>idUsers := {i}\<rparr>)\<rparr>)"
  let ?d = "snd (Storage_joinClientChannel i name (snd (Storage_createChannel name d)))"
  have add: "Channel_addUser E (Some (w_next w)) i ?wc = (Inr (), ?wa)"
    using addUser_new [of ?wc "w_next w" ?c um i E] assms(3,4,6) by simp
  have join: "r1 = Inr ()" "w1 = ?wa\<lparr>w_db := Some ?d\<rparr>"
    using assms(9) storage_new_channel [OF assms(1,2,7,8)] assms(3,4,5) add
    by (auto simp: QueryEngine_joinRoom_def joinClientChannel_def Storage_db_def)
  have "storage_joined ?d i = storage_joined d i @ [name]"
    using assms(8) by (simp add: storage_joined_def Storage_joinClientChannel_def createChannel_cases
        split: option.split)
  moreover have "db_getUserNameChannels Storage_db i ?d = (Inr (storage_joined ?d i), ?d)"
    by (simp add: Storage_db_def Storage_getUserNameChannels_def storage_joined_def split: option.split)
  ultimately show ?thesis
    using assms(3,4,6,10) join
    by (auto simp: QueryEngine_getChannels_def lock_session_def getUserNameChannels_def option.map_comp comp_def)
qed

definition joined_world :: "storage world" where
  "joined_world = fresh_world\<lparr>w_users := Some \<lparr>idClients = [1 \<mapsto> Some (sample_user 7 1)]\<rparr>\<rparr>"

lemma join_then_list_witness:
  "w_queue (snd (QueryEngine_getChannels Storage_db sample_env \<lparr>cr_client_id = 1\<rparr>
     (snd (QueryEngine_joinRoom Storage_db sample_env
       \<lparr>jr_client_id = 1, jr_channel_name = ''c''\<rparr> joined_world)))) =
   Some [(7, sample_serialize (JoinRoomResponseMsg ''c'' True)),
         (7, sample_serialize (ChannelsResponseMsg [''c'']))]"
  using join_then_list [OF _ fresh_world_facts(7) _ _ _ _ _ fresh_world_facts(9) prod.collapse [symmetric]
      prod.collapse [symmetric], of joined_world "\<lparr>idClients = [1 \<mapsto> Some (sample_user 7 1)]\<rparr>" 1
      "sample_user 7 1" "''c''" sample_env]
  by (simp add: joined_world_def UserManager_getUser_def sample_user_def
      storage_joined_def empty_storage_def)

text \<open>Over \<open>Storage\<close> no text message is ever delivered: \<open>sendText\<close> either creates the channel,
  which has no members then, or throws, because a known channel is looked up under id 0. The write
  queue is the same before and after every call.\<close>

theorem storage_texts_undelivered:
  assumes "world_inv w" and "w_db w = Some d" and "storage_room d" and "enumerates ord"
  shows "w_queue (snd (QueryEngine_sendText Storage_db E ord request w)) = w_queue w"
proof (cases "tr_channel_name request = []")
  case True
  obtain e d' where "createOrGetChannelByName Storage_db [] w = (Inl e, w\<lparr>w_db := d'\<rparr>)"
    using storage_empty_name [OF assms(1,2)] by blast
  with True show ?thesis by (simp add: QueryEngine_sendText_def)
next
  case named: False
  show ?thesis
  proof (cases "nameIdChannels d (tr_channel_name request)")
    case None
    have "ord {} = []" using assms(4) unfolding enumerates_def by (metis finite.emptyI set_empty)
    show ?thesis
      using storage_new_channel [OF assms(2,3) named None] \<open>ord {} = []\<close>
      by (cases "w_users w") (simp_all add: QueryEngine_sendText_def Channel_write_def)
  next
    case (Some i)
    then show ?thesis
      using storage_known_throws [OF assms(1,2) named] by (simp add: QueryEngine_sendText_def)
  qed
qed

lemma storage_texts_undelivered_witness:
  "w_queue (snd (QueryEngine_sendText Storage_db sample_env sorted_ids
     (the (text_request (sample_request [99]))) fresh_world)) = Some []"
  by (subst storage_texts_undelivered [OF fresh_world_facts(1,2,7) sorted_ids_enumerates]) simp

text \<open>\<open>getChannels\<close> for a client that is not connected is meant to log an error and return, but
  the log call formats an argument into a string that has no place for it: with the documented
  default of Boost.Format the request ends with that exception.\<close>

theorem channels_of_unknown_client:
  assumes "format_documented E" and "w_users w = Some um"
    and "UserManager_getUser (cr_client_id request) um = None"
  shows "QueryEngine_getChannels D E request w = (Inl (Thrown (Format_error ''too_many_args'')), w)"
  using assms by (simp add: QueryEngine_getChannels_def boost_format_extra directives_def)

lemma channels_of_unknown_client_witness:
  "fst (QueryEngine_getChannels Storage_db sample_env \<lparr>cr_client_id = 1\<rparr> fresh_world) =
   Inl (Thrown (Format_error ''too_many_args''))"
  by (subst channels_of_unknown_client [OF sample_format fresh_world_facts(3)])
    (simp_all add: UserManager_getUser_def empty_user_manager_def)

end
