(* ===== verification/Pg_Backend.thy ===== *)
theory Pg_Backend
  imports Pg_History Query_Engine
begin

text \<open>
  The server over PostgreSQL: the clients of the account, channel and history contracts on
  \<open>WrapperPg\<close>, and the behaviours the contracts leave out: a quote in a password, a wrapper that
  never connected, a message whose author has no account, a join whose log call throws after
  the subscription is stored.
\<close>

section \<open>Clients of the contracts\<close>

lemma pg_engine:
  assumes "postgres_documented L content"
  shows "engine_accounts (Pg_db L E) (pg_accounts content) (pg_ok content) (pg_same content)
    (room_clients content) good_input"
  by (rule engine_accounts.intro [OF pg_user_registry [OF assms]])

lemma pg_manager:
  assumes "postgres_documented L content"
  shows "manager_backend (Pg_db L E) (pg_ok content) (pg_same content) (pg_names content)
    (room_channels content) good_channel"
  by (rule manager_backend.intro [OF pg_channel_lookup [OF assms]])

interpretation mini_engine:
  engine_accounts "Pg_db mini E" "pg_accounts Some" "pg_ok Some" "pg_same Some" "room_clients Some"
    good_input for E
  by (rule pg_engine [OF mini_documented])

interpretation mini_manager:
  manager_backend "Pg_db mini E" "pg_ok Some" "pg_same Some" "pg_names Some" "room_channels Some"
    good_channel for E
  by (rule pg_manager [OF mini_documented])

section \<open>Examples\<close>

text \<open>A wrapper connected to the small server, and tables with one account and one channel.\<close>

definition mini_wrapper :: "pg_tables \<Rightarrow> pg_tables wrapper" where
  "mini_wrapper t = \<lparr>connection = Some t, isConnected = True\<rparr>"

definition sample_tables :: pg_tables where
  "sample_tables = with_channel ''c'' (with_clients [(''ann'', ''x'')] empty_tables)"

definition pg_world :: "pg_tables \<Rightarrow> pg_tables wrapper world" where
  "pg_world t = (start_world (mini_wrapper t))\<lparr>w_sessions := {7, 8}\<rparr>"

definition sample_message :: text_msg where
  "sample_message = \<lparr>msg_author = ''ann'', msg_text = ''hi'', msg_channel_name = ''c'',
     msg_dt = \<lparr>dt_time = \<lparr>hours = 9, minutes = 5, seconds = 0\<rparr>,
               dt_date = \<lparr>day = 3, month = 2, year = 2021\<rparr>\<rparr>\<rparr>"

lemma mini_holds [simp]: "holds Some t (mini_wrapper t)"
  by (simp add: holds_def mini_wrapper_def)

lemma mini_tables_of [simp]: "tables_of Some (mini_wrapper t) = t"
  by (simp add: tables_of_def mini_wrapper_def)

lemma pg_world_facts [simp]:
  "world_inv (pg_world t)" "w_db (pg_world t) = Some (mini_wrapper t)"
  "w_users (pg_world t) = Some empty_user_manager"
  by (simp_all add: pg_world_def, simp_all add: start_world_def)

lemma empty_tables_fields [simp]:
  "t_clients empty_tables = []" "t_channels empty_tables = []" "t_history empty_tables = []"
  "t_subscriptions empty_tables = []" "next_client empty_tables = 1" "next_channel empty_tables = 1"
  "client_named empty_tables n = None" "channel_named empty_tables n = None"
  by (simp_all add: empty_tables_def client_named_def channel_named_def)

lemma empty_tables_ok [simp]: "tables_ok empty_tables"
  by (simp add: tables_ok_def)

lemma sample_names [simp]:
  "client_named sample_tables n =
     (if n = ''ann'' then Some \<lparr>pc_id = 1, pc_login = ''ann'', pc_password = ''x''\<rparr> else None)"
  "channel_named sample_tables n = (if n = ''c'' then Some \<lparr>ph_id = 1, ph_name = ''c''\<rparr> else None)"
  by (auto simp: sample_tables_def with_channel_def with_clients_def client_named_def channel_named_def)

lemma sample_fields [simp]:
  "next_client sample_tables = 2" "next_channel sample_tables = 2"
  "t_subscriptions sample_tables = []" "t_history sample_tables = []"
  by (simp_all add: sample_tables_def with_channel_def with_clients_def)

lemma sample_tables_ok [simp]: "tables_ok sample_tables"
proof -
  have "tables_ok (with_clients [(''ann'', ''x'')] empty_tables)"
    by (rule tables_ok_client) simp_all
  then show ?thesis
    unfolding sample_tables_def
    by (rule tables_ok_channel)
      (simp_all add: channel_named_def with_clients_def fits_def plain_def)
qed

lemma mini_ok [simp]: "pg_ok Some (mini_wrapper t) \<longleftrightarrow> tables_ok t"
  by (auto simp: pg_ok_def holds_def mini_wrapper_def)

section \<open>Properties\<close>

text \<open>C7: Over PostgreSQL, registering a free login from one session and then authorising the same
  credentials from another gives the same new non-zero id in both replies and moves the user to the
  second session, as long as both texts are free of quotes and fit their columns; afterwards the
  account is in the database.\<close>

theorem pg_register_login:
  assumes "postgres_documented L content" and "world_inv w" and "w_db w = Some d" and "w_users w = Some um"
    and "pg_ok content d" and "room_clients content d" and "pg_accounts content d (login c) = None"
    and "fits 32 (login c)" and "fits 32 (password c)"
    and "QueryEngine_reg (Pg_db L E) E s c w = (r1, w1)"
    and "QueryEngine_auth (Pg_db L E) E t c w1 = (r2, w2)"
  shows "\<exists>i um1 um2 d' d2. r1 = Inr () \<and> r2 = Inr () \<and> i \<noteq> 0 \<and>
    i \<notin> account_ids (pg_accounts content d) \<and>
    w1 = respond E s (RegistrationResponseMsg i) (w\<lparr>w_db := Some d', w_users := Some um1\<rparr>) \<and>
    w2 = respond E t (AuthorisationResponseMsg i) (w1\<lparr>w_db := Some d2, w_users := Some um2\<rparr>) \<and>
    pg_accounts content d2 = (pg_accounts content d)(login c \<mapsto> (i, password c)) \<and>
    map_option u_session (UserManager_getUser i um1) = Some s \<and>
    map_option u_session (UserManager_getUser i um2) = Some t"
proof -
  have good: "good_input (input_of c)" using assms(8,9) by (simp add: good_input_def input_of_def)
  from engine_accounts.reg_then_login [OF pg_engine [OF assms(1)] assms(2-7) good assms(10,11)]
  obtain i um1 um2 d' d2 where *: "r1 = Inr ()" "r2 = Inr ()" "i \<noteq> 0"
    "i \<notin> account_ids (pg_accounts content d)"
    "w1 = respond E s (RegistrationResponseMsg i) (w\<lparr>w_db := Some d', w_users := Some um1\<rparr>)"
    "w2 = respond E t (AuthorisationResponseMsg i) (w1\<lparr>w_db := Some d2, w_users := Some um2\<rparr>)"
    "pg_ok content d'" "pg_same content d' d2"
    "pg_accounts content d' = (pg_accounts content d)(login c \<mapsto> (i, password c))"
    "map_option u_session (UserManager_getUser i um1) = Some s"
    "map_option u_session (UserManager_getUser i um2) = Some t" by blast
  have "pg_accounts content d2 = pg_accounts content d'"
    using pg_same_keeps [OF *(8,7)] by (simp add: pg_accounts_def fun_eq_iff)
  with * show ?thesis
    by (intro exI [of _ i] exI [of _ um1] exI [of _ um2] exI [of _ d'] exI [of _ d2]) simp
qed

lemma pg_register_login_witness:
  "fst (QueryEngine_auth (Pg_db mini sample_env) sample_env 8 sample_credentials
     (snd (QueryEngine_reg (Pg_db mini sample_env) sample_env 7 sample_credentials
       (pg_world empty_tables)))) = Inr ()"
  using pg_register_login [OF mini_documented pg_world_facts(1-3) _ _ _ _ _ prod.collapse [symmetric]
      prod.collapse [symmetric], of empty_tables sample_credentials sample_env 7 8]
  by (auto simp: room_clients_def pg_accounts_def sample_credentials_def fits_def plain_def)

text \<open>C27: Over PostgreSQL, \<open>createOrGetChannelByName\<close> asked twice for one name gives the same channel
  object, whether or not the database or the manager knew the channel before; the second call
  creates nothing, and the database has the name under the id the object is filed under.\<close>

theorem pg_channel_shared:
  assumes "postgres_documented L content" and "w_db w = Some d" and "pg_ok content d"
    and "room_channels content d" and "fits 32 n" and "n \<noteq> []"
    and "createOrGetChannelByName (Pg_db L E) n w = (r1, w1)"
    and "createOrGetChannelByName (Pg_db L E) n w1 = (r2, w2)"
  shows "\<exists>p i d2. r1 = Inr p \<and> r2 = Inr p \<and> idChannels w1 i = Some p \<and> w2 = w1\<lparr>w_db := Some d2\<rparr> \<and>
    pg_names content d2 n = Some i"
proof -
  have "good_channel n" using assms(5,6) by (simp add: good_channel_def)
  from manager_backend.createOrGet_twice [OF pg_manager [OF assms(1)] assms(2-4) this assms(6-8)]
  show ?thesis by blast
qed

lemma pg_channel_shared_witness:
  "fst (createOrGetChannelByName (Pg_db mini sample_env) ''d''
     (snd (createOrGetChannelByName (Pg_db mini sample_env) ''d'' (pg_world sample_tables)))) =
   fst (createOrGetChannelByName (Pg_db mini sample_env) ''d'' (pg_world sample_tables))"
  using pg_channel_shared [OF mini_documented pg_world_facts(2) _ _ _ _ prod.collapse [symmetric]
      prod.collapse [symmetric], of sample_tables "''d''" sample_env]
  by (auto simp: room_channels_def fits_def plain_def)

text \<open>C6: A message survives the database: what \<open>addMsgHistory\<close> stores for a registered author, a
  channel the database knows, a time stamp that exists and a text that is free of quotes and fits
  its column is in the answer of \<open>getHistory\<close> for that channel, together with the messages stored
  before, each once; the query leaves their order open.\<close>

theorem pg_history_kept:
  assumes "postgres_documented L content" and "tm_documented E" and "pg_ok content w"
    and "plain (msg_author m)" and "pg_accounts content w (msg_author m) \<noteq> None"
    and "pg_names content w (msg_channel_name m) = Some c"
    and "timestamp_exists (msg_dt m)" and "fits 255 (msg_text m)"
    and "WrapperPg_addMsgHistory L c m w = (r1, w1)" and "WrapperPg_getHistory L E c w1 = (r2, w2)"
  shows "\<exists>ms. r1 = Inr () \<and> r2 = Inr ms \<and> mset ms = mset (pg_hist content w c) + {#m#}"
proof -
  have good: "good_message content w c m" using assms(4-8) by (simp add: good_message_def)
  have t: "tables_ok (tables_of content w)" using assms(3) by (rule pg_okE)
  obtain r where r: "channel_named (tables_of content w) (msg_channel_name m) = Some r"
    "c = word_of_nat (ph_id r)" using assms(6) by (auto simp: pg_names_def)
  have "pg_int (ph_id r)" using channel_named_in [OF r(1)] ids_pg_int(2) [OF t] by simp
  then have "pg_int (unat c)" using r(2) by (simp add: word_pg_int)
  from history_log.add_then_get [OF pg_history_log [OF assms(1,2)] assms(3) good this]
  obtain d' ms d2 where "db_addMsgHistory (Pg_db L E) c m w = (Inr (), d')"
    "db_getHistory (Pg_db L E) c d' = (Inr ms, d2)" "mset ms = mset (pg_hist content w c @ [m])"
    by metis
  with assms(9,10) show ?thesis by auto
qed

lemma pg_history_kept_witness:
  "\<exists>ms. fst (WrapperPg_getHistory mini sample_env 1
     (snd (WrapperPg_addMsgHistory mini 1 sample_message (mini_wrapper sample_tables)))) = Inr ms \<and>
   sample_message \<in> set ms"
  using pg_history_kept [OF mini_documented sample_tm_documented _ _ _ _ _ _ prod.collapse [symmetric]
      prod.collapse [symmetric], of "mini_wrapper sample_tables" sample_message 1]
  by (auto simp: sample_message_def plain_def fits_def pg_accounts_def pg_names_def timestamp_exists_def
      datetime_in_range_def month_length_def leap_year_def dest: arg_cong [of _ _ set_mset])

text \<open>C30: The statements are put together from the clients' texts without quoting, so a registration
  can register a second account: with the password \<open>p'), ('m', 'q\<close> the one \<open>INSERT\<close> stores the
  login with the password \<open>p\<close> and the account \<open>m\<close> with the password \<open>q\<close>, with which anybody can log
  in afterwards.\<close>

theorem injected_account:
  assumes "postgres_documented L content" and "pg_ok content w"
    and "next_client (tables_of content w) + 2 \<le> 2 ^ 31"
    and "fits 32 l" and "fits 32 p" and "fits 32 m" and "fits 32 q" and "l \<noteq> m"
    and "pg_accounts content w l = None" and "pg_accounts content w m = None"
    and "injection = p @ [CHR 0x27] @ ''), ('' @ sq m @ '', '' @ [CHR 0x27] @ q"
    and "WrapperPg_checkRegUser L \<lparr>clientName = l, clientPassword = injection\<rparr> w = (r1, w1)"
    and "WrapperPg_checkAuthUser L \<lparr>clientName = m, clientPassword = q\<rparr> w1 = (r2, w2)"
  shows "\<exists>i j. r1 = Inr i \<and> r2 = Inr j \<and> i \<noteq> 0 \<and> j \<noteq> 0 \<and> i \<noteq> j"
proof -
  let ?t = "tables_of content w"
  let ?t1 = "with_clients [(l, p)] ?t" and ?t2 = "with_clients [(l, p), (m, q)] ?t"
  have t: "holds content ?t w" "tables_ok ?t" using assms(2) by (auto elim: pg_okE)
  have free: "client_named ?t l = None" "client_named ?t m = None"
    using assms(9,10) by (simp_all add: pg_accounts_def)
  have t1: "tables_ok ?t1" using assms(3) by (intro tables_ok_client [OF t(2) free(1)]) simp
  have next1: "next_client ?t1 = Suc (next_client ?t)" by (simp add: with_clients_def)
  have two: "?t2 = with_clients [(m, q)] ?t1" by (simp add: with_clients_def)
  have t2: "tables_ok ?t2"
    unfolding two using assms(3,8) free by (intro tables_ok_client [OF t1]) (simp_all add: next1)
  have named: "client_named ?t2 l = Some \<lparr>pc_id = next_client ?t, pc_login = l, pc_password = p\<rparr>"
    "client_named ?t2 m = Some \<lparr>pc_id = Suc (next_client ?t), pc_login = m, pc_password = q\<rparr>"
    unfolding two using assms(8) free by (simp_all add: next1)
  have "gives content ?t (execThreadSafe L (render (InsertClients [(l, p), (m, q)]))) (\<lambda>_. True) ?t2"
    by (rule insertClients_gives [OF assms(1)]) (use assms(3-7) in simp_all)
  moreover have "render (InsertClients [(l, p), (m, q)]) =
      ''INSERT INTO clients(login, password) VALUES ('' @ sq l @ '', '' @ sq injection @ '');''"
    by (simp add: assms(11) sq_def)
  ultimately have insert: "gives content ?t (execThreadSafe L
      (''INSERT INTO clients(login, password) VALUES ('' @ sq l @ '', '' @ sq injection @ '');''))
      (\<lambda>_. True) ?t2" by (simp only:)
  have plain: "plain l" "plain m" using assms(4,6) by (simp_all add: fits_def)
  let ?s = "\<lparr>clientName = l, clientPassword = injection\<rparr>"
  let ?v = "\<lparr>clientName = m, clientPassword = q\<rparr>"
  have reg: "gives content ?t (WrapperPg_checkRegUser L ?s) (\<lambda>i. i = word_of_nat (next_client ?t)) ?t2"
    using checkRegUser_stores [OF assms(1) t(2) _ _ t2, of ?s] insert plain(1) free(1) named(1)
    by (simp add: client_id_of_def del: append.simps)
  from gives_run [OF reg t(1)] assms(12)
  have r1: "r1 = Inr (word_of_nat (next_client ?t))" and w1: "holds content ?t2 w1" by auto
  have auth: "gives content ?t2 (WrapperPg_checkAuthUser L ?v) (\<lambda>j. j = word_of_nat (Suc (next_client ?t))) ?t2"
    using checkAuthUser_gives [OF assms(1) t2, of ?v] plain(2) named(2) by simp
  from gives_run [OF auth w1] assms(13) have r2: "r2 = Inr (word_of_nat (Suc (next_client ?t)))" by auto
  have "pg_int (Suc (next_client ?t))" "pg_int (next_client ?t)" "0 < next_client ?t"
    using assms(3) t(2) by (simp_all add: pg_int_def tables_ok_def)
  then show ?thesis
    using r1 r2 by (auto simp: word_pg_int_eq simp del: of_nat_Suc)
qed

lemma injected_account_witness:
  "\<exists>j. fst (WrapperPg_checkAuthUser mini \<lparr>clientName = ''m'', clientPassword = ''q''\<rparr>
     (snd (WrapperPg_checkRegUser mini
       \<lparr>clientName = ''eve'',
        clientPassword = ''p'' @ [CHR 0x27] @ ''), ('' @ sq ''m'' @ '', '' @ [CHR 0x27] @ ''q''\<rparr>
       (mini_wrapper sample_tables)))) = Inr j \<and> j \<noteq> 0"
  using injected_account [OF mini_documented _ _ _ _ _ _ _ _ _ refl prod.collapse [symmetric]
      prod.collapse [symmetric], of "mini_wrapper sample_tables" "''eve''" "''p''" "''m''" "''q''"]
  by (auto simp: fits_def plain_def pg_accounts_def simp del: append.simps)

text \<open>C31: Over PostgreSQL the first join of a client and a channel throws: the log call after the
  \<open>INSERT\<close> feeds two arguments to a format string with one directive. The subscription is stored
  all the same: a second join returns without doing anything, and \<open>getChannelUsers\<close> lists the
  client, but the list of channels the client gets is unchanged, because it is read from the
  messages the client has written.\<close>

theorem join_stored_then_throws:
  assumes "postgres_documented L content" and "format_documented E" and "pg_ok content w"
    and "fits 32 n" and "pg_names content w n = Some i" and "pg_int (unat c)"
    and "(unat c, unat i) \<notin> set (t_subscriptions (tables_of content w))"
    and "WrapperPg_joinClientChannel L E c n w = (r1, w1)"
    and "WrapperPg_joinClientChannel L E c n w1 = (r2, w2)"
    and "WrapperPg_getChannelUsers L i w2 = (r3, w3)"
    and "WrapperPg_getUserNameChannels L c w3 = (r4, w4)"
  shows "\<exists>us ns. r1 = Inl (Thrown (Format_error ''too_many_args'')) \<and> r2 = Inr () \<and> r3 = Inr us \<and>
    c \<in> set us \<and> r4 = Inr ns \<and>
    set ns = {k. \<exists>m \<in> set (t_history (tables_of content w)). pm_client m = unat c \<and> k = pm_channel m}"
proof -
  let ?t = "tables_of content w"
  have t: "holds content ?t w" "tables_ok ?t" using assms(3) by (auto elim: pg_okE)
  have n: "plain n" using assms(4) by (simp add: fits_def)
  obtain r where r: "channel_named ?t n = Some r" "i = word_of_nat (ph_id r)"
    using assms(5) by (auto simp: pg_names_def)
  have "pg_int (ph_id r)" using channel_named_in [OF r(1)] ids_pg_int(2) [OF t(2)] by simp
  then have i: "unat i = ph_id r" "pg_int (unat i)" using r(2) by (simp_all add: word_pg_int)
  let ?t' = "with_subscription (unat c) (ph_id r) ?t"
  have t': "tables_ok ?t'" using i assms(6) by (intro tables_ok_subscription [OF t(2)]) simp_all
  have same: "channel_named ?t' n = Some r" "t_history ?t' = t_history ?t"
    "(unat c, ph_id r) \<in> set (t_subscriptions ?t')"
    using r(1) by (simp_all add: with_subscription_def channel_named_def)
  have new: "(unat c, ph_id r) \<notin> set (t_subscriptions ?t)" using assms(7) i(1) by simp
  from joinClientChannel_new [OF assms(1,2) t(2) n r(1) assms(6) t(1) new]
  obtain v where "holds content ?t' v"
    and "WrapperPg_joinClientChannel L E c n w = (Inl (Thrown (Format_error ''too_many_args'')), v)" .
  then have r1: "r1 = Inl (Thrown (Format_error ''too_many_args''))" "holds content ?t' w1"
    using assms(8) by simp_all
  from joinClientChannel_again [OF assms(1) t' n same(1) assms(6) r1(2) same(3), of E]
  obtain v where "holds content ?t' v" and "WrapperPg_joinClientChannel L E c n w1 = (Inr (), v)" .
  then have r2: "r2 = Inr ()" "holds content ?t' w2" using assms(9) by simp_all
  from gives_run [OF getChannelUsers_gives [OF assms(1) t' i(2)] r2(2)]
  obtain us v where "WrapperPg_getChannelUsers L i w2 = (Inr us, v)"
    and members: "set us = {word_of_nat k |k. (k, unat i) \<in> set (t_subscriptions ?t')}"
    and "holds content ?t' v" .
  then have r3: "r3 = Inr us" "holds content ?t' w3" using assms(10) by simp_all
  from gives_run [OF getUserNameChannels_gives [OF assms(1,6)] r3(2)]
  obtain ns v where "WrapperPg_getUserNameChannels L c w3 = (Inr ns, v)"
    and written: "distinct ns \<and>
      set ns = {k. \<exists>m \<in> set (t_history ?t'). pm_client m = unat c \<and> k = pm_channel m}" .
  then have r4: "r4 = Inr ns" using assms(11) by simp
  have "(unat c, unat i) \<in> set (t_subscriptions ?t')" using same(3) i(1) by simp
  then have "word_of_nat (unat c) \<in> set us" unfolding members by blast
  then have "c \<in> set us" by simp
  with r1(1) r2(1) r3(1) r4 written show ?thesis unfolding same(2) by blast
qed

lemma join_stored_then_throws_witness:
  "fst (WrapperPg_joinClientChannel mini sample_env 1 ''c'' (mini_wrapper sample_tables)) =
   Inl (Thrown (Format_error ''too_many_args''))"
proof -
  have ok: "pg_ok Some (mini_wrapper sample_tables)" by simp
  have c: "fits 32 ''c''" by (simp add: fits_def plain_def)
  have i: "pg_names Some (mini_wrapper sample_tables) ''c'' = Some 1" by (simp add: pg_names_def)
  have one: "pg_int (unat (1 :: u64))" by (simp add: pg_int_def)
  have new: "(unat (1 :: u64), unat (1 :: u64)) \<notin>
      set (t_subscriptions (tables_of Some (mini_wrapper sample_tables)))" by simp
  from join_stored_then_throws [OF mini_documented sample_format ok c i one new prod.collapse [symmetric]
      prod.collapse [symmetric] prod.collapse [symmetric] prod.collapse [symmetric]]
  show ?thesis by blast
qed

text \<open>A message whose author has no account is lost without an error: it is stored under client 0,
  the foreign key refuses the row, \<open>addMsgHistory\<close> returns, and the history of every channel is what
  it was.\<close>

theorem stranger_message_lost:
  assumes "postgres_documented L content" and "pg_ok content w"
    and "plain (msg_author m)" and "pg_accounts content w (msg_author m) = None"
    and "fits 32 (msg_channel_name m)" and "timestamp_exists (msg_dt m)" and "fits 255 (msg_text m)"
    and "WrapperPg_addMsgHistory L c m w = (r, w')"
  shows "r = Inr () \<and> pg_ok content w' \<and> pg_hist content w' = pg_hist content w"
proof -
  have t: "tables_ok (tables_of content w)" using assms(2) by (rule pg_okE)
  have none: "client_named (tables_of content w) (msg_author m) = None"
    using assms(4) by (simp add: pg_accounts_def)
  have "gives content (tables_of content w) (WrapperPg_addMsgHistory L c m) (\<lambda>u. u = ())
      (tables_of content w)"
    by (rule gives_weaken [OF addMsgHistory_unknown [OF assms(1) t assms(3) none assms(5-7)]]) simp
  from gives_step [OF this assms(2) t] assms(8) show ?thesis by (auto simp: pg_hist_def fun_eq_iff)
qed

lemma stranger_message_lost_witness:
  "fst (WrapperPg_addMsgHistory mini 1 (sample_message\<lparr>msg_author := ''bob''\<rparr>) (mini_wrapper sample_tables)) =
   Inr ()"
  by (rule stranger_message_lost [OF mini_documented _ _ _ _ _ _ prod.collapse [symmetric], THEN conjunct1])
    (simp_all add: sample_message_def plain_def fits_def pg_accounts_def timestamp_exists_def
      datetime_in_range_def month_length_def leap_year_def)

text \<open>A \<open>WrapperPg\<close> that was never connected answers every call with a default, sends nothing and
  changes nothing, except for \<open>addMsgHistory\<close>: it alone does not look at \<open>isConnected\<close> and hands a
  connection pointer that was never set to \<open>PQexec\<close>.\<close>

theorem unconnected_calls:
  "WrapperPg_checkRegUser L s WrapperPg_new = (Inr LOGIN_IS_FREE, WrapperPg_new) \<and>
   WrapperPg_checkAuthUser L s WrapperPg_new = (Inr AUTH_LOGIN_IS_NOT_AVAILABLE, WrapperPg_new) \<and>
   WrapperPg_getUserNameChannels L i WrapperPg_new = (Inr [], WrapperPg_new) \<and>
   WrapperPg_getChannelUsers L i WrapperPg_new = (Inr [], WrapperPg_new) \<and>
   WrapperPg_hasChannel L n WrapperPg_new = (Inr False, WrapperPg_new) \<and>
   WrapperPg_createChannel L n WrapperPg_new = (Inr LOGIN_IS_FREE, WrapperPg_new) \<and>
   WrapperPg_joinClientChannel L E i n WrapperPg_new = (Inr (), WrapperPg_new) \<and>
   WrapperPg_getHistory L E i WrapperPg_new = (Inr [], WrapperPg_new) \<and>
   WrapperPg_getChannelId L n WrapperPg_new = (Inr LOGIN_IS_FREE, WrapperPg_new) \<and>
   WrapperPg_getCurrentChannels L WrapperPg_new = (Inr Map.empty, WrapperPg_new) \<and>
   WrapperPg_addMsgHistory L i m WrapperPg_new = (Inl Unset_pointer, WrapperPg_new)"
  by (simp add: WrapperPg_new_def WrapperPg_checkRegUser_def WrapperPg_checkAuthUser_def
      WrapperPg_getUserNameChannels_def WrapperPg_getChannelUsers_def WrapperPg_hasChannel_def
      WrapperPg_createChannel_def WrapperPg_joinClientChannel_def WrapperPg_getHistory_def
      WrapperPg_getChannelId_def WrapperPg_getCurrentChannels_def WrapperPg_addMsgHistory_def
      WrapperPg_getClientId_def exec_query_def Let_def del: db_codes)

end
