(* ===== verification/Channel_Race.thy ===== *)
theory Channel_Race
  imports Interleaving Pg_Backend
begin

text \<open>
  \<open>ChannelsManager::createOrGetChannelByName\<close> on several threads of the pool. The database is asked
  outside the manager's mutex, so the function is a program of steps: each call of the database, the
  construction of the channel, and each block under the mutex is one step. Theory \<open>Channels_Manager\<close>
  runs it in one piece; here that is a theorem about a thread by itself.
\<close>

section \<open>The steps\<close>

datatype chan_pc =
    Ask string \<comment> \<open>before \<open>db->hasChannel\<close>\<close>
  | Known string \<comment> \<open>before \<open>db->getChannelId\<close>\<close>
  | Lookup string type_id_user \<comment> \<open>before the block under the mutex\<close>
  | Missing string \<comment> \<open>before \<open>db->createChannel\<close>\<close>
  | Construct string type_id_user \<comment> \<open>before \<open>make_shared<Channel>\<close>\<close>
  | File type_id_user channel_ptr \<comment> \<open>before the assignment under the mutex\<close>
  | Returned channel_ptr
  | Failed failure

fun chan_finished :: "chan_pc \<Rightarrow> bool" where
  "chan_finished (Returned p) = True"
| "chan_finished (Failed e) = True"
| "chan_finished pc = False"

fun chan_step :: "'db idatabase \<Rightarrow> chan_pc \<Rightarrow> ('db world, chan_pc) eff" where
  "chan_step D (Ask name) =
     eff_bind (eff_gets w_db) (\<lambda>db.
     case db of
       None \<Rightarrow> eff_return (Returned None)
     | Some _ \<Rightarrow>
         eff_bind (on_db (db_hasChannel D name)) (\<lambda>known.
         eff_return (if known then Known name else Missing name)))"
| "chan_step D (Known name) =
     eff_bind (on_db (db_getChannelId D name)) (\<lambda>channel_id.
     eff_return (Lookup name channel_id))"
| "chan_step D (Lookup name channel_id) =
     eff_bind (eff_gets (\<lambda>w. idChannels w channel_id)) (\<lambda>found.
     case found of
       None \<Rightarrow>
         eff_bind (new_registered_channel D name channel_id) (\<lambda>p.
         eff_return (Returned p))
     | Some p \<Rightarrow> eff_return (Returned p))"
| "chan_step D (Missing name) =
     eff_bind (on_db (db_createChannel D name)) (\<lambda>channel_id.
     eff_return (Construct name channel_id))"
| "chan_step D (Construct name channel_id) =
     eff_bind (Channel_new D name channel_id) (\<lambda>c.
     eff_bind (make_shared_channel c) (\<lambda>p.
     eff_return (File channel_id p)))"
| "chan_step D (File channel_id p) =
     eff_bind (register_channel channel_id p) (\<lambda>_.
     eff_return (Returned p))"
| "chan_step D (Returned p) = eff_return (Returned p)"
| "chan_step D (Failed e) = eff_return (Failed e)"

abbreviation chan_race ::
  "'db idatabase \<Rightarrow> 'db world \<times> chan_pc list \<Rightarrow> 'db world \<times> chan_pc list \<Rightarrow> bool" where
  "chan_race D \<equiv> interleave (chan_step D) Failed chan_finished"

fun chan_steps_left :: "chan_pc \<Rightarrow> nat" where
  "chan_steps_left (Ask name) = 4"
| "chan_steps_left (Missing name) = 3"
| "chan_steps_left (Known name) = 2"
| "chan_steps_left (Construct name i) = 2"
| "chan_steps_left (Lookup name i) = 1"
| "chan_steps_left (File i p) = 1"
| "chan_steps_left pc = 0"

lemma chan_fewer:
  assumes "\<not> chan_finished pc" and "advance (chan_step D) Failed pc w = (pc', w')"
  shows "chan_steps_left pc' < chan_steps_left pc"
proof (cases "chan_step D pc w")
  case (Pair r v)
  show ?thesis
  proof (cases r)
    case (Inl e)
    then show ?thesis using assms Pair by (cases pc) (auto simp: advance_def)
  next
    case (Inr q)
    then show ?thesis using assms Pair
      by (cases pc) (auto simp: advance_def elim!: eff_bind_cases split: option.splits if_splits)
  qed
qed

interpretation chan_threads: thread_program "chan_step D" Failed chan_finished chan_steps_left for D
  by unfold_locales (rule chan_fewer)

section \<open>One thread by itself\<close>

definition outcome :: "failure + channel_ptr \<Rightarrow> chan_pc" where
  "outcome r = (case r of Inl e \<Rightarrow> Failed e | Inr p \<Rightarrow> Returned p)"

lemma run_alone_finished:
  "chan_finished pc \<Longrightarrow> run_alone (chan_step D) Failed k pc w = (pc, w)"
  by (induction k) (cases pc; simp add: advance_def)+

lemma run_construct:
  "run_alone (chan_step D) Failed (Suc (Suc k)) (Construct n i) w =
   (outcome (fst (new_registered_channel D n i w)), snd (new_registered_channel D n i w))"
  by (simp add: run_alone_step new_registered_channel_def bind_split outcome_def run_alone_finished
      del: run_alone.simps split: prod.split sum.split)

lemma run_lookup:
  "run_alone (chan_step D) Failed (Suc k) (Lookup n i) w =
   (case idChannels w i of
      None \<Rightarrow> (outcome (fst (new_registered_channel D n i w)), snd (new_registered_channel D n i w))
    | Some p \<Rightarrow> (Returned p, w))"
  by (simp add: run_alone_step bind_split outcome_def run_alone_finished
      del: run_alone.simps split: prod.split sum.split option.split)

lemma run_known:
  "run_alone (chan_step D) Failed (Suc (Suc k)) (Known n) w =
   (case on_db (db_getChannelId D n) w of
      (Inl e, v) \<Rightarrow> (Failed e, v)
    | (Inr i, v) \<Rightarrow> run_alone (chan_step D) Failed (Suc k) (Lookup n i) v)"
  by (simp add: run_alone_step [of _ _ "Suc k"] bind_split run_alone_finished
      del: run_alone.simps split: prod.split sum.split)

lemma run_missing:
  "run_alone (chan_step D) Failed (Suc (Suc (Suc k))) (Missing n) w =
   (case on_db (db_createChannel D n) w of
      (Inl e, v) \<Rightarrow> (Failed e, v)
    | (Inr i, v) \<Rightarrow> run_alone (chan_step D) Failed (Suc (Suc k)) (Construct n i) v)"
  by (simp add: run_alone_step [of _ _ "Suc (Suc k)"] bind_split run_alone_finished
      del: run_alone.simps split: prod.split sum.split)

lemma run_ask:
  "w_db w = Some d \<Longrightarrow>
   run_alone (chan_step D) Failed (Suc k) (Ask n) w =
   (case on_db (db_hasChannel D n) w of
      (Inl e, v) \<Rightarrow> (Failed e, v)
    | (Inr known, v) \<Rightarrow> run_alone (chan_step D) Failed k (if known then Known n else Missing n) v)"
  by (simp add: run_alone_step [of _ _ k] bind_split run_alone_finished
      del: run_alone.simps split: prod.split sum.split)

section \<open>The invariant of every interleaving\<close>

text \<open>
  A thread that is about to file a channel holds an object with that id; one that has returned holds
  an object of the store, or null because the database is gone.
\<close>

definition chan_thread_ok :: "'db world \<Rightarrow> chan_pc \<Rightarrow> bool" where
  "chan_thread_ok w pc =
     (case pc of
        File i p \<Rightarrow> (\<exists>r c. p = Some r \<and> w_heap w r = Some c \<and> ch_id c = i)
      | Returned p \<Rightarrow> valid_ptr p w
      | _ \<Rightarrow> True)"

text \<open>A step only adds to the store of channel objects.\<close>

definition grows :: "'db world \<Rightarrow> 'db world \<Rightarrow> bool" where
  "grows w w' \<longleftrightarrow> (\<forall>r c. w_heap w r = Some c \<longrightarrow> w_heap w' r = Some c)"

lemma chan_thread_ok_grows: "chan_thread_ok w pc \<Longrightarrow> grows w w' \<Longrightarrow> chan_thread_ok w' pc"
  by (auto simp: chan_thread_ok_def grows_def valid_ptr_def split: chan_pc.splits)

lemma on_db_grows: "on_db m w = (r, w') \<Longrightarrow> grows w w'"
  by (auto simp: on_db_def grows_def split: option.splits prod.splits)

lemma grows_refl [simp]: "grows w w"
  by (simp add: grows_def)

lemma grows_trans: "grows w v \<Longrightarrow> grows v u \<Longrightarrow> grows w u"
  by (simp add: grows_def)

lemma Channel_new_grows: "Channel_new D n i w = (r, w') \<Longrightarrow> grows w w'"
  by (auto simp: Channel_new_def elim!: eff_bind_cases split: if_splits option.splits dest: on_db_grows)

lemma make_shared_grows:
  assumes "world_inv w" and "make_shared_channel c w = (r, w')"
  shows "grows w w'"
proof -
  have "w_heap w (w_next w) = None"
    using assms(1) by (cases "w_heap w (w_next w)") (auto simp: world_inv_def heap_ok_def)
  then show ?thesis using assms(2) by (auto simp: make_shared_channel_def grows_def)
qed

lemma new_registered_grows:
  assumes "world_inv w" and "new_registered_channel D n i w = (r, w')"
  shows "grows w w'"
proof (cases "Channel_new D n i w")
  case (Pair cr v)
  have v: "world_inv v" "grows w v"
    using keeps_run [OF Channel_new_keeps assms(1) Pair] Channel_new_grows [OF Pair] by simp_all
  show ?thesis
  proof (cases cr)
    case (Inl e)
    then show ?thesis using assms(2) Pair v(2) by (simp add: new_registered_fails)
  next
    case (Inr c)
    have "grows v w'"
      using assms(2) Pair Inr make_shared_grows [OF v(1), of c] by (auto simp: new_registered_ok make_shared_channel_def grows_def)
    with v(2) show ?thesis by (rule grows_trans)
  qed
qed

definition step_keeps :: "'db world \<Rightarrow> (failure + chan_pc) \<times> 'db world \<Rightarrow> bool" where
  "step_keeps w x \<longleftrightarrow> world_inv (snd x) \<and> grows w (snd x) \<and>
     (\<forall>pc'. fst x = Inr pc' \<longrightarrow> chan_thread_ok (snd x) pc')"

lemma step_keeps_db:
  fixes w :: "'db world"
  assumes "world_inv w" and "\<And>x (v :: 'db world). chan_thread_ok v (q x)"
  shows "step_keeps w (eff_bind (on_db m) (\<lambda>x. eff_return (q x)) w)"
proof -
  obtain r v where run: "on_db m w = (r, v)" by force
  have "keeps world_inv (on_db m)" by (rule keeps_on_db) simp
  then have "world_inv v" using assms(1) run by (rule keeps_run)
  with on_db_grows [OF run] assms(2) run show ?thesis
    by (cases r) (simp_all add: step_keeps_def bind_split)
qed

lemma step_keeps_lookup:
  assumes "world_inv w"
  shows "step_keeps w (chan_step D (Lookup n i) w)"
proof (cases "idChannels w i")
  case None
  obtain r v where run: "new_registered_channel D n i w = (r, v)" by force
  note inv = new_registered_inv [OF assms run] and mono = new_registered_grows [OF assms run]
  show ?thesis
  proof (cases r)
    case (Inl e)
    then show ?thesis using None run inv(1) mono by (simp add: step_keeps_def)
  next
    case (Inr p)
    then show ?thesis using None run inv(1) registered_valid [OF inv(2) [OF Inr]] mono
      by (simp add: step_keeps_def chan_thread_ok_def)
  qed
next
  case (Some p)
  then show ?thesis using assms registered_valid [OF directory_registered [OF assms Some]]
    by (simp add: step_keeps_def chan_thread_ok_def)
qed

lemma step_keeps_construct:
  assumes "world_inv w"
  shows "step_keeps w (chan_step D (Construct n i) w)"
proof -
  obtain r v where run: "Channel_new D n i w = (r, v)" by force
  have v: "world_inv v" "grows w v"
    using keeps_run [OF Channel_new_keeps assms run] Channel_new_grows [OF run] by simp_all
  show ?thesis
  proof (cases r)
    case (Inl e)
    then show ?thesis using run v by (simp add: step_keeps_def)
  next
    case (Inr c)
    note c = Channel_new_ok [OF run [unfolded Inr]]
    let ?u = "v\<lparr>w_heap := (w_heap v)(w_next v \<mapsto> c), w_next := Suc (w_next v)\<rparr>"
    have alloc: "make_shared_channel c v = (Inr (Some (w_next v)), ?u)" by (simp add: make_shared_channel_def)
    have "world_inv ?u" by (rule world_inv_alloc [OF v(1) c(1)])
    moreover have "grows w ?u" using grows_trans [OF v(2) make_shared_grows [OF v(1) alloc]] .
    ultimately show ?thesis using run Inr alloc c(3) by (simp add: step_keeps_def chan_thread_ok_def)
  qed
qed

lemma chan_step_keeps:
  assumes "world_inv w" and "chan_thread_ok w pc"
  shows "step_keeps w (chan_step D pc w)"
proof (cases pc)
  case (Ask n)
  show ?thesis
  proof (cases "w_db w")
    case None
    then show ?thesis using assms(1) by (simp add: Ask step_keeps_def chan_thread_ok_def)
  next
    case (Some d)
    have "step_keeps w (eff_bind (on_db (db_hasChannel D n)) (\<lambda>known.
        eff_return (if known then Known n else Missing n)) w)"
      by (rule step_keeps_db [OF assms(1)]) (simp add: chan_thread_ok_def)
    then show ?thesis using Some by (simp add: Ask)
  qed
next
  case (Known n)
  then show ?thesis
    using step_keeps_db [OF assms(1), of "Lookup n" "db_getChannelId D n"] by (simp add: chan_thread_ok_def)
next
  case (Missing n)
  then show ?thesis
    using step_keeps_db [OF assms(1), of "Construct n" "db_createChannel D n"] by (simp add: chan_thread_ok_def)
next
  case (Lookup n i)
  then show ?thesis using step_keeps_lookup [OF assms(1)] by simp
next
  case (Construct n i)
  then show ?thesis using step_keeps_construct [OF assms(1)] by simp
next
  case (File i p)
  then obtain r c where "p = Some r" "w_heap w r = Some c" "ch_id c = i"
    using assms(2) by (auto simp: chan_thread_ok_def)
  then show ?thesis using world_inv_register [OF assms(1)] File
    by (auto simp: step_keeps_def register_channel_def chan_thread_ok_def valid_ptr_def grows_def)
qed (use assms in \<open>simp_all add: step_keeps_def\<close>)

lemma chan_advance_keeps:
  assumes "world_inv w" and "chan_thread_ok w pc" and "advance (chan_step D) Failed pc w = (pc', w')"
  shows "world_inv w'" and "grows w w'" and "chan_thread_ok w' pc'"
proof -
  have "world_inv w' \<and> grows w w' \<and> chan_thread_ok w' pc'"
  proof (cases "chan_step D pc w")
    case (Pair r v)
    then show ?thesis
      using chan_step_keeps [OF assms(1,2), of D] assms(3)
      by (cases r) (auto simp: advance_def step_keeps_def chan_thread_ok_def)
  qed
  then show "world_inv w'" and "grows w w'" and "chan_thread_ok w' pc'" by simp_all
qed

section \<open>Two requests for one new channel\<close>

text \<open>
  The schedule of the race: both threads ask, both create, the first files its object and returns,
  then the second does.
\<close>

definition race_schedule :: "nat list" where
  "race_schedule = [0, 1, 0, 1, 0, 0, 1, 1]"

lemma db_of_update: "w_db (w\<lparr>w_db := d\<rparr>) = d"
  by simp

context manager_backend
begin

lemma construct_known:
  assumes "w_db w = Some d" and "ok d" and "names d n = Some i" and "n \<noteq> []"
  obtains c d' where "ch_name c = n" and "ch_id c = i" and "ok d'" and "names d' = names d"
    and "advance (chan_step D) Failed (Construct n i) w =
      (File i (Some (w_next w)),
       w\<lparr>w_db := Some d', w_heap := (w_heap w)(w_next w \<mapsto> c), w_next := Suc (w_next w)\<rparr>)"
proof -
  obtain us d' where users: "db_getChannelUsers D i d = (Inr us, d')" "same d d'"
    using getUsers_reads [OF assms(2,3)] by blast
  have "i \<noteq> 0" using names_nonzero [OF assms(2)] assms(3) by (auto simp: ran_def)
  then have "Channel_new D n i w =
      (Inr \<lparr>ch_name = n, ch_id = i, idUsers = set us\<rparr>, w\<lparr>w_db := Some d'\<rparr>)"
    using assms(1,4) users(1) by (simp add: Channel_new_def)
  then show thesis
    using same_keeps [OF users(2) assms(2)]
    by (intro that [of "\<lparr>ch_name = n, ch_id = i, idUsers = set us\<rparr>" d'])
      (simp_all add: advance_def make_shared_channel_def)
qed

lemma ask_unknown:
  assumes "w_db w = Some d" and "ok d" and "room d" and "good n" and "names d n = None"
  obtains d' where "ok d'" and "room d'" and "names d' n = None"
    and "advance (chan_step D) Failed (Ask n) w = (Missing n, w\<lparr>w_db := Some d'\<rparr>)"
proof -
  obtain d' where d': "db_hasChannel D n d = (Inr False, d')" "same d d'"
    using has_reads [OF assms(4,2)] assms(5) by auto
  then show thesis
    using same_keeps [OF d'(2) assms(2)] room_stays [OF d'(2) assms(2,3)] assms(1,5)
    by (intro that [of d']) (simp_all add: advance_def)
qed

lemma create_missing:
  assumes "w_db w = Some d" and "ok d" and "room d" and "good n" and "names d n = None"
  obtains i d' where "ok d'" and "names d' n = Some i"
    and "advance (chan_step D) Failed (Missing n) w = (Construct n i, w\<lparr>w_db := Some d'\<rparr>)"
proof -
  obtain i d' where "db_createChannel D n d = (Inr i, d')" "ok d'" "names d' n = Some i"
    using create_fresh [OF assms(4,2,3,5)] by auto
  then show thesis using assms(1) by (intro that [of d' i]) (simp_all add: advance_def)
qed

lemma create_existing:
  assumes "w_db w = Some d" and "ok d" and "good n" and "names d n = Some i"
  obtains d' where "ok d'" and "names d' n = Some i"
    and "advance (chan_step D) Failed (Missing n) w = (Construct n i, w\<lparr>w_db := Some d'\<rparr>)"
proof -
  obtain d' where d': "db_createChannel D n d = (Inr i, d')" "same d d'"
    using create_known [OF assms(3,2,4)] by auto
  then show thesis
    using same_keeps [OF d'(2) assms(2)] assms(1,4) by (intro that [of d']) (simp_all add: advance_def)
qed

lemma file_step:
  "advance (chan_step D) Failed (File i p) w =
   (Returned p, w\<lparr>idChannels := (idChannels w)(i \<mapsto> p)\<rparr>)"
  by (simp add: advance_def register_channel_def)

lemma two_objects:
  assumes "w_db w = Some d" and "ok d" and "room d" and "good n" and "n \<noteq> []" and "names d n = None"
  shows "\<exists>w' r r' c c'. fair_picks (chan_step D) Failed chan_finished race_schedule (w, [Ask n, Ask n]) \<and>
    run_schedule (chan_step D) Failed race_schedule (w, [Ask n, Ask n]) =
      (w', [Returned (Some r), Returned (Some r')]) \<and> r \<noteq> r' \<and>
    w_heap w' r = Some c \<and> w_heap w' r' = Some c' \<and> ch_name c = n \<and> ch_name c' = n \<and>
    ch_id c = ch_id c' \<and> idChannels w' (ch_id c) = Some (Some r')"
proof -
  obtain d1 where d1: "ok d1" "room d1" "names d1 n = None"
    "advance (chan_step D) Failed (Ask n) w = (Missing n, w\<lparr>w_db := Some d1\<rparr>)"
    using ask_unknown [OF assms(1-4,6)] .
  let ?w1 = "w\<lparr>w_db := Some d1\<rparr>"
  obtain d2 where d2: "ok d2" "room d2" "names d2 n = None"
    "advance (chan_step D) Failed (Ask n) ?w1 = (Missing n, ?w1\<lparr>w_db := Some d2\<rparr>)"
    using ask_unknown [of ?w1 d1, OF _ d1(1,2) assms(4) d1(3)] by (metis db_of_update)
  let ?w2 = "?w1\<lparr>w_db := Some d2\<rparr>"
  obtain i d3 where d3: "ok d3" "names d3 n = Some i"
    "advance (chan_step D) Failed (Missing n) ?w2 = (Construct n i, ?w2\<lparr>w_db := Some d3\<rparr>)"
    using create_missing [of ?w2 d2, OF _ d2(1,2) assms(4) d2(3)] by (metis db_of_update)
  let ?w3 = "?w2\<lparr>w_db := Some d3\<rparr>"
  obtain d4 where d4: "ok d4" "names d4 n = Some i"
    "advance (chan_step D) Failed (Missing n) ?w3 = (Construct n i, ?w3\<lparr>w_db := Some d4\<rparr>)"
    using create_existing [of ?w3 d3, OF _ d3(1) assms(4) d3(2)] by (metis db_of_update)
  let ?w4 = "?w3\<lparr>w_db := Some d4\<rparr>"
  obtain c d5 where d5: "ch_name c = n" "ch_id c = i" "ok d5" "names d5 = names d4"
    "advance (chan_step D) Failed (Construct n i) ?w4 = (File i (Some (w_next ?w4)),
       ?w4\<lparr>w_db := Some d5, w_heap := (w_heap ?w4)(w_next ?w4 \<mapsto> c), w_next := Suc (w_next ?w4)\<rparr>)"
    using construct_known [of ?w4 d4, OF _ d4(1,2) assms(5)] by (metis db_of_update)
  let ?w5 = "?w4\<lparr>w_db := Some d5, w_heap := (w_heap ?w4)(w_next ?w4 \<mapsto> c), w_next := Suc (w_next ?w4)\<rparr>"
  let ?w6 = "?w5\<lparr>idChannels := (idChannels ?w5)(i \<mapsto> Some (w_next ?w4))\<rparr>"
  have n5: "names d5 n = Some i" using d4(2) d5(4) by simp
  have w6: "w_db ?w6 = Some d5" by simp
  obtain c' d6 where d6: "ch_name c' = n" "ch_id c' = i"
    "advance (chan_step D) Failed (Construct n i) ?w6 = (File i (Some (w_next ?w6)),
       ?w6\<lparr>w_db := Some d6, w_heap := (w_heap ?w6)(w_next ?w6 \<mapsto> c'), w_next := Suc (w_next ?w6)\<rparr>)"
    using construct_known [OF w6 d5(3) n5 assms(5)] by metis
  show ?thesis
    unfolding race_schedule_def
    by (simp add: d1(4) d2(4) [simplified] d3(3) [simplified] d4(3) [simplified] d5(1,2)
        d5(5) [simplified] d6(1,2) d6(3) [simplified] file_step)
qed

end

section \<open>Properties\<close>

lemma addUser_heap_frame:
  assumes "w_heap w r = Some c" and "r' \<noteq> r"
  shows "w_heap (snd (Channel_addUser E (Some r) i w)) r' = w_heap w r'"
proof (cases "w_users w")
  case None
  then show ?thesis using assms(1) by (simp add: Channel_addUser_def)
next
  case (Some um)
  then show ?thesis
    using assms addUser_member [OF assms(1)] addUser_new [OF assms(1) Some]
    by (cases "i \<in> idUsers c") (auto split: option.split)
qed

text \<open>For one thread by itself the steps are the whole function: four steps of
  \<open>createOrGetChannelByName\<close> give the value or exception, and the state, of the sequential model,
  for every database and every state.\<close>

theorem alone_is_whole:
  "run_alone (chan_step D) Failed 4 (Ask n) w =
   (outcome (fst (createOrGetChannelByName D n w)), snd (createOrGetChannelByName D n w))"
proof (cases "w_db w")
  case None
  then show ?thesis
    by (simp add: numeral_eq_Suc run_alone_step run_alone_finished createOrGet_no_db outcome_def
        del: run_alone.simps)
next
  case (Some d)
  have four: "(4 :: nat) = Suc (Suc (Suc (Suc 0)))" by simp
  show ?thesis
    unfolding four run_ask [OF Some] createOrGetChannelByName_def
    by (simp add: Some bind_split run_known run_missing run_construct run_lookup outcome_def
        del: run_alone.simps on_db_run split: prod.split sum.split option.split)
qed

text \<open>However the requests of several threads interleave, they end: \<open>N\<close> calls of
  \<open>createOrGetChannelByName\<close> take at most \<open>4 N\<close> steps together, and no step is possible exactly when
  every call has returned or thrown.\<close>

theorem interleavings_end:
  assumes "(chan_race D ^^ k) (w, map Ask names) (w', ts)"
  shows "k \<le> 4 * length names \<and>
    ((\<nexists>x. chan_race D (w', ts) x) \<longleftrightarrow> list_all chan_finished ts)"
proof -
  have "sum_list (map chan_steps_left (map Ask names)) = 4 * length names" by (induction names) simp_all
  then show ?thesis
    using chan_threads.interleave_bounded [OF assms] interleave_stuck [of "chan_step D"] by simp
qed

lemma interleavings_end_witness:
  "\<exists>w. (chan_race Storage_db ^^ 1) (start_world empty_storage, map Ask [''c'']) (w, [Missing ''c'']) \<and>
   1 \<le> 4 * length [''c'']"
proof -
  have "chan_race Storage_db (start_world empty_storage, [Ask ''c''])
      (start_world empty_storage, [Ask ''c''][0 := Missing ''c''])"
    by (rule thread_step) (simp_all add: advance_def start_world_def Storage_db_def Storage_hasChannel_def
        empty_storage_def)
  then have run: "(chan_race Storage_db ^^ 1) (start_world empty_storage, map Ask [''c''])
      (start_world empty_storage, [Missing ''c''])" by (simp add: eq_OO)
  from interleavings_end [OF this] run show ?thesis by blast
qed

text \<open>In every interleaving of requests the shared state stays well formed, every pointer a request
  returns is null or an object of the store, and a thread about to file a channel holds an object
  with the id it files it under.\<close>

theorem interleavings_wellformed:
  assumes "(chan_race D)\<^sup>*\<^sup>* (w, map Ask names) (w', ts)" and "world_inv w"
  shows "world_inv w' \<and> length ts = length names \<and>
    (\<forall>p. Returned p \<in> set ts \<longrightarrow> valid_ptr p w') \<and>
    (\<forall>i p. File i p \<in> set ts \<longrightarrow> (\<exists>r c. p = Some r \<and> w_heap w' r = Some c \<and> ch_id c = i))"
proof -
  have "world_inv (fst (w', ts)) \<and> list_all (chan_thread_ok (fst (w', ts))) (snd (w', ts))"
  proof (rule interleave_invariant [OF assms(1)])
    show "world_inv (fst (w, map Ask names))" using assms(2) by simp
    show "list_all (chan_thread_ok (fst (w, map Ask names))) (snd (w, map Ask names))"
      by (simp add: list_all_iff chan_thread_ok_def)
  next
    fix s pc pc' s'
    assume "world_inv s" "chan_thread_ok s pc" "advance (chan_step D) Failed pc s = (pc', s')"
    note step = chan_advance_keeps [OF this]
    show "world_inv s' \<and> chan_thread_ok s' pc'" using step by simp
    show "chan_thread_ok s' qc" if "chan_thread_ok s qc" for qc
      using that step(2) by (rule chan_thread_ok_grows)
  qed
  then have inv: "world_inv w'" "\<forall>pc \<in> set ts. chan_thread_ok w' pc" by (simp_all add: list_all_iff)
  have "valid_ptr p w'" if "Returned p \<in> set ts" for p
    using inv(2) that by (fastforce simp: chan_thread_ok_def)
  moreover have "\<exists>r c. p = Some r \<and> w_heap w' r = Some c \<and> ch_id c = i" if "File i p \<in> set ts" for i p
    using inv(2) that by (fastforce simp: chan_thread_ok_def)
  ultimately show ?thesis using inv(1) interleave_length [OF assms(1)] by simp
qed

lemma interleavings_wellformed_witness:
  "world_inv (fst (run_schedule (chan_step Storage_db) Failed [0] (start_world empty_storage, [Ask ''c''])))"
proof -
  have "(chan_race Storage_db)\<^sup>*\<^sup>* (start_world empty_storage, [Ask ''c''])
      (run_schedule (chan_step Storage_db) Failed [0] (start_world empty_storage, [Ask ''c'']))"
    by (rule run_schedule_reaches) simp
  then have "(chan_race Storage_db)\<^sup>*\<^sup>* (start_world empty_storage, map Ask [''c''])
      (fst (run_schedule (chan_step Storage_db) Failed [0] (start_world empty_storage, [Ask ''c''])),
       snd (run_schedule (chan_step Storage_db) Failed [0] (start_world empty_storage, [Ask ''c''])))"
    by (simp only: list.map prod.collapse)
  from interleavings_wellformed [OF this] show ?thesis by simp
qed

text \<open>C28: Over PostgreSQL two requests for a channel nobody has used yet can end with two channel
  objects of the same name and id. The directory keeps the second; a member added through the first
  request's pointer is not a member of the channel every later request gets.\<close>

theorem orphaned_channel:
  assumes "postgres_documented L content" and "w_db w = Some d" and "pg_ok content d"
    and "room_channels content d" and "fits 32 n" and "n \<noteq> []" and "pg_names content d n = None"
  shows "\<exists>w' r r' c c'.
    (chan_race (Pg_db L E))\<^sup>*\<^sup>* (w, [Ask n, Ask n]) (w', [Returned (Some r), Returned (Some r')]) \<and>
    r \<noteq> r' \<and> w_heap w' r = Some c \<and> w_heap w' r' = Some c' \<and> ch_name c = n \<and> ch_name c' = n \<and>
    ch_id c = ch_id c' \<and> idChannels w' (ch_id c) = Some (Some r') \<and>
    (\<forall>E' i. w_heap (snd (Channel_addUser E' (Some r) i w')) r' = Some c')"
proof -
  have good: "good_channel n" using assms(5,6) by (simp add: good_channel_def)
  obtain w' r r' c c' where *: "fair_picks (chan_step (Pg_db L E)) Failed chan_finished race_schedule (w, [Ask n, Ask n])"
    "run_schedule (chan_step (Pg_db L E)) Failed race_schedule (w, [Ask n, Ask n]) =
      (w', [Returned (Some r), Returned (Some r')])" "r \<noteq> r'" "w_heap w' r = Some c" "w_heap w' r' = Some c'"
    "ch_name c = n" "ch_name c' = n" "ch_id c = ch_id c'" "idChannels w' (ch_id c) = Some (Some r')"
    using manager_backend.two_objects [OF pg_manager [OF assms(1)] assms(2-4) good assms(6,7), of E] by blast
  have "(chan_race (Pg_db L E))\<^sup>*\<^sup>* (w, [Ask n, Ask n]) (w', [Returned (Some r), Returned (Some r')])"
    using run_schedule_reaches [OF *(1)] *(2) by simp
  moreover have "w_heap (snd (Channel_addUser E' (Some r) i w')) r' = Some c'" for E' i
    using addUser_heap_frame [OF *(4)] *(3,5) by auto
  ultimately show ?thesis using *(3-9) by blast
qed

lemma orphaned_channel_witness:
  "\<exists>w' r r'. (chan_race (Pg_db mini sample_env))\<^sup>*\<^sup>* (pg_world sample_tables, [Ask ''d'', Ask ''d''])
     (w', [Returned (Some r), Returned (Some r')]) \<and> r \<noteq> r'"
proof -
  have d: "fits 32 ''d''" "''d'' \<noteq> []" by (simp_all add: fits_def plain_def)
  have ok: "pg_ok Some (mini_wrapper sample_tables)" "room_channels Some (mini_wrapper sample_tables)"
    "pg_names Some (mini_wrapper sample_tables) ''d'' = None"
    by (simp_all add: room_channels_def pg_names_def)
  from orphaned_channel [OF mini_documented pg_world_facts(2) ok(1,2) d ok(3), of sample_env]
  show ?thesis by blast
qed

end
