(* ===== verification/Registration_Race.thy ===== *)
theory Registration_Race
  imports Interleaving Pg_Backend
begin

text \<open>
  \<open>WrapperPg::checkRegUser\<close> on several threads. Each query runs under the wrapper's mutex, but the
  three queries of one registration (is the login there, insert it, read its id) are three steps, and
  the table has no unique constraint on the login.
\<close>

section \<open>The steps\<close>

datatype reg_pc =
    RegAsk input_settings
  | RegInsert input_settings
  | RegRead input_settings
  | RegReturned type_id_user
  | RegFailed failure

fun reg_finished :: "reg_pc \<Rightarrow> bool" where
  "reg_finished (RegReturned i) = True"
| "reg_finished (RegFailed e) = True"
| "reg_finished pc = False"

fun reg_step :: "'pg libpq \<Rightarrow> reg_pc \<Rightarrow> ('pg wrapper, reg_pc) eff" where
  "reg_step L (RegAsk settings) =
     eff_bind (eff_gets isConnected) (\<lambda>connected.
     if \<not> connected then eff_return (RegReturned LOGIN_IS_FREE)
     else
       eff_bind (WrapperPg_getClientId L (clientName settings)) (\<lambda>found.
       if found = LOGIN_IS_FREE then eff_return (RegInsert settings)
       else eff_return (RegReturned LOGIN_IS_FREE)))"
| "reg_step L (RegInsert settings) =
     eff_bind (execThreadSafe L
         (''INSERT INTO clients(login, password) VALUES ('' @ sq (clientName settings) @ '', ''
          @ sq (clientPassword settings) @ '');'')) (\<lambda>res.
     eff_return (RegRead settings))"
| "reg_step L (RegRead settings) =
     eff_bind (WrapperPg_getClientId L (clientName settings)) (\<lambda>client_id.
     eff_return (RegReturned client_id))"
| "reg_step L (RegReturned i) = eff_return (RegReturned i)"
| "reg_step L (RegFailed e) = eff_return (RegFailed e)"

abbreviation reg_race ::
  "'pg libpq \<Rightarrow> 'pg wrapper \<times> reg_pc list \<Rightarrow> 'pg wrapper \<times> reg_pc list \<Rightarrow> bool" where
  "reg_race L \<equiv> interleave (reg_step L) RegFailed reg_finished"

fun reg_steps_left :: "reg_pc \<Rightarrow> nat" where
  "reg_steps_left (RegAsk s) = 3"
| "reg_steps_left (RegInsert s) = 2"
| "reg_steps_left (RegRead s) = 1"
| "reg_steps_left pc = 0"

interpretation reg_threads: thread_program "reg_step L" RegFailed reg_finished reg_steps_left for L
proof
  fix pc pc' :: reg_pc and w w' :: "'a wrapper"
  assume "\<not> reg_finished pc" and "advance (reg_step L) RegFailed pc w = (pc', w')"
  then show "reg_steps_left pc' < reg_steps_left pc"
    by (cases pc) (auto simp: advance_def bind_split split: prod.splits sum.splits if_splits)
qed

definition reg_outcome :: "failure + type_id_user \<Rightarrow> reg_pc" where
  "reg_outcome r = (case r of Inl e \<Rightarrow> RegFailed e | Inr i \<Rightarrow> RegReturned i)"

lemma reg_run_finished:
  "reg_finished pc \<Longrightarrow> run_alone (reg_step L) RegFailed k pc w = (pc, w)"
  by (induction k) (cases pc; simp add: advance_def)+

lemma reg_alone:
  "run_alone (reg_step L) RegFailed 3 (RegAsk s) w =
   (reg_outcome (fst (WrapperPg_checkRegUser L s w)), snd (WrapperPg_checkRegUser L s w))"
proof -
  have three: "(3 :: nat) = Suc (Suc (Suc 0))" by simp
  show ?thesis
    unfolding three WrapperPg_checkRegUser_def
    by (simp add: run_alone_step bind_split reg_run_finished reg_outcome_def
        del: run_alone.simps db_codes append.simps split: prod.split sum.split)
qed

section \<open>Two registrations of one login\<close>

text \<open>Both threads ask, the first inserts and reads its id, then the second does.\<close>

definition reg_race_schedule :: "nat list" where
  "reg_race_schedule = [0, 1, 0, 0, 1, 1]"

lemma advance_gives:
  assumes "gives content t (step pc) Q t'" and "holds content t w"
  obtains pc' w' where "advance step fail pc w = (pc', w')" and "Q pc'" and "holds content t' w'"
  using assms by (auto simp: gives_def advance_def)

text \<open>With several rows for a login, the id read is that of one of them.\<close>

lemma getClientId_some:
  assumes "postgres_documented L content" and "plain n"
    and "\<forall>r \<in> set (t_clients t). pg_int (pc_id r)" and "n \<in> pc_login ` set (t_clients t)"
  shows "gives content t (WrapperPg_getClientId L n)
    (\<lambda>i. \<exists>r \<in> set (t_clients t). pc_login r = n \<and> i = word_of_nat (pc_id r)) t"
proof -
  let ?rows = "map (\<lambda>r. [show_nat (pc_id r)]) (filter (\<lambda>r. pc_login r = n) (t_clients t))"
  have select: "gives content t (execThreadSafe L (render (SelectClientId n)))
      (\<lambda>res. result_status res = PGRES_TUPLES_OK \<and> mset (tuples res) = mset ?rows) t"
    unfolding execThreadSafe_def
    by (rule gives_weaken [OF gives_exec [OF assms(1)]]) (use assms(2) in \<open>auto simp: sql_rows.simps(1)\<close>)
  have row: "PQntuples res \<noteq> 0 \<and> (\<exists>r \<in> set (t_clients t). pc_login r = n \<and> tuples res ! 0 = [show_nat (pc_id r)])"
    if res: "mset (tuples res) = mset ?rows" for res
  proof -
    have rows: "set (tuples res) = set ?rows" using res by (rule mset_eq_setD)
    with assms(4) have "tuples res \<noteq> []" by auto
    then have "tuples res ! 0 \<in> set ?rows" using rows nth_mem [of 0 "tuples res"] by simp
    with \<open>tuples res \<noteq> []\<close> show ?thesis by (auto simp: PQntuples_def)
  qed
  have read: "gives content t (value_id res 0 0)
      (\<lambda>i. \<exists>r \<in> set (t_clients t). pc_login r = n \<and> i = word_of_nat (pc_id r)) t"
    if res: "mset (tuples res) = mset ?rows" for res
  proof -
    obtain r where r: "r \<in> set (t_clients t)" "pc_login r = n" "tuples res ! 0 = [show_nat (pc_id r)]"
      and "0 < length (tuples res)" using row [OF res] by (auto simp: PQntuples_def)
    then have "value_id res 0 0 = (eff_return (word_of_nat (pc_id r)) :: ('a wrapper, type_id_user) eff)"
      using assms(3) by simp
    then show ?thesis using r(1,2) by (auto intro!: gives_return)
  qed
  show ?thesis
    unfolding WrapperPg_getClientId_def render.simps(1) [symmetric]
    by (rule gives_connected, simp only: if_True, rule gives_bind [OF select])
      (use row read in \<open>simp del: render.simps mset_map\<close>)
qed

lemma reg_ask_gives:
  assumes "postgres_documented L content" and "tables_ok t" and "plain (clientName s)"
    and "client_named t (clientName s) = None"
  shows "gives content t (reg_step L (RegAsk s)) (\<lambda>pc. pc = RegInsert s) t"
proof -
  have "client_id_of t (clientName s) = 0" using assms(4) by (simp add: client_id_of_def)
  then show ?thesis
    unfolding reg_step.simps
    by (intro gives_connected, simp only: simp_thms if_False)
      (rule gives_bind [OF getClientId_gives [OF assms(1-3)]], simp add: gives_return)
qed

lemma reg_insert_gives:
  assumes "postgres_documented L content" and "next_client t < 2 ^ 31"
    and "fits 32 (clientName s)" and "fits 32 (clientPassword s)"
  shows "gives content t (reg_step L (RegInsert s)) (\<lambda>pc. pc = RegRead s)
    (with_clients [(clientName s, clientPassword s)] t)"
  unfolding reg_step.simps render_client
  by (rule gives_bind [OF insertClients_gives [OF assms(1)]])
    (use assms(2-4) in \<open>simp_all add: gives_return\<close>)

lemma reg_read_gives:
  assumes "postgres_documented L content" and "plain (clientName s)"
    and "\<forall>r \<in> set (t_clients t). pg_int (pc_id r) \<and> 0 < pc_id r"
    and "clientName s \<in> pc_login ` set (t_clients t)"
  shows "gives content t (reg_step L (RegRead s)) (\<lambda>pc. \<exists>i. pc = RegReturned i \<and> i \<noteq> 0) t"
proof -
  have ids: "\<forall>r \<in> set (t_clients t). pg_int (pc_id r)" using assms(3) by simp
  show ?thesis
    unfolding reg_step.simps
    by (rule gives_bind [OF getClientId_some [OF assms(1,2) ids assms(4)]], rule gives_return)
      (use assms(3) in auto)
qed

section \<open>Properties\<close>

text \<open>C29: Over PostgreSQL two clients can register one login at the same time: both are told that they
  have succeeded, and the table ends with two rows for the login, one for each password. (One
  thread by itself runs exactly \<open>checkRegUser\<close>, lemma \<open>reg_alone\<close>, which would refuse the second.)\<close>

theorem two_accounts_one_login:
  assumes "postgres_documented L content" and "holds content t w" and "tables_ok t"
    and "next_client t + 2 \<le> 2 ^ 31" and "fits 32 l" and "fits 32 p" and "fits 32 q"
    and "client_named t l = None"
  shows "\<exists>w' i j. (reg_race L)\<^sup>*\<^sup>*
      (w, [RegAsk \<lparr>clientName = l, clientPassword = p\<rparr>, RegAsk \<lparr>clientName = l, clientPassword = q\<rparr>])
      (w', [RegReturned i, RegReturned j]) \<and> i \<noteq> 0 \<and> j \<noteq> 0 \<and>
    map pc_password (filter (\<lambda>r. pc_login r = l) (t_clients (tables_of content w'))) = [p, q]"
proof -
  let ?s = "\<lparr>clientName = l, clientPassword = p\<rparr>" and ?v = "\<lparr>clientName = l, clientPassword = q\<rparr>"
  let ?t1 = "with_clients [(l, p)] t" and ?adv = "advance (reg_step L) RegFailed"
  let ?t2 = "with_clients [(l, q)] ?t1"
  have plain: "plain l" using assms(5) by (simp add: fits_def)
  have t1: "tables_ok ?t1" using assms(4) by (intro tables_ok_client [OF assms(3,8)]) simp
  have rows: "t_clients ?t2 = t_clients t @ [\<lparr>pc_id = next_client t, pc_login = l, pc_password = p\<rparr>,
      \<lparr>pc_id = Suc (next_client t), pc_login = l, pc_password = q\<rparr>]" and next1: "next_client ?t1 = Suc (next_client t)"
    by (simp_all add: with_clients_def)
  have ids: "\<forall>r \<in> set (t_clients ?t2). pg_int (pc_id r) \<and> 0 < pc_id r"
    using ids_pg_int(1) [OF assms(3)] assms(4) assms(3) unfolding rows by (auto simp: pg_int_def tables_ok_def)
  have ids1: "\<forall>r \<in> set (t_clients ?t1). pg_int (pc_id r) \<and> 0 < pc_id r"
    using ids_pg_int(1) [OF t1] by blast
  have ask: "gives content t (reg_step L (RegAsk ?s)) (\<lambda>pc. pc = RegInsert ?s) t"
    "gives content t (reg_step L (RegAsk ?v)) (\<lambda>pc. pc = RegInsert ?v) t"
    using reg_ask_gives [OF assms(1,3)] plain assms(8) by simp_all
  have insert: "gives content t (reg_step L (RegInsert ?s)) (\<lambda>pc. pc = RegRead ?s) ?t1"
    "gives content ?t1 (reg_step L (RegInsert ?v)) (\<lambda>pc. pc = RegRead ?v) ?t2"
    using reg_insert_gives [OF assms(1), of t ?s] reg_insert_gives [OF assms(1), of ?t1 ?v] assms(4-7)
    by (simp_all add: next1)
  have read: "gives content ?t1 (reg_step L (RegRead ?s)) (\<lambda>pc. \<exists>i. pc = RegReturned i \<and> i \<noteq> 0) ?t1"
    "gives content ?t2 (reg_step L (RegRead ?v)) (\<lambda>pc. \<exists>i. pc = RegReturned i \<and> i \<noteq> 0) ?t2"
    using reg_read_gives [OF assms(1) _ ids1, of ?s] reg_read_gives [OF assms(1) _ ids, of ?v] plain
    by (simp_all add: with_clients_def)
  obtain w1 where w1: "?adv (RegAsk ?s) w = (RegInsert ?s, w1)" "holds content t w1"
    using advance_gives [where step = "reg_step L", OF ask(1) assms(2)] by metis
  obtain w2 where w2: "?adv (RegAsk ?v) w1 = (RegInsert ?v, w2)" "holds content t w2"
    using advance_gives [where step = "reg_step L", OF ask(2) w1(2)] by metis
  obtain w3 where w3: "?adv (RegInsert ?s) w2 = (RegRead ?s, w3)" "holds content ?t1 w3"
    using advance_gives [where step = "reg_step L", OF insert(1) w2(2)] by metis
  obtain i w4 where w4: "?adv (RegRead ?s) w3 = (RegReturned i, w4)" "i \<noteq> 0" "holds content ?t1 w4"
    using advance_gives [where step = "reg_step L", OF read(1) w3(2)] by metis
  obtain w5 where w5: "?adv (RegInsert ?v) w4 = (RegRead ?v, w5)" "holds content ?t2 w5"
    using advance_gives [where step = "reg_step L", OF insert(2) w4(3)] by metis
  obtain j w6 where w6: "?adv (RegRead ?v) w5 = (RegReturned j, w6)" "j \<noteq> 0" "holds content ?t2 w6"
    using advance_gives [where step = "reg_step L", OF read(2) w5(2)] by metis
  have "(reg_race L)\<^sup>*\<^sup>* (w, [RegAsk ?s, RegAsk ?v])
      (run_schedule (reg_step L) RegFailed reg_race_schedule (w, [RegAsk ?s, RegAsk ?v]))"
    by (rule run_schedule_reaches) (simp add: reg_race_schedule_def w1(1) w2(1) w3(1) w4(1) w5(1))
  then have "(reg_race L)\<^sup>*\<^sup>* (w, [RegAsk ?s, RegAsk ?v]) (w6, [RegReturned i, RegReturned j])"
    by (simp add: reg_race_schedule_def w1(1) w2(1) w3(1) w4(1) w5(1) w6(1))
  moreover have "map pc_password (filter (\<lambda>r. pc_login r = l) (t_clients (tables_of content w6))) = [p, q]"
    using assms(8) unfolding holds_tables_of [OF w6(3)] rows
    by (auto simp: client_named_None filter_empty_conv)
  ultimately show ?thesis
    using w4(2) w6(2) by (intro exI [of _ w6] exI [of _ i] exI [of _ j] conjI)
qed

lemma two_accounts_one_login_witness:
  "\<exists>w' i j. (reg_race mini)\<^sup>*\<^sup>*
      (mini_wrapper sample_tables, [RegAsk \<lparr>clientName = ''bob'', clientPassword = ''x''\<rparr>,
         RegAsk \<lparr>clientName = ''bob'', clientPassword = ''y''\<rparr>])
      (w', [RegReturned i, RegReturned j]) \<and> i \<noteq> 0 \<and> j \<noteq> 0"
proof -
  have texts: "fits 32 ''bob''" "fits 32 ''x''" "fits 32 ''y''" by (simp_all add: fits_def plain_def)
  have room: "next_client sample_tables + 2 \<le> 2 ^ 31" and free: "client_named sample_tables ''bob'' = None"
    by simp_all
  from two_accounts_one_login [OF mini_documented mini_holds sample_tables_ok room texts free]
  show ?thesis by blast
qed

end
