(* ===== verification/Client_Session.thy ===== *)
theory Client_Session
  imports Query_Engine
begin

text \<open>
  The receiving side of a session (\<open>network/session/ClientSession.h\<close>, \<open>ClientSession.cpp\<close>):
  \<open>processRequest\<close>, which dispatches one request to the engine, and \<open>runRead\<close>, a coroutine
  that reads a header, then a body, and posts the pair to the worker pool.
\<close>

section \<open>Dispatching a request\<close>

definition CODE_FAILED_REG :: type_id_user where
  "CODE_FAILED_REG = 0"

text \<open>\<open>if (auto engine = engine_.lock()) engine->...\<close>\<close>

definition with_engine :: "('db world, unit) eff \<Rightarrow> ('db world, unit) eff" where
  "with_engine m = eff_bind (eff_gets w_engine) (\<lambda>alive. if alive then m else eff_return ())"

text \<open>\<open>write(std::move(buffer))\<close> on the session itself\<close>

definition reply :: "env \<Rightarrow> session \<Rightarrow> response \<Rightarrow> ('db world, unit) eff" where
  "reply E s r = eff_bind (ClientSession_write s (serialize E r)) (\<lambda>_. eff_return ())"

definition processRequest ::
  "'db idatabase \<Rightarrow> env \<Rightarrow> (type_id_user set \<Rightarrow> type_id_user list) \<Rightarrow> session \<Rightarrow> header \<Rightarrow> request
     \<Rightarrow> ('db world, unit) eff" where
  "processRequest D E ord s header request =
     (case to_TypeCommand E (h_command header) of
        Unknown \<Rightarrow> eff_return ()
      | RegistrationRequest \<Rightarrow>
          (case registration_request request of
             Some r \<Rightarrow> with_engine (QueryEngine_reg D E s r)
           | None \<Rightarrow> reply E s (RegistrationResponseMsg CODE_FAILED_REG))
      | RegistrationResponse \<Rightarrow> eff_return ()
      | AuthorisationRequest \<Rightarrow>
          (case authorisation_request request of
             Some r \<Rightarrow> with_engine (QueryEngine_auth D E s r)
           | None \<Rightarrow> reply E s (AuthorisationResponseMsg 0))
      | AuthorisationResponse \<Rightarrow> eff_return ()
      | SendTextRequest \<Rightarrow>
          (case text_request request of
             Some r \<Rightarrow> with_engine (QueryEngine_sendText D E ord r)
           | None \<Rightarrow> eff_return ())
      | EchoResponse \<Rightarrow> eff_return ()
      | JoinRoomRequest \<Rightarrow>
          (case join_room_request request of
             Some r \<Rightarrow> with_engine (QueryEngine_joinRoom D E r)
           | None \<Rightarrow> reply E s (JoinRoomResponseMsg [] False))
      | JoinRoomResponse \<Rightarrow> eff_return ()
      | HistoryRequest \<Rightarrow>
          (case history_request request of
             Some r \<Rightarrow> with_engine (QueryEngine_getHistory D E r)
           | None \<Rightarrow> eff_return ())
      | HistoryResponse \<Rightarrow> eff_return ()
      | ChannelsRequest \<Rightarrow>
          (case channels_request request of
             Some r \<Rightarrow> with_engine (QueryEngine_getChannels D E r)
           | None \<Rightarrow> eff_return ())
      | ChannelsResponse \<Rightarrow> eff_return ()
      | Unlisted \<Rightarrow> eff_return ())"

lemma with_engine_keeps [keeps_rules]: "keeps I m \<Longrightarrow> keeps I (with_engine m)"
  unfolding with_engine_def by (intro keeps_rules)

lemma reply_run [eff_simps, simp]: "reply E s r w = (Inr (), enqueue [(s, serialize E r)] w)"
  by (simp add: reply_def)

lemma reply_keeps [keeps_rules]: "keeps world_inv (reply E s r)"
  unfolding reply_def by (intro keeps_rules)

lemma with_engine_run [eff_simps, simp]:
  "w_engine w \<Longrightarrow> with_engine m w = m w"
  "\<not> w_engine w \<Longrightarrow> with_engine m w = (Inr (), w)"
  by (simp_all add: with_engine_def eff_bind_def)

lemma processRequest_keeps [keeps_rules]: "keeps world_inv (processRequest D E ord s h r)"
  unfolding processRequest_def
  by (cases "to_TypeCommand E (h_command h)") (simp_all only: type_command.case, (intro keeps_rules)+)

text \<open>The commands that are not requests.\<close>

definition is_request :: "type_command \<Rightarrow> bool" where
  "is_request c \<longleftrightarrow> c \<in> {RegistrationRequest, AuthorisationRequest, SendTextRequest,
     JoinRoomRequest, HistoryRequest, ChannelsRequest}"

lemma processRequest_ignores:
  "\<not> is_request (to_TypeCommand E (h_command h)) \<Longrightarrow> processRequest D E ord s h r w = (Inr (), w)"
  by (cases "to_TypeCommand E (h_command h)") (simp_all add: processRequest_def is_request_def)

text \<open>A request whose body is of another kind.\<close>

definition body_matches :: "type_command \<Rightarrow> request \<Rightarrow> bool" where
  "body_matches c r =
     (case c of
        RegistrationRequest \<Rightarrow> registration_request r \<noteq> None
      | AuthorisationRequest \<Rightarrow> authorisation_request r \<noteq> None
      | SendTextRequest \<Rightarrow> text_request r \<noteq> None
      | JoinRoomRequest \<Rightarrow> join_room_request r \<noteq> None
      | HistoryRequest \<Rightarrow> history_request r \<noteq> None
      | ChannelsRequest \<Rightarrow> channels_request r \<noteq> None
      | _ \<Rightarrow> True)"

definition mismatch_reply :: "type_command \<Rightarrow> response option" where
  "mismatch_reply c =
     (case c of
        RegistrationRequest \<Rightarrow> Some (RegistrationResponseMsg 0)
      | AuthorisationRequest \<Rightarrow> Some (AuthorisationResponseMsg 0)
      | JoinRoomRequest \<Rightarrow> Some (JoinRoomResponseMsg [] False)
      | _ \<Rightarrow> None)"

lemma processRequest_mismatch:
  assumes "\<not> body_matches (to_TypeCommand E (h_command h)) r"
  shows "processRequest D E ord s h r w =
    (Inr (), case mismatch_reply (to_TypeCommand E (h_command h)) of
               None \<Rightarrow> w
             | Some m \<Rightarrow> enqueue [(s, serialize E m)] w)"
  using assms
  by (cases "to_TypeCommand E (h_command h)")
    (simp_all add: processRequest_def body_matches_def mismatch_reply_def CODE_FAILED_REG_def)

section \<open>The read coroutine\<close>

text \<open>
  \<open>CoroData\<close>: the point the coroutine resumes at, the two buffers, and the parsed messages. The
  header buffer starts as zeroes here and indeterminate in C++; it is filled before it is read.
  A moved-from protobuf message is \<open>None\<close>; the code parses into it again before it reads it.
\<close>

datatype resume_point = AtStart | AfterHeader | AfterBody

record coro_data =
  coro :: resume_point
  bufferHeader :: bytes
  bufferBody :: bytes
  c_header :: "header option"
  c_request :: "request option"

datatype read_target = IntoHeader | IntoBody

datatype read_effect =
    AsyncRead read_target nat
  | RunAsync header request \<comment> \<open>\<open>processRequest\<close> posted to the pool\<close>

definition new_coro :: "env \<Rightarrow> coro_data" where
  "new_coro E = \<lparr>coro = AtStart, bufferHeader = replicate (size_header E) 0, bufferBody = [],
     c_header = None, c_request = None\<rparr>"

text \<open>\<open>vector::resize\<close>: cut, or pad with zeroes.\<close>

definition resize :: "nat \<Rightarrow> bytes \<Rightarrow> bytes" where
  "resize n b = take n b @ replicate (n - length b) 0"

definition runRead :: "env \<Rightarrow> bool \<Rightarrow> coro_data \<Rightarrow> coro_data \<times> read_effect list" where
  "runRead E ec_failed c =
     (case coro c of
        AtStart \<Rightarrow> (c\<lparr>coro := AfterHeader\<rparr>, [AsyncRead IntoHeader (size_header E)])
      | AfterHeader \<Rightarrow>
          if ec_failed then
            (c\<lparr>coro := AfterHeader\<rparr>, [AsyncRead IntoHeader (size_header E)])
          else
            let h = ParseHeader E (bufferHeader c);
                c1 = c\<lparr>c_header := Some h\<rparr>;
                c2 = c1\<lparr>bufferBody := resize (h_length h) (bufferBody c1)\<rparr>
            in (c2\<lparr>coro := AfterBody\<rparr>, [AsyncRead IntoBody (h_length h)])
      | AfterBody \<Rightarrow>
          let r = ParseRequest E (bufferBody c);
              posted = (case c_header c of
                          None \<Rightarrow> []
                        | Some h \<Rightarrow> [RunAsync h r])
          in (c\<lparr>c_header := None, c_request := None, coro := AfterHeader\<rparr>,
              posted @ [AsyncRead IntoHeader (size_header E)]))"

definition startRead :: "env \<Rightarrow> coro_data \<Rightarrow> coro_data \<times> read_effect list" where
  "startRead E c = runRead E False c"

section \<open>The coroutine over a byte stream\<close>

text \<open>
  \<open>boost::asio::async_read\<close> completes without error once it has filled the buffer, and with an
  error when the peer closes first, after storing what arrived. \<open>read_step\<close> lets the one pending
  read complete against the bytes the peer still sends and calls the coroutine back.
\<close>

definition store :: "read_target \<Rightarrow> bytes \<Rightarrow> coro_data \<Rightarrow> coro_data" where
  "store t data c =
     (case t of
        IntoHeader \<Rightarrow> c\<lparr>bufferHeader := data @ drop (length data) (bufferHeader c)\<rparr>
      | IntoBody \<Rightarrow> c\<lparr>bufferBody := data @ drop (length data) (bufferBody c)\<rparr>)"

record connection =
  incoming :: bytes
  co :: coro_data
  pending :: "(read_target \<times> nat) option"
  posted :: "(header \<times> request) list"

fun apply_effect :: "read_effect \<Rightarrow> connection \<Rightarrow> connection" where
  "apply_effect (AsyncRead t n) k = k\<lparr>pending := Some (t, n)\<rparr>"
| "apply_effect (RunAsync h r) k = k\<lparr>posted := posted k @ [(h, r)]\<rparr>"

definition open_connection :: "env \<Rightarrow> bytes \<Rightarrow> connection" where
  "open_connection E stream =
     (let (c, es) = startRead E (new_coro E)
      in fold apply_effect es \<lparr>incoming = stream, co = c, pending = None, posted = []\<rparr>)"

definition read_step :: "env \<Rightarrow> connection \<Rightarrow> connection" where
  "read_step E k =
     (case pending k of
        None \<Rightarrow> k
      | Some (t, n) \<Rightarrow>
          let data = take n (incoming k);
              (c, es) = runRead E (length data < n) (store t data (co k))
          in fold apply_effect es (k\<lparr>incoming := drop n (incoming k), co := c, pending := None\<rparr>))"

section \<open>Lemmas about the read loop\<close>

text \<open>The state in which the coroutine waits for a header; it is where every frame starts.\<close>

definition awaiting_header :: "env \<Rightarrow> connection \<Rightarrow> bool" where
  "awaiting_header E k \<longleftrightarrow>
     coro (co k) = AfterHeader \<and> pending k = Some (IntoHeader, size_header E) \<and>
     length (bufferHeader (co k)) = size_header E"

definition awaiting_body :: "env \<Rightarrow> header \<Rightarrow> connection \<Rightarrow> bool" where
  "awaiting_body E h k \<longleftrightarrow>
     coro (co k) = AfterBody \<and> pending k = Some (IntoBody, h_length h) \<and> c_header (co k) = Some h \<and>
     length (bufferHeader (co k)) = size_header E \<and> length (bufferBody (co k)) = h_length h"

lemma length_resize [simp]: "length (resize n b) = n"
  by (simp add: resize_def)

lemma open_awaits: "awaiting_header E (open_connection E stream)"
  and open_incoming: "incoming (open_connection E stream) = stream"
  and open_posted: "posted (open_connection E stream) = []"
  by (simp_all add: awaiting_header_def open_connection_def startRead_def runRead_def new_coro_def)

lemma header_step:
  assumes "awaiting_header E k" and "length hb = size_header E" and "incoming k = hb @ rest"
  shows "awaiting_body E (ParseHeader E hb) (read_step E k)"
    and "incoming (read_step E k) = rest" and "posted (read_step E k) = posted k"
  using assms
  by (simp_all add: awaiting_header_def awaiting_body_def read_step_def runRead_def store_def Let_def)

lemma body_step:
  assumes "awaiting_body E h k"
  shows "awaiting_header E (read_step E k)"
    and "incoming (read_step E k) = drop (h_length h) (incoming k)"
    and "posted (read_step E k) = posted k @
      [(h, ParseRequest E (take (h_length h) (incoming k) @
                           drop (length (incoming k)) (bufferBody (co k))))]"
  using assms
  by (simp_all add: awaiting_header_def awaiting_body_def read_step_def runRead_def store_def Let_def
      min_def)

text \<open>One well-formed frame: a header, and as many bytes as it announces.\<close>

definition is_frame :: "env \<Rightarrow> bytes \<times> bytes \<Rightarrow> bool" where
  "is_frame E f \<longleftrightarrow>
     length (fst f) = size_header E \<and> length (snd f) = h_length (ParseHeader E (fst f))"

definition parse_frame :: "env \<Rightarrow> bytes \<times> bytes \<Rightarrow> header \<times> request" where
  "parse_frame E f = (ParseHeader E (fst f), ParseRequest E (snd f))"

lemma frame_steps:
  assumes "awaiting_header E k" and "is_frame E f" and "incoming k = fst f @ snd f @ rest"
  shows "awaiting_header E (read_step E (read_step E k))"
    and "incoming (read_step E (read_step E k)) = rest"
    and "posted (read_step E (read_step E k)) = posted k @ [parse_frame E f]"
proof -
  from assms(2) have len: "length (fst f) = size_header E"
    "length (snd f) = h_length (ParseHeader E (fst f))" by (simp_all add: is_frame_def)
  note h = header_step [OF assms(1) len(1) assms(3)]
  note b = body_step [OF h(1)]
  have "length (bufferBody (co (read_step E k))) = h_length (ParseHeader E (fst f))"
    using h(1) by (simp add: awaiting_body_def)
  with b h(2,3) len show "awaiting_header E (read_step E (read_step E k))"
    and "incoming (read_step E (read_step E k)) = rest"
    and "posted (read_step E (read_step E k)) = posted k @ [parse_frame E f]"
    by (simp_all add: parse_frame_def)
qed

lemma frames_run:
  assumes "awaiting_header E k" and "\<forall>f \<in> set fs. is_frame E f"
    and "incoming k = concat (map (\<lambda>f. fst f @ snd f) fs) @ rest"
  shows "posted ((read_step E ^^ (2 * length fs)) k) = posted k @ map (parse_frame E) fs \<and>
    incoming ((read_step E ^^ (2 * length fs)) k) = rest \<and>
    awaiting_header E ((read_step E ^^ (2 * length fs)) k)"
  using assms
proof (induction fs arbitrary: k)
  case Nil
  then show ?case by simp
next
  case (Cons f fs)
  let ?k2 = "read_step E (read_step E k)"
  have f: "is_frame E f" using Cons.prems(2) by simp
  have inc: "incoming k = fst f @ snd f @ concat (map (\<lambda>f. fst f @ snd f) fs) @ rest"
    using Cons.prems(3) by simp
  note s = frame_steps [OF Cons.prems(1) f inc]
  have "(read_step E ^^ (2 * length (f # fs))) k = (read_step E ^^ (2 * length fs)) ?k2"
    by (simp add: funpow_swap1)
  then show ?case using Cons.IH [OF s(1) _ s(2)] Cons.prems(2) s(3) by simp
qed

text \<open>A header that does not arrive in full.\<close>

lemma short_header_step:
  assumes "awaiting_header E k" and "length (incoming k) < size_header E"
  shows "awaiting_header E (read_step E k)" and "incoming (read_step E k) = []"
    and "posted (read_step E k) = posted k"
  using assms
  by (simp_all add: awaiting_header_def read_step_def runRead_def store_def Let_def)

lemma short_header_run:
  assumes "awaiting_header E k" and "length (incoming k) < size_header E"
  shows "awaiting_header E ((read_step E ^^ n) k) \<and> posted ((read_step E ^^ n) k) = posted k \<and>
    length (incoming ((read_step E ^^ n) k)) < size_header E"
proof (induction n)
  case 0
  with assms show ?case by simp
next
  case (Suc n)
  have "0 < size_header E" using assms(2) by simp
  with Suc short_header_step [of E "(read_step E ^^ n) k"] show ?case by simp
qed

lemma posted_grows: "\<exists>ps. posted (read_step E k) = posted k @ ps"
proof (cases "pending k")
  case None
  then show ?thesis by (simp add: read_step_def)
next
  case (Some q)
  then show ?thesis
    by (cases q; cases "coro (co k)"; cases "fst q"; cases "c_header (co k)")
      (simp_all add: read_step_def runRead_def store_def Let_def)
qed

section \<open>Any stream\<close>

text \<open>
  What the loop makes of a stream, whatever it holds: as long as a whole header is there, a request
  from as many bytes as it announces. When the peer closes before they have all come, the rest of
  the body is what \<open>resize\<close> left in the buffer: bytes of the body before, and then zeroes.
\<close>

function requests_in :: "env \<Rightarrow> bytes \<Rightarrow> bytes \<Rightarrow> (header \<times> request) list" where
  "requests_in E old stream =
     (if size_header E = 0 \<or> length stream < size_header E then []
      else
        let h = ParseHeader E (take (size_header E) stream);
            came = drop (size_header E) stream;
            body = take (h_length h) came @ drop (length came) (resize (h_length h) old)
        in (h, ParseRequest E body) # requests_in E body (drop (h_length h) came))"
  by pat_completeness auto
termination by (relation "measure (\<lambda>(E, old, stream). length stream)") auto

declare requests_in.simps [simp del]

lemma requests_in_short: "length stream < size_header E \<Longrightarrow> requests_in E old stream = []"
  by (simp add: requests_in.simps)

lemma requests_in_header:
  assumes "0 < size_header E" and "length hb = size_header E"
  shows "requests_in E old (hb @ came) =
    (let h = ParseHeader E hb; body = take (h_length h) came @ drop (length came) (resize (h_length h) old)
     in (h, ParseRequest E body) # requests_in E body (drop (h_length h) came))"
  using assms by (subst requests_in.simps) (simp add: Let_def)

text \<open>Of well-formed frames and a part of a header it makes the parsed frames.\<close>

lemma requests_in_frames:
  assumes "\<forall>f \<in> set fs. is_frame E f" and "length rest < size_header E"
  shows "requests_in E old (concat (map (\<lambda>f. fst f @ snd f) fs) @ rest) = map (parse_frame E) fs"
  using assms(1)
proof (induction fs arbitrary: old)
  case Nil
  then show ?case using assms(2) by (simp add: requests_in_short)
next
  case (Cons f fs)
  have "0 < size_header E" using assms(2) by simp
  moreover have "length (fst f) = size_header E" "length (snd f) = h_length (ParseHeader E (fst f))"
    using Cons.prems by (simp_all add: is_frame_def)
  ultimately show ?case
    using Cons by (simp add: requests_in_header Let_def parse_frame_def)
qed

lemma header_step_buffer:
  assumes "awaiting_header E k" and "length hb = size_header E" and "incoming k = hb @ rest"
  shows "bufferBody (co (read_step E k)) = resize (h_length (ParseHeader E hb)) (bufferBody (co k))"
  using assms by (simp add: awaiting_header_def read_step_def runRead_def store_def Let_def)

lemma body_step_buffer:
  assumes "awaiting_body E h k"
  shows "bufferBody (co (read_step E k)) =
    take (h_length h) (incoming k) @ drop (length (incoming k)) (bufferBody (co k))"
  using assms by (auto simp: awaiting_body_def read_step_def runRead_def store_def Let_def min_def)

lemma posted_requests_in:
  assumes "awaiting_header E k" and "0 < size_header E"
  shows "\<exists>m. posted ((read_step E ^^ n) k) = posted k @ take m (requests_in E (bufferBody (co k)) (incoming k))"
  using assms(1)
proof (induction n arbitrary: k rule: less_induct)
  case (less n)
  show ?case
  proof (cases "length (incoming k) < size_header E")
    case True
    then show ?thesis using short_header_run [OF less.prems True, of n] by (simp add: requests_in_short)
  next
    case False
    let ?hb = "take (size_header E) (incoming k)" and ?came = "drop (size_header E) (incoming k)"
    have hb: "length ?hb = size_header E" "incoming k = ?hb @ ?came" using False by simp_all
    note h = header_step [OF less.prems hb] header_step_buffer [OF less.prems hb]
    let ?h = "ParseHeader E ?hb" and ?k1 = "read_step E k" and ?k2 = "read_step E (read_step E k)"
    note b = body_step [OF h(1)] body_step_buffer [OF h(1)]
    have split: "requests_in E (bufferBody (co k)) (incoming k) =
        (?h, ParseRequest E (bufferBody (co ?k2))) # requests_in E (bufferBody (co ?k2)) (incoming ?k2)"
      using requests_in_header [OF assms(2) hb(1), of "bufferBody (co k)" ?came] h(2,4) b(2,4)
      by (simp add: Let_def hb(2) [symmetric] del: append_take_drop_id)
    have two: "posted ?k2 = posted k @ [(?h, ParseRequest E (bufferBody (co ?k2)))]"
      using b(3,4) h(2,3) by simp
    consider "n = 0" | "n = 1" | m where "n = Suc (Suc m)"
      by (cases n rule: nat.exhaust; metis One_nat_def not0_implies_Suc)
    then show ?thesis
    proof cases
      case 1
      then show ?thesis by (intro exI [of _ 0]) simp
    next
      case 2
      then show ?thesis using h(3) by (intro exI [of _ 0]) simp
    next
      case (3 m)
      have "(read_step E ^^ n) k = (read_step E ^^ m) ?k2"
        unfolding 3 by (simp only: funpow_Suc_right comp_def)
      moreover obtain m' where "posted ((read_step E ^^ m) ?k2) =
          posted ?k2 @ take m' (requests_in E (bufferBody (co ?k2)) (incoming ?k2))"
        using less.IH [OF _ b(1), of m] 3 by auto
      ultimately show ?thesis using two split by (intro exI [of _ "Suc m'"]) simp
    qed
  qed
qed

lemma open_requests_in:
  assumes "0 < size_header E"
  shows "set (posted ((read_step E ^^ n) (open_connection E stream))) \<subseteq> set (requests_in E [] stream)"
proof -
  have "bufferBody (co (open_connection E stream)) = []"
    by (simp add: open_connection_def startRead_def runRead_def new_coro_def)
  then show ?thesis
    using posted_requests_in [of E "open_connection E stream" n, OF open_awaits assms]
    by (auto simp: open_posted open_incoming dest: in_set_takeD)
qed

section \<open>Properties\<close>

text \<open>C40: Dispatch is total on what is not a request. A command that is not one of the six requests,
  or a request whose body is of another kind, never reaches the engine: registration,
  authorisation and joining are answered with a failure on the asking session, everything else is
  dropped, and nothing else changes.\<close>

theorem dispatch_rejects:
  assumes "cmd = to_TypeCommand E (h_command h)" and "\<not> (is_request cmd \<and> body_matches cmd r)"
  shows "processRequest D E ord s h r w =
    (Inr (),
     if cmd = RegistrationRequest then enqueue [(s, serialize E (RegistrationResponseMsg 0))] w
     else if cmd = AuthorisationRequest then enqueue [(s, serialize E (AuthorisationResponseMsg 0))] w
     else if cmd = JoinRoomRequest then enqueue [(s, serialize E (JoinRoomResponseMsg [] False))] w
     else w)"
proof (cases "is_request cmd")
  case True
  with assms processRequest_mismatch [of E h r D ord s w] show ?thesis
    by (auto simp: mismatch_reply_def is_request_def)
next
  case False
  with assms(1) processRequest_ignores [of E h D ord s r w] show ?thesis
    by (auto simp: is_request_def)
qed

lemma dispatch_rejects_witness:
  "w_queue (snd (processRequest Storage_db sample_env sorted_ids 7 \<lparr>h_command = 7, h_length = 0\<rparr>
     no_request fresh_world)) = Some [(7, [8, 0])]"
  by (subst dispatch_rejects [of JoinRoomRequest])
    (simp_all add: sample_command_def body_matches_def no_request_def enqueue_def
      is_request_def bytes_of_def)

text \<open>Nothing but registration and authorisation looks at who is asking: a text, join, history or
  channel request has the same effect whichever session sends it, since the acting user is an id
  or a name the request itself carries.\<close>

theorem requests_unauthenticated:
  assumes "to_TypeCommand E (h_command h) \<in> {SendTextRequest, JoinRoomRequest, HistoryRequest, ChannelsRequest}"
    and "body_matches (to_TypeCommand E (h_command h)) r"
  shows "processRequest D E ord s h r = processRequest D E ord t h r"
  using assms by (auto simp: processRequest_def body_matches_def)

lemma requests_unauthenticated_witness:
  "processRequest Storage_db sample_env sorted_ids 7 \<lparr>h_command = 7, h_length = 1\<rparr> (sample_request [99]) =
   processRequest Storage_db sample_env sorted_ids 8 \<lparr>h_command = 7, h_length = 1\<rparr> (sample_request [99])"
  by (rule requests_unauthenticated)
    (simp_all add: sample_command_def body_matches_def sample_request_def)

text \<open>C9: Framing is right: from a peer that sends well-formed frames and then closes in the middle
  of a header, the coroutine posts exactly the parsed frames, in order, each once. And it does not
  stop: once the stream is exhausted every further completion fails and is answered with another
  read, for ever.\<close>

theorem frames_then_silence:
  assumes "\<forall>f \<in> set fs. is_frame E f" and "length rest < size_header E"
    and "2 * length fs \<le> n"
  shows "let k = (read_step E ^^ n) (open_connection E (concat (map (\<lambda>f. fst f @ snd f) fs) @ rest))
    in posted k = map (parse_frame E) fs \<and> pending k = Some (IntoHeader, size_header E)"
proof -
  let ?k0 = "open_connection E (concat (map (\<lambda>f. fst f @ snd f) fs) @ rest)"
  let ?k1 = "(read_step E ^^ (2 * length fs)) ?k0"
  have run: "posted ?k1 = map (parse_frame E) fs" "incoming ?k1 = rest" "awaiting_header E ?k1"
    using frames_run [OF open_awaits assms(1) open_incoming] by (simp_all add: open_posted)
  obtain m where m: "n = m + 2 * length fs" using assms(3) le_Suc_ex add.commute by metis
  have "(read_step E ^^ n) ?k0 = (read_step E ^^ m) ?k1" unfolding m by (simp add: funpow_add)
  moreover have "awaiting_header E ((read_step E ^^ m) ?k1)" "posted ((read_step E ^^ m) ?k1) = posted ?k1"
    using short_header_run [OF run(3)] run(2) assms(2) by simp_all
  ultimately show ?thesis using run(1) by (simp add: Let_def awaiting_header_def)
qed

lemma frames_then_silence_witness:
  "posted ((read_step sample_env ^^ 9) (open_connection sample_env [1, 1, 97, 3, 0, 5])) =
   [(\<lparr>h_command = 1, h_length = 1\<rparr>, sample_request [97]), (\<lparr>h_command = 3, h_length = 0\<rparr>, sample_request [])]"
  using frames_then_silence [of "[([1, 1], [97]), ([3, 0], [])]" sample_env "[5]" 9]
  by (simp add: is_frame_def parse_frame_def Let_def)

text \<open>A body cut short is processed all the same: when the peer closes inside its first body, the error
  of that read is not looked at, and the bytes that came, padded with zeroes to the announced
  length, are parsed and posted as a request. (Later bodies are padded with the body before.)\<close>

theorem truncated_body_posted:
  assumes "length hb = size_header E" and "length body < h_length (ParseHeader E hb)"
  shows "posted (read_step E (read_step E (open_connection E (hb @ body)))) =
    [(ParseHeader E hb,
      ParseRequest E (body @ replicate (h_length (ParseHeader E hb) - length body) 0))]"
proof -
  let ?k = "open_connection E (hb @ body)" and ?h = "ParseHeader E hb"
  note h = header_step [OF open_awaits assms(1) open_incoming]
  have "bufferBody (co (read_step E ?k)) = replicate (h_length ?h) 0"
    using assms(1) by (simp add: open_connection_def startRead_def runRead_def new_coro_def
        read_step_def store_def Let_def resize_def)
  then show ?thesis
    using body_step(3) [OF h(1)] h(2,3) assms(2) by (simp add: open_posted)
qed

lemma truncated_body_posted_witness:
  "posted (read_step sample_env (read_step sample_env (open_connection sample_env [1, 3, 97]))) =
   [(\<lparr>h_command = 1, h_length = 3\<rparr>, sample_request [97, 0, 0])]"
  using truncated_body_posted [of "[1, 3]" sample_env "[97]"]
  by (simp add: numeral_2_eq_2 [symmetric]) (simp add: numeral_2_eq_2)

end
