(* ===== verification/Accept_Process.thy ===== *)
theory Accept_Process
  imports Client_Session
begin

text \<open>
  \<open>network/AcceptProcess.h\<close>: the coroutine that accepts connections. Sessions are numbered in the
  order they are made; \<open>sessions_\<close> owns them, and nothing removes one from it.
\<close>

datatype accept_effect =
    AsyncAccept
  | CreateSession session \<comment> \<open>constructed on the accepted socket, then \<open>startRead\<close>\<close>
  | CloseSocket

record acceptor =
  accept_waiting :: bool \<comment> \<open>the coroutine is past its first \<open>yield\<close>\<close>
  sessions_ptrs :: "session list" \<comment> \<open>\<open>sessions_\<close>\<close>

definition new_acceptor :: acceptor where
  "new_acceptor = \<lparr>accept_waiting = False, sessions_ptrs = []\<rparr>"

definition doAccept :: "bool \<Rightarrow> acceptor \<Rightarrow> acceptor \<times> accept_effect list" where
  "doAccept ec_failed a =
     (if \<not> accept_waiting a then (a\<lparr>accept_waiting := True\<rparr>, [AsyncAccept])
      else if \<not> ec_failed then
        let s = length (sessions_ptrs a)
        in (a\<lparr>sessions_ptrs := sessions_ptrs a @ [s]\<rparr>, [CreateSession s, CloseSocket, AsyncAccept])
      else (a, [CloseSocket, AsyncAccept]))"

text \<open>The constructor runs the coroutine to its first accept.\<close>

definition runAccept :: "acceptor \<times> accept_effect list" where
  "runAccept = doAccept False new_acceptor"

fun accepts :: "bool list \<Rightarrow> acceptor \<Rightarrow> acceptor \<times> accept_effect list" where
  "accepts [] a = (a, [])"
| "accepts (ec # ecs) a =
     (let (a1, es) = doAccept ec a; (a2, es') = accepts ecs a1 in (a2, es @ es'))"

text \<open>Sessions are exactly \<open>0, 1, 2, \<dots>\<close>, so each is new when it is made.\<close>

definition acceptor_inv :: "acceptor \<Rightarrow> bool" where
  "acceptor_inv a \<longleftrightarrow> sessions_ptrs a = [0..<length (sessions_ptrs a)]"

lemma acceptor_inv_new: "acceptor_inv new_acceptor"
  by (simp add: acceptor_inv_def new_acceptor_def)

lemma doAccept_inv:
  assumes "acceptor_inv a"
  shows "acceptor_inv (fst (doAccept ec a))"
    and "CreateSession s \<in> set (snd (doAccept ec a)) \<Longrightarrow>
         s \<notin> set (sessions_ptrs a) \<and> s \<in> set (sessions_ptrs (fst (doAccept ec a)))"
proof -
  let ?n = "length (sessions_ptrs a)"
  have *: "sessions_ptrs a = [0..<?n]" using assms by (simp add: acceptor_inv_def)
  then have set: "set (sessions_ptrs a) = {0..<?n}" by (metis set_upt)
  show "acceptor_inv (fst (doAccept ec a))"
    using * by (auto simp: acceptor_inv_def doAccept_def Let_def)
  show "CreateSession s \<in> set (snd (doAccept ec a)) \<Longrightarrow>
      s \<notin> set (sessions_ptrs a) \<and> s \<in> set (sessions_ptrs (fst (doAccept ec a)))"
    using set by (auto simp: doAccept_def Let_def split: if_splits)
qed

lemma upt_front: "[n..<Suc (n + m)] = n # [Suc n..<Suc (n + m)]"
  by (rule upt_conv_Cons) simp

lemma accepts_sessions:
  assumes "accept_waiting a"
  shows "sessions_ptrs (fst (accepts ecs a)) =
      sessions_ptrs a @ [length (sessions_ptrs a)..<length (sessions_ptrs a) + length (filter Not ecs)] \<and>
    length (filter (\<lambda>e. e = AsyncAccept) (snd (accepts ecs a))) = length ecs \<and>
    accept_waiting (fst (accepts ecs a))"
  using assms
proof (induction ecs arbitrary: a)
  case (Cons ec ecs)
  obtain a1 es where d: "doAccept ec a = (a1, es)" by fastforce
  have w: "accept_waiting a1" and es: "length (filter (\<lambda>e. e = AsyncAccept) es) = 1"
    and s: "sessions_ptrs a1 = sessions_ptrs a @ (if ec then [] else [length (sessions_ptrs a)])"
    using d Cons.prems by (auto simp: doAccept_def Let_def split: if_splits)
  from Cons.IH [OF w] d es s show ?case
    by (auto simp: upt_front simp del: upt_Suc split: prod.split)
qed simp

section \<open>Properties\<close>

text \<open>Every successful accept makes one new session, numbered after those before it, a failed one
  makes none, and every completion, failed or not, issues exactly one next accept, so the server
  never stops accepting.\<close>

theorem accept_loop:
  "let (a, es) = accepts ecs (fst runAccept)
   in sessions_ptrs a = [0..<length (filter Not ecs)] \<and>
      length (filter (\<lambda>e. e = AsyncAccept) es) = length ecs \<and> accept_waiting a"
proof -
  have "accept_waiting (fst runAccept)" and "sessions_ptrs (fst runAccept) = []"
    by (simp_all add: runAccept_def doAccept_def new_acceptor_def)
  with accepts_sessions [OF this(1), of ecs] show ?thesis by (simp add: split_beta)
qed

end
