(* ===== verification/Gateway.thy ===== *)
theory Gateway
  imports Accept_Process
begin

text \<open>
  The server as \<open>app/gateway/main.cpp\<close> puts it together: start-up, and then a state machine in
  which the network thread accepts connections and completes reads, the worker pool runs posted
  requests in any order, and the queue workers take write tasks. One request runs to its end
  before another starts; the interleavings inside a request are those of theory \<open>Server\<close>. A request
  that ends in a failure that is no exception has no state after it.
\<close>

section \<open>State\<close>

type_synonym job = "session \<times> header \<times> request"

record 'db gateway =
  g_world :: "'db world"
  g_acceptor :: acceptor
  g_conns :: "session \<rightharpoonup> connection"
  g_jobs :: "job list" \<comment> \<open>posted to the pool, not yet run\<close>
  g_streams :: "session \<Rightarrow> bytes" \<comment> \<open>history: what each peer sends\<close>
  g_processed :: "job list" \<comment> \<open>history\<close>

section \<open>The command line\<close>

text \<open>
  \<open>setParameters\<close>. Boost.ProgramOptions is the parameter \<open>parse\<close>: the values of the options given,
  or \<open>None\<close> when it throws, which the handler swallows. \<open>main\<close> calls the function and does not use
  what it returns.
\<close>

record params =
  username :: string
  user_password :: string

definition setParameters :: "(string list \<Rightarrow> (string \<rightharpoonup> string) option) \<Rightarrow> string list \<Rightarrow> params" where
  "setParameters parse argv =
     (let params = \<lparr>username = [], user_password = []\<rparr>
      in case parse argv of
           None \<Rightarrow> params
         | Some vm \<Rightarrow>
             let p1 = (case vm ''name'' of Some v \<Rightarrow> params\<lparr>username := v\<rparr> | None \<Rightarrow> params)
             in (case vm ''pass'' of Some v \<Rightarrow> p1\<lparr>user_password := v\<rparr> | None \<Rightarrow> p1))"

lemma setParameters_cases:
  "parse argv = None \<Longrightarrow> setParameters parse argv = \<lparr>username = [], user_password = []\<rparr>"
  "parse argv = Some vm \<Longrightarrow> setParameters parse argv =
     \<lparr>username = (case vm ''name'' of Some v \<Rightarrow> v | None \<Rightarrow> []),
      user_password = (case vm ''pass'' of Some v \<Rightarrow> v | None \<Rightarrow> [])\<rparr>"
  by (simp_all add: setParameters_def Let_def split: option.split)

section \<open>Start-up\<close>

datatype 'db outcome =
    ReturnsOne \<comment> \<open>the database does not connect\<close>
  | CaughtFatal failure \<comment> \<open>an exception reaches the handler of \<open>main\<close>\<close>
  | Serving "'db gateway"

definition gateway_main ::
  "'db idatabase \<Rightarrow> (type_id_user set \<Rightarrow> type_id_user list) \<Rightarrow> 'db \<Rightarrow> 'db outcome" where
  "gateway_main D ord d =
     (case db_connect D default_connect_settings d of
        (Inl e, _) \<Rightarrow> CaughtFatal e
      | (Inr connected, d1) \<Rightarrow>
          if \<not> connected then ReturnsOne
          else
            case createChannelFromDb D ord (start_world d1) of
              (Inl e, _) \<Rightarrow> CaughtFatal e
            | (Inr _, w) \<Rightarrow>
                (case QueryEngine_new (w_users w) of
                   Inl x \<Rightarrow> CaughtFatal (Thrown x)
                 | Inr _ \<Rightarrow>
                     Serving \<lparr>g_world = w, g_acceptor = fst runAccept, g_conns = Map.empty,
                              g_jobs = [], g_streams = (\<lambda>_. []), g_processed = []\<rparr>))"

section \<open>Steps\<close>

datatype gateway_action =
    AcceptCompletes bool bytes \<comment> \<open>whether it failed, and what the new peer will send\<close>
  | ReadCompletes session
  | RunJob nat "type_id_user set \<Rightarrow> type_id_user list"
  | TakeWrite

definition job_result ::
  "'db idatabase \<Rightarrow> env \<Rightarrow> (type_id_user set \<Rightarrow> type_id_user list) \<Rightarrow> job \<Rightarrow> 'db world \<Rightarrow> 'db world" where
  \<comment> \<open>an exception ends the job and is caught by the pool thread\<close>
  "job_result D E ord j w = (case j of (s, h, r) \<Rightarrow> snd (processRequest D E ord s h r w))"

text \<open>A request that ends in a failure that is no exception has followed a null or unset pointer, after
  which nothing is said of the process.\<close>

definition job_returns ::
  "'db idatabase \<Rightarrow> env \<Rightarrow> (type_id_user set \<Rightarrow> type_id_user list) \<Rightarrow> job \<Rightarrow> 'db world \<Rightarrow> bool" where
  "job_returns D E ord j w =
     (case j of (s, h, r) \<Rightarrow>
        (case fst (processRequest D E ord s h r w) of
           Inr _ \<Rightarrow> True
         | Inl (Thrown _) \<Rightarrow> True
         | Inl _ \<Rightarrow> False))"

fun gateway_step ::
  "'db idatabase \<Rightarrow> env \<Rightarrow> gateway_action \<Rightarrow> 'db gateway \<Rightarrow> 'db gateway option" where
  "gateway_step D E (AcceptCompletes ec_failed stream) g =
     (let (a, es) = doAccept ec_failed (g_acceptor g); s = length (sessions_ptrs (g_acceptor g))
      in if CreateSession s \<in> set es then
           Some (g\<lparr>g_acceptor := a,
                   g_world := (g_world g)\<lparr>w_sessions := insert s (w_sessions (g_world g))\<rparr>,
                   g_conns := (g_conns g)(s \<mapsto> open_connection E stream),
                   g_streams := (g_streams g)(s := stream)\<rparr>)
         else Some (g\<lparr>g_acceptor := a\<rparr>))"
| "gateway_step D E (ReadCompletes s) g =
     (case g_conns g s of
        None \<Rightarrow> None
      | Some k \<Rightarrow>
          let k' = read_step E k; new = drop (length (posted k)) (posted k')
          in Some (g\<lparr>g_conns := (g_conns g)(s \<mapsto> k'),
                     g_jobs := g_jobs g @ map (\<lambda>(h, r). (s, h, r)) new\<rparr>))"
| "gateway_step D E (RunJob i ord) g =
     (if i < length (g_jobs g) \<and> job_returns D E ord (g_jobs g ! i) (g_world g) then
        let j = g_jobs g ! i
        in Some (g\<lparr>g_jobs := take i (g_jobs g) @ drop (Suc i) (g_jobs g),
                   g_world := job_result D E ord j (g_world g),
                   g_processed := g_processed g @ [j]\<rparr>)
      else None)"
| "gateway_step D E TakeWrite g =
     (case w_queue (g_world g) of
        Some (t # ts) \<Rightarrow> Some (g\<lparr>g_world := (g_world g)\<lparr>w_queue := Some ts\<rparr>\<rparr>)
      | _ \<Rightarrow> None)"

inductive gateway_reach :: "'db idatabase \<Rightarrow> env \<Rightarrow> 'db gateway \<Rightarrow> bool" for D :: "'db idatabase" and E :: env where
  gateway_start: "gateway_main D ord d = Serving g \<Longrightarrow> gateway_reach D E g"
| gateway_next: "gateway_reach D E g \<Longrightarrow> gateway_step D E a g = Some g' \<Longrightarrow> gateway_reach D E g'"

fun gateway_run :: "'db idatabase \<Rightarrow> env \<Rightarrow> gateway_action list \<Rightarrow> 'db gateway \<Rightarrow> 'db gateway option" where
  "gateway_run D E [] g = Some g"
| "gateway_run D E (a # as) g =
     (case gateway_step D E a g of None \<Rightarrow> None | Some g' \<Rightarrow> gateway_run D E as g')"

lemma gateway_run_reach:
  "gateway_reach D E g \<Longrightarrow> gateway_run D E as g = Some g' \<Longrightarrow> gateway_reach D E g'"
  by (induction "as" arbitrary: g) (auto split: option.splits intro: gateway_next)

section \<open>The world invariant in every reachable state\<close>

lemma gateway_main_serving:
  assumes "gateway_main D ord d = Serving g"
  obtains d1 w where "db_connect D default_connect_settings d = (Inr True, d1)"
    and "createChannelFromDb D ord (start_world d1) = (Inr (), w)" and "g_world g = w"
    and "g_conns g = Map.empty" and "g_jobs g = []" and "g_processed g = []"
    and "acceptor_inv (g_acceptor g)" and "accept_waiting (g_acceptor g)"
    and "sessions_ptrs (g_acceptor g) = []"
  using assms that
  by (auto simp: gateway_main_def acceptor_inv_def runAccept_def doAccept_def new_acceptor_def
      split: prod.splits sum.splits if_splits)

lemma gateway_main_inv:
  assumes "gateway_main D ord d = Serving g"
  shows "world_inv (g_world g)"
proof -
  obtain d1 w where "createChannelFromDb D ord (start_world d1) = (Inr (), w)" and "g_world g = w"
    using assms by (rule gateway_main_serving)
  then show ?thesis
    using keepsD [OF createChannelFromDb_keeps world_inv_start, of D ord d1] by simp
qed

lemma gateway_step_inv:
  assumes "world_inv (g_world g)" and "gateway_step D E a g = Some g'"
  shows "world_inv (g_world g')"
proof (cases a)
  case (RunJob i ord)
  obtain s h r where "g_jobs g ! i = (s, h, r)" by (cases "g_jobs g ! i")
  with RunJob assms keepsD [OF processRequest_keeps assms(1), of D E ord s h r] show ?thesis
    by (auto simp: job_result_def Let_def split: if_splits)
qed (use assms in \<open>auto simp: Let_def split: if_splits option.splits list.splits prod.splits\<close>)

lemma gateway_reach_inv: "gateway_reach D E g \<Longrightarrow> world_inv (g_world g)"
  by (induction rule: gateway_reach.induct) (auto intro: gateway_main_inv gateway_step_inv)

section \<open>Where requests come from\<close>

text \<open>
  Every connection is some number of completed reads past its opening, and the jobs of a session,
  waiting or processed, are the pairs its coroutine has posted.
\<close>

definition jobs_of :: "session \<Rightarrow> job list \<Rightarrow> (header \<times> request) set" where
  "jobs_of s js = {(h, r). (s, h, r) \<in> set js}"

definition sources_inv :: "env \<Rightarrow> 'db gateway \<Rightarrow> bool" where
  "sources_inv E g \<longleftrightarrow>
     acceptor_inv (g_acceptor g) \<and>
     dom (g_conns g) = set (sessions_ptrs (g_acceptor g)) \<and>
     (\<forall>s k. g_conns g s = Some k \<longrightarrow>
        (\<exists>n. k = (read_step E ^^ n) (open_connection E (g_streams g s))) \<and>
        jobs_of s (g_jobs g @ g_processed g) \<subseteq> set (posted k)) \<and>
     (\<forall>s. g_conns g s = None \<longrightarrow> jobs_of s (g_jobs g @ g_processed g) = {})"

lemma jobs_of_append: "jobs_of s (xs @ ys) = jobs_of s xs \<union> jobs_of s ys"
  by (auto simp: jobs_of_def)

lemma sources_main: "gateway_main D ord d = Serving g \<Longrightarrow> sources_inv E g"
  by (erule gateway_main_serving) (simp add: sources_inv_def jobs_of_def)

lemma sources_accept:
  assumes "sources_inv E g" and "gateway_step D E (AcceptCompletes ec stream) g = Some g'"
  shows "sources_inv E g'"
proof -
  let ?s = "length (sessions_ptrs (g_acceptor g))"
  have a: "acceptor_inv (g_acceptor g)" using assms(1) by (simp add: sources_inv_def)
  have dom: "dom (g_conns g) = set (sessions_ptrs (g_acceptor g))"
    using assms(1) by (simp add: sources_inv_def)
  have a': "acceptor_inv (fst (doAccept ec (g_acceptor g)))" by (rule doAccept_inv(1) [OF a])
  show ?thesis
  proof (cases "CreateSession ?s \<in> set (snd (doAccept ec (g_acceptor g)))")
    case True
    then have fresh: "?s \<notin> set (sessions_ptrs (g_acceptor g))" using doAccept_inv(2) [OF a] by blast
    then have none: "g_conns g ?s = None" using dom by blast
    have "sessions_ptrs (fst (doAccept ec (g_acceptor g))) = sessions_ptrs (g_acceptor g) @ [?s]"
      using True by (auto simp: doAccept_def Let_def split: if_splits)
    moreover have "\<exists>n. open_connection E stream = (read_step E ^^ n) (open_connection E stream)"
      by (rule exI [of _ 0]) simp
    moreover have "g' = g\<lparr>g_acceptor := fst (doAccept ec (g_acceptor g)),
        g_world := (g_world g)\<lparr>w_sessions := insert ?s (w_sessions (g_world g))\<rparr>,
        g_conns := (g_conns g)(?s \<mapsto> open_connection E stream),
        g_streams := (g_streams g)(?s := stream)\<rparr>"
      using True assms(2) by (auto simp: Let_def split: prod.splits)
    ultimately show ?thesis
      using assms(1) a' none dom by (auto simp: sources_inv_def)
  next
    case False
    then have "sessions_ptrs (fst (doAccept ec (g_acceptor g))) = sessions_ptrs (g_acceptor g)"
      by (auto simp: doAccept_def Let_def split: if_splits)
    moreover have "g' = g\<lparr>g_acceptor := fst (doAccept ec (g_acceptor g))\<rparr>"
      using False assms(2) by (auto simp: Let_def split: prod.splits)
    ultimately show ?thesis using assms(1) a' by (auto simp: sources_inv_def)
  qed
qed

lemma sources_read:
  assumes "sources_inv E g" and "gateway_step D E (ReadCompletes s) g = Some g'"
  shows "sources_inv E g'"
proof -
  from assms(2) obtain k where k: "g_conns g s = Some k"
    and g': "g' = g\<lparr>g_conns := (g_conns g)(s \<mapsto> read_step E k),
      g_jobs := g_jobs g @ map (\<lambda>(h, r). (s, h, r)) (drop (length (posted k)) (posted (read_step E k)))\<rparr>"
    by (auto simp: Let_def split: option.splits)
  have "(\<exists>n. k = (read_step E ^^ n) (open_connection E (g_streams g s))) \<and>
      jobs_of s (g_jobs g @ g_processed g) \<subseteq> set (posted k)"
    using assms(1) k unfolding sources_inv_def by blast
  then obtain n where n: "k = (read_step E ^^ n) (open_connection E (g_streams g s))"
    and js: "jobs_of s (g_jobs g @ g_processed g) \<subseteq> set (posted k)"
    by (elim conjE exE)
  obtain ps where ps: "posted (read_step E k) = posted k @ ps" using posted_grows by blast
  have "read_step E k = (read_step E ^^ Suc n) (open_connection E (g_streams g s))"
    using n by simp
  then have ex: "\<exists>n. read_step E k = (read_step E ^^ n) (open_connection E (g_streams g s))" by blast
  have new: "jobs_of t (map (\<lambda>(h, r). (s, h, r)) ps) = (if t = s then set ps else {})" for t
    by (auto simp: jobs_of_def)
  have "jobs_of s (g_jobs g' @ g_processed g') \<subseteq> set (posted (read_step E k))"
    using js ps new [of s] by (auto simp: g' jobs_of_append)
  moreover have "jobs_of t (g_jobs g' @ g_processed g') = jobs_of t (g_jobs g @ g_processed g)"
    if "t \<noteq> s" for t
    using that ps new [of t] by (auto simp: g' jobs_of_append)
  ultimately show ?thesis
    using assms(1) k ex by (auto simp: sources_inv_def g')
qed

lemma sources_job:
  assumes "sources_inv E g" and "i < length (g_jobs g)"
  shows "sources_inv E (g\<lparr>g_jobs := take i (g_jobs g) @ drop (Suc i) (g_jobs g), g_world := w,
    g_processed := g_processed g @ [g_jobs g ! i]\<rparr>)" (is "sources_inv E ?g'")
proof -
  have "set (take i (g_jobs g) @ drop (Suc i) (g_jobs g)) \<union> {g_jobs g ! i} = set (g_jobs g)"
    using assms(2) by (metis (no_types, opaque_lifting) Un_insert_right id_take_nth_drop list.simps(15)
        set_append sup_bot.right_neutral)
  then have "jobs_of t (g_jobs ?g' @ g_processed ?g') = jobs_of t (g_jobs g @ g_processed g)" for t
    by (auto simp: jobs_of_def)
  then show ?thesis using assms(1) by (simp add: sources_inv_def)
qed

lemma sources_run:
  assumes "sources_inv E g" and "gateway_step D E (RunJob i ord) g = Some g'"
  shows "sources_inv E g'"
  using assms sources_job [OF assms(1), of i] by (auto simp: Let_def split: if_splits)

lemma sources_step:
  assumes "sources_inv E g" and "gateway_step D E a g = Some g'"
  shows "sources_inv E g'"
proof (cases a)
  case TakeWrite
  with assms(2) obtain ts where "g' = g\<lparr>g_world := (g_world g)\<lparr>w_queue := Some ts\<rparr>\<rparr>"
    by (auto split: option.splits list.splits)
  with assms(1) show ?thesis by (simp add: sources_inv_def)
qed (use assms sources_accept sources_read sources_run in blast)+

lemma gateway_reach_sources: "gateway_reach D E g \<Longrightarrow> sources_inv E g"
  by (induction rule: gateway_reach.induct) (auto intro: sources_main sources_step)

text \<open>What is posted for a session comes from its stream, and so from the frames of a well-formed one.\<close>

lemma sources_requests:
  assumes "sources_inv E g" and "(h, r) \<in> jobs_of s (g_jobs g @ g_processed g)" and "0 < size_header E"
  shows "(h, r) \<in> set (requests_in E [] (g_streams g s))"
proof -
  obtain k where k: "g_conns g s = Some k"
    using assms(1,2) by (cases "g_conns g s") (auto simp: sources_inv_def)
  have "(\<exists>n. k = (read_step E ^^ n) (open_connection E (g_streams g s))) \<and>
      jobs_of s (g_jobs g @ g_processed g) \<subseteq> set (posted k)"
    using assms(1) k unfolding sources_inv_def by blast
  then show ?thesis using assms(2) open_requests_in [OF assms(3)] by blast
qed

lemma sources_parsed:
  assumes "sources_inv E g" and "(h, r) \<in> jobs_of s (g_jobs g @ g_processed g)"
    and "g_streams g s = concat (map (\<lambda>f. fst f @ snd f) fs) @ rest"
    and "\<forall>f \<in> set fs. is_frame E f" and "length rest < size_header E"
  shows "(h, r) \<in> parse_frame E ` set fs"
  using sources_requests [OF assms(1,2)] requests_in_frames [OF assms(4,5)] assms(3,5) by simp

end
