(* ===== verification/Pg_Gateway.thy ===== *)
theory Pg_Gateway
  imports Gateway Pg_Backend
begin

text \<open>
  The server as \<open>main\<close> runs it, over \<open>WrapperPg\<close>: the connection, and what start-up makes of the
  channels that are in the database.
\<close>

section \<open>Connecting\<close>

lemma connect_new:
  "WrapperPg_connect L cs WrapperPg_new =
   (let c = PQconnectdb L (c_str (conninfo cs))
    in (Inr (connection_ok L c), \<lparr>connection = Some c, isConnected = connection_ok L c\<rparr>))"
  by (simp add: WrapperPg_connect_def WrapperPg_new_def Let_def)

lemma connect_again:
  "isConnected w \<Longrightarrow> connection w = Some c \<Longrightarrow> WrapperPg_connect L cs w = (Inr True, w)"
  by (simp add: WrapperPg_connect_def)

definition the_conninfo :: string where
  "the_conninfo = ''user=postgres password=123 host=127.0.0.1 dbname=chat''"

lemma default_conninfo: "c_str (conninfo default_connect_settings) = the_conninfo"
  by (simp add: c_str_def conninfo_def default_connect_settings_def the_conninfo_def)

section \<open>Restoring the channels\<close>

lemma stored_channels_Some:
  assumes "tables_ok t" and "stored_channels t i = Some n"
  obtains r where "r \<in> set (t_channels t)" and "i = word_of_nat (ph_id r)" and "n = ph_name r"
  using assms(2) by (auto simp: stored_channels_def dest!: map_of_SomeD)

lemma stored_channels_valid:
  assumes "tables_ok t" and "stored_channels t i = Some n"
  shows "i \<noteq> 0" and "n \<noteq> []" and "pg_int (unat i)"
proof -
  obtain r where r: "r \<in> set (t_channels t)" "i = word_of_nat (ph_id r)" "n = ph_name r"
    using assms by (rule stored_channels_Some)
  then show "i \<noteq> 0" "pg_int (unat i)" using ids_pg_int(2) [OF assms(1)] by (auto simp: word_pg_int)
  show "n \<noteq> []" using r assms(1) by (auto simp: tables_ok_def)
qed

lemma pg_users_answer:
  assumes "postgres_documented L content" and "tables_ok t"
  shows "users_answer_on (dom (stored_channels t)) (holds content t) (Pg_db L E)"
  unfolding users_answer_on_def
proof (intro ballI allI impI)
  fix i w
  assume "i \<in> dom (stored_channels t)" and w: "holds content t w"
  then have "pg_int (unat i)" using stored_channels_valid(3) [OF assms(2)] by blast
  from gives_run [OF getChannelUsers_gives [OF assms this] w]
  show "\<exists>us w'. db_getChannelUsers (Pg_db L E) i w = (Inr us, w') \<and> holds content t w'"
    by (metis Pg_db_fields(6))
qed

lemma finite_stored [simp]: "finite (dom (stored_channels t))"
  by (simp add: stored_channels_def finite_dom_map_of)

text \<open>Building channels does not touch the table of connected users.\<close>

lemma new_registered_users: "keeps (\<lambda>w. w_users w = u) (new_registered_channel D n i)"
  unfolding new_registered_channel_def Channel_new_def
  by (intro keeps_rules; simp add: keeps_def make_shared_channel_def register_channel_def)

lemma generate_channels_users: "keeps (\<lambda>w. w_users w = u) (generate_channels D channels is)"
  by (induction "is") (simp_all only: generate_channels.simps, (intro keeps_rules new_registered_users; assumption?)+)

lemma createChannelFromDb_users: "keeps (\<lambda>w. w_users w = u) (createChannelFromDb D ord)"
  unfolding createChannelFromDb_def by (intro keeps_rules generate_channels_users) simp

lemma pg_startup_refused:
  "\<not> connection_ok L (PQconnectdb L the_conninfo) \<Longrightarrow>
   gateway_main (Pg_db L E) ord WrapperPg_new = ReturnsOne"
  by (simp add: gateway_main_def Pg_db_def connect_new default_conninfo)

section \<open>Properties\<close>

text \<open>C12: \<open>main\<close> over PostgreSQL: if the server accepts the connection with the default settings and
  its tables are consistent, start-up succeeds, and the directory of channels is the table of
  channels: every row is filed under its id as an object with its name, and nothing else is.\<close>

theorem pg_startup:
  assumes "postgres_documented L content" and "enumerates ord"
    and "content (PQconnectdb L the_conninfo) = Some t" and "tables_ok t"
  shows "\<exists>g. gateway_main (Pg_db L E) ord WrapperPg_new = Serving g \<and>
    (\<forall>i n. stored_channels t i = Some n \<longrightarrow> filed i n (g_world g)) \<and>
    (\<forall>i. stored_channels t i = None \<longrightarrow> idChannels (g_world g) i = None)"
proof -
  let ?c = "PQconnectdb L the_conninfo"
  let ?w = "\<lparr>connection = Some ?c, isConnected = True\<rparr>"
  have up: "connection_ok L ?c" using assms(1,3) unfolding postgres_documented_def by blast
  have connect: "db_connect (Pg_db L E) default_connect_settings WrapperPg_new = (Inr True, ?w)"
    using up by (simp add: Pg_db_def connect_new default_conninfo)
  have w: "holds content t ?w" using assms(3) by (simp add: holds_def)
  from gives_run [OF getCurrentChannels_gives [OF assms(1,4)] w]
  obtain w1 where w1: "db_getCurrentChannels (Pg_db L E) ?w = (Inr (stored_channels t), w1)"
    "holds content t w1" by (auto simp: Pg_db_def)
  have db: "w_db (start_world ?w) = Some ?w" by (simp add: start_world_def)
  have named: "\<forall>i n. stored_channels t i = Some n \<longrightarrow> i \<noteq> 0 \<and> n \<noteq> []"
    using stored_channels_valid [OF assms(4)] by blast
  from createChannelFromDb_files [OF world_inv_start db w1(1) pg_users_answer [OF assms(1,4)] w1(2)
      finite_stored assms(2) named]
  obtain v where v: "createChannelFromDb (Pg_db L E) ord (start_world ?w) = (Inr (), v)"
    "\<forall>i n. stored_channels t i = Some n \<longrightarrow> filed i n v"
    "\<forall>i. stored_channels t i = None \<longrightarrow> idChannels v i = None" by (auto simp: start_world_def)
  have "w_users v = Some empty_user_manager"
    by (rule keeps_run [OF createChannelFromDb_users _ v(1)]) (simp add: start_world_def)
  then obtain g where g: "gateway_main (Pg_db L E) ord WrapperPg_new = Serving g" "g_world g = v"
    using connect v(1) by (simp add: gateway_main_def QueryEngine_new_def)
  then show ?thesis using v(2,3) by (intro exI [of _ g]) simp
qed

text \<open>The small server as one that comes up with given tables.\<close>

definition mini_with :: "pg_tables \<Rightarrow> pg_tables libpq" where
  "mini_with t = mini\<lparr>PQconnectdb := (\<lambda>_. t)\<rparr>"

lemma mini_with_documented: "postgres_documented (mini_with t) Some"
  using mini_documented by (simp add: mini_with_def postgres_documented_def mini_def)

lemma pg_startup_witness:
  "\<exists>g. gateway_main (Pg_db (mini_with sample_tables) sample_env) sorted_ids WrapperPg_new = Serving g \<and>
   filed 1 ''c'' (g_world g)"
proof -
  have start: "Some (PQconnectdb (mini_with sample_tables) the_conninfo) = Some sample_tables"
    by (simp add: mini_with_def)
  have "stored_channels sample_tables 1 = Some ''c''"
    by (simp add: stored_channels_def sample_tables_def with_channel_def with_clients_def)
  with pg_startup [OF mini_with_documented sorted_ids_enumerates start sample_tables_ok, of sample_env]
  show ?thesis by blast
qed

end
