(* ===== verification/Programs.thy ===== *)
theory Programs
  imports Prelude "HOL-Library.Multiset"
begin

text \<open>
  Member functions as programs of atomic steps, for a server whose threads run them at the same
  time. A program has ended, or has a step on the shared state to do next, or takes or releases
  the one mutex. Each step names the unguarded memory it touches. The theory gives sequencing, the
  program run by itself, the lock discipline, rely and guarantee (\<open>safe\<close>, \<open>sat\<close>), and the
  well-founded order in which a program proceeds.
\<close>

section \<open>Programs\<close>

datatype ('l, 's, 'a) prog =
    Done "failure + 'a"
  | Step 'l "'s \<Rightarrow> ('l, 's, 'a) prog \<times> 's"
  | Lock "('l, 's, 'a) prog"
  | Unlock "('l, 's, 'a) prog"

definition prog_return :: "'a \<Rightarrow> ('l, 's, 'a) prog" where
  "prog_return x = Done (Inr x)"

definition prog_fail :: "failure \<Rightarrow> ('l, 's, 'a) prog" where
  "prog_fail e = Done (Inl e)"

definition atom :: "'l \<Rightarrow> ('s, 'a) eff \<Rightarrow> ('l, 's, 'a) prog" where
  "atom l m = Step l (\<lambda>s. case m s of (r, t) \<Rightarrow> (Done r, t))"

primrec prog_bind :: "('l, 's, 'a) prog \<Rightarrow> ('a \<Rightarrow> ('l, 's, 'b) prog) \<Rightarrow> ('l, 's, 'b) prog" where
  "prog_bind (Done r) f = (case r of Inl e \<Rightarrow> Done (Inl e) | Inr x \<Rightarrow> f x)"
| "prog_bind (Step l g) f = Step l (map_prod (\<lambda>p. prog_bind p f) id \<circ> g)"
| "prog_bind (Lock p) f = Lock (prog_bind p f)"
| "prog_bind (Unlock p) f = Unlock (prog_bind p f)"

text \<open>
  \<open>std::lock_guard\<close>: the mutex is taken, and released when the block is left, by return or by an
  exception.
\<close>

primrec unlock_after :: "('l, 's, 'a) prog \<Rightarrow> ('l, 's, 'a) prog" where
  "unlock_after (Done r) = Unlock (Done r)"
| "unlock_after (Step l g) = Step l (map_prod unlock_after id \<circ> g)"
| "unlock_after (Lock p) = Lock (unlock_after p)"
| "unlock_after (Unlock p) = Unlock (unlock_after p)"

definition with_lock :: "('l, 's, 'a) prog \<Rightarrow> ('l, 's, 'a) prog" where
  "with_lock p = Lock (unlock_after p)"

text \<open>Induction over what is left to do.\<close>

lemma prog_induct [case_names Done Step Lock Unlock]:
  assumes "\<And>r. P (Done r)"
    and "\<And>l g. (\<And>s p t. g s = (p, t) \<Longrightarrow> P p) \<Longrightarrow> P (Step l g)"
    and "\<And>p. P p \<Longrightarrow> P (Lock p)" and "\<And>p. P p \<Longrightarrow> P (Unlock p)"
  shows "P p"
proof (induction p)
  case (Step l g)
  have "P p" if "g s = (p, t)" for s p t
    using Step [of "g s" p] that rangeI [of g s] by simp
  then show ?case by (rule assms(2))
qed (use assms in blast)+

section \<open>A program by itself\<close>

primrec run :: "('l, 's, 'a) prog \<Rightarrow> ('s, 'a) eff" where
  "run (Done r) = (\<lambda>s. (r, s))"
| "run (Step l g) = (\<lambda>s. case map_prod run id (g s) of (k, t) \<Rightarrow> k t)"
| "run (Lock p) = run p"
| "run (Unlock p) = run p"

named_theorems run_simps \<open>what a program does when it runs by itself\<close>

lemma run_return [run_simps]: "run (prog_return x) = eff_return x"
  by (rule ext) (simp add: prog_return_def)

lemma run_fail [run_simps]: "run (prog_fail e) = eff_fail e"
  by (rule ext) (simp add: prog_fail_def)

lemma run_atom [run_simps]: "run (atom l m) = m"
  by (rule ext) (simp add: atom_def split: prod.split)

lemma run_step: "run (Step l g) s = (case g s of (p, t) \<Rightarrow> run p t)"
  by (simp split: prod.split)

lemma run_bind [run_simps]: "run (prog_bind p f) = eff_bind (run p) (\<lambda>x. run (f x))"
proof (induction p rule: prog_induct)
  case (Done r)
  show ?case by (rule ext) (simp add: bind_split split: sum.split)
next
  case (Step l g)
  show ?case
  proof (rule ext)
    fix s
    obtain p t where g: "g s = (p, t)" by force
    then have "run (prog_bind p f) = eff_bind (run p) (\<lambda>x. run (f x))"
      by (rule Step)
    with g show "run (prog_bind (Step l g) f) s = eff_bind (run (Step l g)) (\<lambda>x. run (f x)) s"
      by (simp add: bind_split)
  qed
qed simp_all

lemma run_unlock_after [run_simps]: "run (unlock_after p) = run p"
proof (induction p rule: prog_induct)
  case (Step l g)
  show ?case
  proof (rule ext)
    fix s
    obtain p t where g: "g s = (p, t)" by force
    then show "run (unlock_after (Step l g)) s = run (Step l g) s"
      using Step [OF g] by simp
  qed
qed simp_all

lemma run_with_lock [run_simps]: "run (with_lock p) = run p"
  by (simp add: with_lock_def run_unlock_after)

lemma run_if [run_simps]: "run (if b then p else q) = (if b then run p else run q)"
  by simp

lemma run_option [run_simps]:
  "run (case x of None \<Rightarrow> p | Some y \<Rightarrow> f y) = (case x of None \<Rightarrow> run p | Some y \<Rightarrow> run (f y))"
  by (simp split: option.split)

lemma run_prod [run_simps]: "run (case x of (a, b) \<Rightarrow> f a b) = (case x of (a, b) \<Rightarrow> run (f a b))"
  by (simp split: prod.split)

section \<open>One step of one thread\<close>

text \<open>\<open>holder\<close> is the thread that has the mutex. A program that has ended has no step, and one that
  takes the mutex has to wait until nobody has it.\<close>

fun prog_step ::
  "nat \<Rightarrow> ('l, 's, 'a) prog \<Rightarrow> nat option \<Rightarrow> 's \<Rightarrow> (('l, 's, 'a) prog \<times> nat option \<times> 's) option" where
  "prog_step k (Done r) holder s = None"
| "prog_step k (Step l g) holder s = (case g s of (p, t) \<Rightarrow> Some (p, holder, t))"
| "prog_step k (Lock p) holder s = (if holder = None then Some (p, Some k, s) else None)"
| "prog_step k (Unlock p) holder s = Some (p, None, s)"

fun next_label :: "('l, 's, 'a) prog \<Rightarrow> 'l option" where
  "next_label (Step l g) = Some l"
| "next_label p = None"

text \<open>By itself, a program steps to its end, with the result of \<open>run\<close>.\<close>

inductive steps_alone ::
  "nat \<Rightarrow> ('l, 's, 'a) prog \<times> nat option \<times> 's \<Rightarrow> ('l, 's, 'a) prog \<times> nat option \<times> 's \<Rightarrow> bool" for k where
  alone_refl: "steps_alone k x x"
| alone_step: "prog_step k p h s = Some y \<Longrightarrow> steps_alone k y z \<Longrightarrow> steps_alone k (p, h, s) z"

section \<open>The lock discipline\<close>

text \<open>
  \<open>disciplined guarded p b\<close>: a program that has the mutex if and only if \<open>b\<close> takes it only when
  it has not got it, ends without it, and makes a step of a \<open>guarded\<close> kind only while it has it.
\<close>

primrec disciplined :: "('l \<Rightarrow> bool) \<Rightarrow> ('l, 's, 'a) prog \<Rightarrow> bool \<Rightarrow> bool" where
  "disciplined guarded (Done r) = Not"
| "disciplined guarded (Step l g) =
     (\<lambda>b. (guarded l \<longrightarrow> b) \<and> (\<forall>s. fst (map_prod (disciplined guarded) id (g s)) b))"
| "disciplined guarded (Lock p) = (\<lambda>b. \<not> b \<and> disciplined guarded p True)"
| "disciplined guarded (Unlock p) = (\<lambda>b. b \<and> disciplined guarded p False)"

named_theorems discipline_rules \<open>programs that keep the lock discipline\<close>

text \<open>A block that runs with the mutex, or without it, from start to end.\<close>

primrec stays :: "('l \<Rightarrow> bool) \<Rightarrow> ('l, 's, 'a) prog \<Rightarrow> bool \<Rightarrow> bool" where
  "stays guarded (Done r) = (\<lambda>b. True)"
| "stays guarded (Step l g) =
     (\<lambda>b. (guarded l \<longrightarrow> b) \<and> (\<forall>s. fst (map_prod (stays guarded) id (g s)) b))"
| "stays guarded (Lock p) = (\<lambda>b. False)"
| "stays guarded (Unlock p) = (\<lambda>b. False)"

lemma stays_bind [discipline_rules]:
  "stays guarded p b \<Longrightarrow> (\<And>x. stays guarded (f x) b) \<Longrightarrow> stays guarded (prog_bind p f) b"
proof (induction p rule: prog_induct)
  case (Step l g)
  have "stays guarded (prog_bind (fst (g s)) f) b" for s
    using Step(1) [of s "fst (g s)" "snd (g s)"] Step(2,3) by simp
  then show ?case using Step(2) by simp
qed (simp_all split: sum.split)

lemma stays_unlocks: "stays guarded p True \<Longrightarrow> disciplined guarded (unlock_after p) True"
proof (induction p rule: prog_induct)
  case (Step l g)
  have "disciplined guarded (unlock_after (fst (g s))) True" for s
    using Step(1) [of s "fst (g s)" "snd (g s)"] Step(2) by simp
  then show ?case by simp
qed simp_all

lemma stays_disciplined: "stays guarded p False \<Longrightarrow> disciplined guarded p False"
proof (induction p rule: prog_induct)
  case (Step l g)
  have "disciplined guarded (fst (g s)) False" for s
    using Step(1) [of s "fst (g s)" "snd (g s)"] Step(2) by simp
  then show ?case using Step(2) by simp
qed simp_all

lemma disciplined_with_lock [discipline_rules]:
  "stays guarded p True \<Longrightarrow> disciplined guarded (with_lock p) False"
  by (simp add: with_lock_def stays_unlocks)

lemma disciplined_bind [discipline_rules]:
  "disciplined guarded p b \<Longrightarrow> (\<And>x. disciplined guarded (f x) False) \<Longrightarrow>
   disciplined guarded (prog_bind p f) b"
proof (induction p arbitrary: b rule: prog_induct)
  case (Step l g)
  have "disciplined guarded (prog_bind (fst (g s)) f) b" for s
    using Step(1) [of s "fst (g s)" "snd (g s)" b] Step(2,3) by simp
  then show ?case using Step(2) by simp
qed (simp_all split: sum.split)

lemma discipline_atoms [discipline_rules]:
  "stays guarded (prog_return x) b" "stays guarded (prog_fail e) b"
  "(guarded l \<Longrightarrow> b) \<Longrightarrow> stays guarded (atom l m) b"
  "disciplined guarded (prog_return x) False" "disciplined guarded (prog_fail e) False"
  "\<not> guarded l \<Longrightarrow> disciplined guarded (atom l m) False"
  by (simp_all add: prog_return_def prog_fail_def atom_def split: prod.split)

lemma discipline_splits [discipline_rules]:
  "(c \<Longrightarrow> stays guarded p b) \<Longrightarrow> (\<not> c \<Longrightarrow> stays guarded q b) \<Longrightarrow> stays guarded (if c then p else q) b"
  "(c \<Longrightarrow> disciplined guarded p b) \<Longrightarrow> (\<not> c \<Longrightarrow> disciplined guarded q b) \<Longrightarrow>
   disciplined guarded (if c then p else q) b"
  "(x = None \<Longrightarrow> stays guarded p b) \<Longrightarrow> (\<And>y. x = Some y \<Longrightarrow> stays guarded (h y) b) \<Longrightarrow>
   stays guarded (case x of None \<Rightarrow> p | Some y \<Rightarrow> h y) b"
  "(x = None \<Longrightarrow> disciplined guarded p b) \<Longrightarrow> (\<And>y. x = Some y \<Longrightarrow> disciplined guarded (h y) b) \<Longrightarrow>
   disciplined guarded (case x of None \<Rightarrow> p | Some y \<Rightarrow> h y) b"
  "(\<And>u v. z = (u, v) \<Longrightarrow> disciplined guarded (k u v) b) \<Longrightarrow>
   disciplined guarded (case z of (u, v) \<Rightarrow> k u v) b"
  by (simp_all split: option.split prod.split)

lemma disciplined_step:
  assumes "disciplined guarded p (holder = Some k)" and "prog_step k p holder s = Some (p', holder', s')"
  shows "disciplined guarded p' (holder' = Some k)"
    and "j \<noteq> k \<Longrightarrow> (holder' = Some j) = (holder = Some j)"
proof -
  have "disciplined guarded p' (holder' = Some k) \<and> (j \<noteq> k \<longrightarrow> (holder' = Some j) = (holder = Some j))"
  proof (cases p)
    case (Step l g)
    then have "g s = (p', s')" and "holder' = holder" using assms(2) by (auto split: prod.splits)
    moreover have "disciplined guarded (fst (g s)) (holder = Some k)" using assms(1) Step by simp
    ultimately show ?thesis by simp
  qed (use assms in \<open>auto split: if_splits\<close>)
  then show "disciplined guarded p' (holder' = Some k)"
    and "j \<noteq> k \<Longrightarrow> (holder' = Some j) = (holder = Some j)" by simp_all
qed

text \<open>Who has the mutex can always go on; who has not can go on when it is free.\<close>

lemma disciplined_can_step:
  assumes "disciplined guarded p (holder = Some k)" and "holder = Some k \<or> holder = None"
  shows "(\<exists>x. prog_step k p holder s = Some x) \<or> (\<exists>r. p = Done r \<and> holder = None)"
  using assms by (cases p) (auto split: prod.split)

text \<open>The steps of the first part of a sequence, up to where the second takes over.\<close>

lemma run_steps_bind:
  assumes "disciplined guarded p (holder = Some k)" and "holder = Some k \<or> holder = None"
    and "run p s = (Inr x, t)"
  shows "steps_alone k (prog_bind p f, holder, s) (f x, None, t)"
  using assms
proof (induction p arbitrary: holder s rule: prog_induct)
  case (Done r)
  then show ?case by (auto intro: alone_refl)
next
  case (Step l g)
  obtain q u where g: "g s = (q, u)" by force
  have "disciplined guarded (fst (g s)) (holder = Some k)" using Step(2) by simp
  then have "steps_alone k (prog_bind q f, holder, u) (f x, None, t)"
    using Step(1) [OF g, of holder u] Step(3,4) g by simp
  then show ?case using g by (intro alone_step [of k "prog_bind (Step l g) f"]) simp_all
next
  case (Lock p)
  have "steps_alone k (prog_bind p f, Some k, s) (f x, None, t)"
    using Lock(1) [of "Some k" s] Lock(2-4) by simp
  then show ?case using Lock(2,3) by (intro alone_step [of k "prog_bind (Lock p) f"]) simp_all
next
  case (Unlock p)
  have "steps_alone k (prog_bind p f, None, s) (f x, None, t)"
    using Unlock(1) [of None s] Unlock(2-4) by simp
  then show ?case by (intro alone_step [of k "prog_bind (Unlock p) f"]) simp_all
qed

lemma run_steps_alone:
  assumes "disciplined guarded p (holder = Some k)" and "holder = Some k \<or> holder = None"
    and "run p s = (r, t)"
  shows "steps_alone k (p, holder, s) (Done r, None, t)"
  using assms
proof (induction p arbitrary: holder s rule: prog_induct)
  case (Done r)
  then show ?case by (auto intro: alone_refl)
next
  case (Step l g)
  obtain q u where g: "g s = (q, u)" by force
  have "disciplined guarded (fst (g s)) (holder = Some k)" using Step(2) by simp
  then have "steps_alone k (q, holder, u) (Done r, None, t)"
    using Step(1) [OF g, of holder u] Step(3,4) g by simp
  then show ?case using g by (intro alone_step [of k "Step l g"]) simp_all
next
  case (Lock p)
  have "steps_alone k (p, Some k, s) (Done r, None, t)"
    using Lock(1) [of "Some k" s] Lock(2-4) by simp
  then show ?case using Lock(2,3) by (intro alone_step [of k "Lock p"]) simp_all
next
  case (Unlock p)
  have "steps_alone k (p, None, s) (Done r, None, t)"
    using Unlock(1) [of None s] Unlock(2-4) by simp
  then show ?case by (intro alone_step [of k "Unlock p"]) simp_all
qed

lemma steps_alone_trans: "steps_alone k x y \<Longrightarrow> steps_alone k y z \<Longrightarrow> steps_alone k x z"
  by (induction rule: steps_alone.induct) (auto intro: alone_step)

lemma prog_bind_assoc: "prog_bind (prog_bind p f) g = prog_bind p (\<lambda>x. prog_bind (f x) g)"
proof (induction p rule: prog_induct)
  case (Done r)
  then show ?case by (simp split: sum.split)
next
  case (Step l h)
  have "prog_bind (prog_bind (fst (h s)) f) g = prog_bind (fst (h s)) (\<lambda>x. prog_bind (f x) g)" for s
    using Step [of s "fst (h s)" "snd (h s)"] by simp
  then show ?case by (auto simp: fun_eq_iff intro!: prod_eqI)
qed simp_all

section \<open>Every program ends\<close>

inductive_set prog_order :: "(('l, 's, 'a) prog \<times> ('l, 's, 'a) prog) set" where
  after_step: "g s = (p, t) \<Longrightarrow> (p, Step l g) \<in> prog_order"
| after_lock: "(p, Lock p) \<in> prog_order"
| after_unlock: "(p, Unlock p) \<in> prog_order"

inductive_cases prog_orderE: "(q, p) \<in> prog_order"

lemma wf_prog_order: "wf (prog_order :: (('l, 's, 'a) prog \<times> ('l, 's, 'a) prog) set)"
proof (rule wfUNIVI)
  fix P :: "('l, 's, 'a) prog \<Rightarrow> bool" and p
  assume *: "\<forall>p. (\<forall>q. (q, p) \<in> prog_order \<longrightarrow> P q) \<longrightarrow> P p"
  show "P p"
  proof (induction p rule: prog_induct)
    case (Step l g)
    then have "P q" if "(q, Step l g) \<in> prog_order" for q
      using that by (auto elim: prog_orderE)
    then show ?case by (rule * [rule_format])
  next
    case (Done r)
    show ?case by (rule * [rule_format]) (auto elim: prog_orderE)
  next
    case (Lock p)
    then have "P q" if "(q, Lock p) \<in> prog_order" for q using that by (auto elim: prog_orderE)
    then show ?case by (rule * [rule_format])
  next
    case (Unlock p)
    then have "P q" if "(q, Unlock p) \<in> prog_order" for q using that by (auto elim: prog_orderE)
    then show ?case by (rule * [rule_format])
  qed
qed

lemma prog_step_order: "prog_step k p holder s = Some (p', holder', s') \<Longrightarrow> (p', p) \<in> prog_order"
  by (cases p) (auto intro: prog_order.intros split: prod.splits if_splits)

text \<open>The programs of several threads: a step of one makes their multiset smaller.\<close>

lemma mset_concat_update:
  assumes "k < length xs"
  shows "mset (concat (map f (xs[k := y]))) + mset (f (xs ! k)) = mset (concat (map f xs)) + mset (f y)"
  using assms
proof (induction xs arbitrary: k)
  case (Cons x xs)
  then show ?case by (cases k) (simp_all add: union_ac add.left_commute)
qed simp

lemma replaced_smaller:
  assumes "M' + {#p#} = M + {#q#}" and "(q, p) \<in> prog_order"
  shows "(M', M) \<in> mult prog_order"
proof -
  have "q \<noteq> p" using assms(2) wf_prog_order by (auto dest: wf_not_sym)
  then have "p \<in># M" using assms(1) by (metis add_mset_add_single insert_noteq_member union_single_eq_member)
  then obtain N where M: "M = add_mset p N" by (blast dest: multi_member_split)
  then have "M' = add_mset q N" using assms(1) by simp
  then show ?thesis
    using one_step_implies_mult [of "{#p#}" "{#q#}" prog_order N] assms(2) M by simp
qed

section \<open>Invariants of the state alone\<close>

text \<open>Every step of the program keeps the invariant, whatever ran before it.\<close>

primrec prog_keeps :: "('s \<Rightarrow> bool) \<Rightarrow> ('l, 's, 'a) prog \<Rightarrow> bool" where
  "prog_keeps I (Done r) = True"
| "prog_keeps I (Step l g) =
     (\<forall>s. fst (map_prod (prog_keeps I) id (g s)) \<and> (I s \<longrightarrow> I (snd (map_prod (prog_keeps I) id (g s)))))"
| "prog_keeps I (Lock p) = prog_keeps I p"
| "prog_keeps I (Unlock p) = prog_keeps I p"

named_theorems prog_keeps_rules \<open>programs every step of which keeps an invariant\<close>

lemma prog_keeps_atoms [prog_keeps_rules]:
  "prog_keeps I (prog_return x)" "prog_keeps I (prog_fail e)" "keeps I m \<Longrightarrow> prog_keeps I (atom l m)"
  by (simp_all add: prog_return_def prog_fail_def atom_def keeps_def split_beta)

lemma prog_keeps_bind [prog_keeps_rules]:
  "prog_keeps I p \<Longrightarrow> (\<And>x. prog_keeps I (f x)) \<Longrightarrow> prog_keeps I (prog_bind p f)"
proof (induction p rule: prog_induct)
  case (Step l g)
  have "prog_keeps I (prog_bind (fst (g s)) f)" for s
    using Step(1) [of s "fst (g s)" "snd (g s)"] Step(2,3) by simp
  then show ?case using Step(2) by simp
qed (simp_all split: sum.split)

lemma prog_keeps_unlock_after: "prog_keeps I p \<Longrightarrow> prog_keeps I (unlock_after p)"
proof (induction p rule: prog_induct)
  case (Step l g)
  have "prog_keeps I (unlock_after (fst (g s)))" for s
    using Step(1) [of s "fst (g s)" "snd (g s)"] Step(2) by simp
  then show ?case using Step(2) by simp
qed simp_all

lemma prog_keeps_with_lock [prog_keeps_rules]: "prog_keeps I p \<Longrightarrow> prog_keeps I (with_lock p)"
  by (simp add: with_lock_def prog_keeps_unlock_after)

lemma prog_keeps_splits [prog_keeps_rules]:
  "(c \<Longrightarrow> prog_keeps I p) \<Longrightarrow> (\<not> c \<Longrightarrow> prog_keeps I q) \<Longrightarrow> prog_keeps I (if c then p else q)"
  "(x = None \<Longrightarrow> prog_keeps I p) \<Longrightarrow> (\<And>y. x = Some y \<Longrightarrow> prog_keeps I (h y)) \<Longrightarrow>
   prog_keeps I (case x of None \<Rightarrow> p | Some y \<Rightarrow> h y)"
  "(\<And>u v. z = (u, v) \<Longrightarrow> prog_keeps I (k u v)) \<Longrightarrow> prog_keeps I (case z of (u, v) \<Rightarrow> k u v)"
  by (simp_all split: option.split prod.split)

lemma prog_keeps_step:
  assumes "prog_keeps I p" and "prog_step k p holder s = Some (p', holder', s')"
  shows "prog_keeps I p'" and "I s \<Longrightarrow> I s'"
proof -
  have "prog_keeps I p' \<and> (I s \<longrightarrow> I s')"
  proof (cases p)
    case (Step l g)
    then have "p' = fst (g s)" and "s' = snd (g s)" using assms(2) by (auto split: prod.splits)
    then show ?thesis using assms(1) Step by simp
  qed (use assms in \<open>auto split: if_splits\<close>)
  then show "prog_keeps I p'" and "I s \<Longrightarrow> I s'" by simp_all
qed

end
