(* ===== verification/Request_Programs.thy ===== *)
theory Request_Programs
  imports Client_Session Programs
begin

text \<open>
  The member functions a request goes through, as programs of the steps in which other threads can
  come between. A call of the database is one step that says so (whether the backend can be called by
  two threads at once is its own business: \<open>WrapperPg\<close> has a mutex for that, \<open>Storage\<close> has none), and
  so is a push on the write queue, which happens under the queue's mutex. \<open>ChannelsManager::mutex_\<close>
  is the mutex of the programs. \<open>UserManager\<close>, \<open>User\<close> and \<open>Channel\<close> have none: each of their accesses
  to shared memory is a step that says so. Every program run by itself is the function of the
  theories before.
\<close>

section \<open>Memory the managers share\<close>

datatype place =
    IdClients \<comment> \<open>\<open>UserManager::idClients_\<close>\<close>
  | UserSession type_id_user \<comment> \<open>\<open>User::session_\<close> of the user filed under the id\<close>
  | IdChannels \<comment> \<open>\<open>ChannelsManager::idChannels_\<close>\<close>
  | IdUsers channel_ref \<comment> \<open>\<open>Channel::idUsers_\<close>\<close>
  | Backend \<comment> \<open>the object behind \<open>weak_ptr<IDatabase>\<close>\<close>

datatype access = Reads place | Writes place

type_synonym ('db, 'a) request_prog = "(access list, 'db world, 'a) prog"

fun place_of :: "access \<Rightarrow> place" where
  "place_of (Reads x) = x"
| "place_of (Writes x) = x"

fun is_write :: "access \<Rightarrow> bool" where
  "is_write (Reads x) = False"
| "is_write (Writes x) = True"

text \<open>Two accesses that must not happen at the same time.\<close>

definition conflict :: "access \<Rightarrow> access \<Rightarrow> bool" where
  "conflict a b \<longleftrightarrow> place_of a = place_of b \<and> (is_write a \<or> is_write b)"

definition touches :: "place \<Rightarrow> access list \<Rightarrow> bool" where
  "touches x as \<longleftrightarrow> x \<in> place_of ` set as"

section \<open>Users\<close>

definition lock_db :: "('db, 'db option) request_prog" where
  "lock_db = atom [] (eff_gets w_db)"

definition ask_db :: "('db, 'a) eff \<Rightarrow> ('db, 'a) request_prog" where
  "ask_db m = atom [Writes Backend] (on_db m)"

definition getUser_prog :: "type_id_user \<Rightarrow> ('db, user_ptr) request_prog" where
  "getUser_prog i = atom [Reads IdClients] (getUser i)"

text \<open>\<open>user->getSession()\<close>, some time after \<open>getUser\<close> gave the pointer\<close>

definition session_of_user :: "type_id_user \<Rightarrow> ('db world, session) eff" where
  "session_of_user i =
     eff_bind (getUser i) (\<lambda>user.
     case user of
       None \<Rightarrow> eff_fail Null_pointer
     | Some u \<Rightarrow> eff_return (u_session u))"

definition getSession_prog :: "type_id_user \<Rightarrow> ('db, session) request_prog" where
  "getSession_prog i = atom [Reads (UserSession i)] (session_of_user i)"

definition push_prog :: "user_settings \<Rightarrow> ('db, unit) request_prog" where
  "push_prog st =
     atom [Reads IdClients, Writes IdClients, Writes (UserSession (us_id st))]
       (on_users (UserManager_push (UserManager_create st)))"

definition checkRegUser_prog :: "'db idatabase \<Rightarrow> input_settings \<Rightarrow> ('db, type_id_user) request_prog" where
  "checkRegUser_prog D settings =
     prog_bind lock_db (\<lambda>db.
     case db of
       None \<Rightarrow> prog_return REG_LOGIN_IS_BUSY
     | Some _ \<Rightarrow> ask_db (db_checkRegUser D settings))"

definition checkAuthUser_prog :: "'db idatabase \<Rightarrow> input_settings \<Rightarrow> ('db, type_id_user) request_prog" where
  "checkAuthUser_prog D settings =
     prog_bind lock_db (\<lambda>db.
     case db of
       None \<Rightarrow> prog_return AUTH_LOGIN_IS_NOT_AVAILABLE
     | Some _ \<Rightarrow> ask_db (db_checkAuthUser D settings))"

section \<open>Sessions\<close>

definition write_prog :: "session \<Rightarrow> bytes \<Rightarrow> ('db, bytes) request_prog" where
  "write_prog s buffer = atom [] (ClientSession_write s buffer)"

definition lock_session_prog :: "session \<Rightarrow> ('db, bool) request_prog" where
  "lock_session_prog s = atom [] (lock_session s)"

definition write_if_alive_prog :: "session \<Rightarrow> bytes \<Rightarrow> ('db, bytes) request_prog" where
  "write_if_alive_prog s buffer =
     prog_bind (lock_session_prog s) (\<lambda>alive.
     if alive then write_prog s buffer else prog_return buffer)"

section \<open>Channels\<close>

definition Channel_new_prog ::
  "'db idatabase \<Rightarrow> string \<Rightarrow> type_id_user \<Rightarrow> ('db, channel) request_prog" where
  "Channel_new_prog D name i =
     (if name = [] then prog_fail (Thrown (Invalid_argument ''Channel: empty name''))
      else if i = 0 then prog_fail (Thrown (Invalid_argument ''Channel: id equal zero''))
      else
        prog_bind lock_db (\<lambda>db.
        case db of
          None \<Rightarrow> prog_return \<lparr>ch_name = name, ch_id = i, idUsers = {}\<rparr>
        | Some _ \<Rightarrow>
            prog_bind (ask_db (db_getChannelUsers D i)) (\<lambda>users_id.
            prog_return \<lparr>ch_name = name, ch_id = i, idUsers = insert_all users_id {}\<rparr>)))"

definition lock_users :: "('db, user_manager option) request_prog" where
  "lock_users = atom [] (eff_gets w_users)"

definition deref_prog :: "channel_ptr \<Rightarrow> ('db, channel_ref \<times> channel) request_prog" where
  "deref_prog p = atom [] (deref p)"

definition members :: "channel_ref \<Rightarrow> 'db world \<Rightarrow> type_id_user set" where
  "members r w = (case w_heap w r of None \<Rightarrow> {} | Some c \<Rightarrow> idUsers c)"

definition members_prog :: "channel_ref \<Rightarrow> ('db, type_id_user set) request_prog" where
  "members_prog r = atom [Reads (IdUsers r)] (eff_gets (members r))"

definition insert_prog :: "channel_ref \<Rightarrow> type_id_user \<Rightarrow> ('db, unit) request_prog" where
  "insert_prog r i = atom [Writes (IdUsers r)] (idUsers_insert r i)"

definition Channel_addUser_prog :: "env \<Rightarrow> channel_ptr \<Rightarrow> type_id_user \<Rightarrow> ('db, unit) request_prog" where
  "Channel_addUser_prog E p client_id =
     prog_bind (deref_prog p) (\<lambda>(r, c).
     prog_bind lock_users (\<lambda>manager.
     case manager of
       None \<Rightarrow> prog_return ()
     | Some _ \<Rightarrow>
         prog_bind (members_prog r) (\<lambda>users.
         if client_id \<notin> users then
           prog_bind (insert_prog r client_id) (\<lambda>_.
           prog_bind (getUser_prog client_id) (\<lambda>user.
           case user of
             None \<Rightarrow> prog_return ()
           | Some u \<Rightarrow>
               prog_bind (getSession_prog client_id) (\<lambda>s.
               prog_bind (write_if_alive_prog s
                            (serialize E (JoinRoomResponseMsg (ch_name c) True))) (\<lambda>_.
               prog_return ()))))
         else prog_return ())))"

definition Channel_sendHistory_prog ::
  "'db idatabase \<Rightarrow> env \<Rightarrow> channel_ptr \<Rightarrow> type_id_user \<Rightarrow> datetime \<Rightarrow> ('db, unit) request_prog" where
  "Channel_sendHistory_prog D E p client_id since =
     prog_bind (deref_prog p) (\<lambda>(r, c).
     prog_bind lock_users (\<lambda>manager.
     case manager of
       None \<Rightarrow> prog_return ()
     | Some _ \<Rightarrow>
         prog_bind (members_prog r) (\<lambda>users.
         if client_id \<notin> users then prog_return ()
         else
           prog_bind (getUser_prog client_id) (\<lambda>clientPtr.
           case clientPtr of
             None \<Rightarrow> prog_return ()
           | Some u \<Rightarrow>
               prog_bind (getSession_prog client_id) (\<lambda>s.
               prog_bind (lock_session_prog s) (\<lambda>alive.
               if alive then
                 prog_bind lock_db (\<lambda>db.
                 prog_bind (case db of
                              None \<Rightarrow> prog_return []
                            | Some _ \<Rightarrow>
                                prog_bind (ask_db (db_getHistory D (ch_id c))) (\<lambda>history.
                                prog_return (filter (newer_than E since) history)))
                   (\<lambda>responseHistory.
                 if responseHistory \<noteq> [] then
                   prog_bind (write_prog s
                       (serialize E (HistoryResponseMsg (ch_name c) responseHistory))) (\<lambda>_.
                   prog_return ())
                 else prog_return ()))
               else prog_return ()))))))"

text \<open>
  The loop of \<open>Channel::write\<close>: the range-for reads the set again whenever it goes on. The ids it
  visits are those it finds at its start; an insertion while it runs is a race.
\<close>

fun write_loop_prog :: "channel_ref \<Rightarrow> type_id_user list \<Rightarrow> bytes \<Rightarrow> ('db, unit) request_prog" where
  "write_loop_prog r [] buffer =
     prog_bind (members_prog r) (\<lambda>_.
     prog_return ())"
| "write_loop_prog r (i # is) buffer =
     prog_bind (members_prog r) (\<lambda>_.
     prog_bind (getUser_prog i) (\<lambda>user.
     case user of
       None \<Rightarrow> write_loop_prog r is buffer
     | Some u \<Rightarrow>
         prog_bind (getSession_prog i) (\<lambda>s.
         prog_bind (write_if_alive_prog s buffer) (\<lambda>buffer'.
         write_loop_prog r is buffer'))))"

definition Channel_write_prog ::
  "'db idatabase \<Rightarrow> env \<Rightarrow> (type_id_user set \<Rightarrow> type_id_user list) \<Rightarrow> channel_ptr \<Rightarrow> text_msg
     \<Rightarrow> ('db, unit) request_prog" where
  "Channel_write_prog D E ord p message =
     prog_bind (deref_prog p) (\<lambda>(r, c).
     prog_bind lock_users (\<lambda>manager.
     case manager of
       None \<Rightarrow> prog_return ()
     | Some _ \<Rightarrow>
         prog_bind (members_prog r) (\<lambda>users.
         prog_bind (write_loop_prog r (ord users) (serialize E (EchoResponseMsg message))) (\<lambda>_.
         prog_bind lock_db (\<lambda>db.
         case db of
           None \<Rightarrow> prog_return ()
         | Some _ \<Rightarrow> ask_db (db_addMsgHistory D (ch_id c) message))))))"

section \<open>The channels manager\<close>

definition getUserNameChannels_prog ::
  "'db idatabase \<Rightarrow> type_id_user \<Rightarrow> ('db, string list) request_prog" where
  "getUserNameChannels_prog D client_id =
     prog_bind lock_db (\<lambda>db.
     case db of
       None \<Rightarrow> prog_return []
     | Some _ \<Rightarrow> ask_db (db_getUserNameChannels D client_id))"

definition joinClientChannel_prog ::
  "'db idatabase \<Rightarrow> type_id_user \<Rightarrow> string \<Rightarrow> ('db, unit) request_prog" where
  "joinClientChannel_prog D client_id name =
     prog_bind lock_db (\<lambda>db.
     case db of
       None \<Rightarrow> prog_return ()
     | Some _ \<Rightarrow> ask_db (db_joinClientChannel D client_id name))"

definition construct_prog ::
  "'db idatabase \<Rightarrow> string \<Rightarrow> type_id_user \<Rightarrow> ('db, channel_ptr) request_prog" where
  "construct_prog D name i =
     prog_bind (Channel_new_prog D name i) (\<lambda>c.
     atom [] (make_shared_channel c))"

definition register_prog :: "type_id_user \<Rightarrow> channel_ptr \<Rightarrow> ('db, unit) request_prog" where
  "register_prog i p = atom [Writes IdChannels] (register_channel i p)"

definition find_prog :: "type_id_user \<Rightarrow> ('db, channel_ptr option) request_prog" where
  "find_prog i = atom [Reads IdChannels] (eff_gets (\<lambda>w. idChannels w i))"

definition createOrGet_prog :: "'db idatabase \<Rightarrow> string \<Rightarrow> ('db, channel_ptr) request_prog" where
  "createOrGet_prog D name =
     prog_bind lock_db (\<lambda>db.
     case db of
       None \<Rightarrow> prog_return None
     | Some _ \<Rightarrow>
         prog_bind (ask_db (db_hasChannel D name)) (\<lambda>known.
         if known then
           prog_bind (ask_db (db_getChannelId D name)) (\<lambda>channel_id.
           with_lock (
             prog_bind (find_prog channel_id) (\<lambda>found.
             case found of
               None \<Rightarrow>
                 prog_bind (construct_prog D name channel_id) (\<lambda>p.
                 prog_bind (register_prog channel_id p) (\<lambda>_.
                 prog_return p))
             | Some p \<Rightarrow> prog_return p)))
         else
           prog_bind (ask_db (db_createChannel D name)) (\<lambda>channel_id.
           prog_bind (construct_prog D name channel_id) (\<lambda>p.
           with_lock (
             prog_bind (register_prog channel_id p) (\<lambda>_.
             prog_return p))))))"

section \<open>The engine\<close>

definition reg_prog ::
  "'db idatabase \<Rightarrow> env \<Rightarrow> session \<Rightarrow> credentials \<Rightarrow> ('db, unit) request_prog" where
  "reg_prog D E s request =
     prog_bind (checkRegUser_prog D (input_of request)) (\<lambda>client_id.
     prog_bind (if client_id \<noteq> REG_LOGIN_IS_BUSY then push_prog (settings_of s request client_id)
                else prog_return ()) (\<lambda>_.
     prog_bind (write_if_alive_prog s (serialize E (RegistrationResponseMsg client_id))) (\<lambda>_.
     prog_return ())))"

definition auth_prog ::
  "'db idatabase \<Rightarrow> env \<Rightarrow> session \<Rightarrow> credentials \<Rightarrow> ('db, unit) request_prog" where
  "auth_prog D E s request =
     prog_bind (checkAuthUser_prog D (input_of request)) (\<lambda>client_id.
     prog_bind (if client_id \<noteq> AUTH_LOGIN_IS_NOT_AVAILABLE then push_prog (settings_of s request client_id)
                else prog_return ()) (\<lambda>_.
     prog_bind (write_if_alive_prog s (serialize E (AuthorisationResponseMsg client_id))) (\<lambda>_.
     prog_return ())))"

definition getHistory_prog :: "'db idatabase \<Rightarrow> env \<Rightarrow> history_request \<Rightarrow> ('db, unit) request_prog" where
  "getHistory_prog D E request =
     prog_bind (createOrGet_prog D (hr_channel_name request)) (\<lambda>channel.
     let since = request_datetime E (hr_since request)
     in Channel_sendHistory_prog D E channel (hr_client_id request) since)"

definition getChannels_prog :: "'db idatabase \<Rightarrow> env \<Rightarrow> channels_request \<Rightarrow> ('db, unit) request_prog" where
  "getChannels_prog D E request =
     prog_bind (getUser_prog (cr_client_id request)) (\<lambda>clientPtr.
     case clientPtr of
       None \<Rightarrow> atom [] (boost_format E ''client is nullptr'' 1)
     | Some u \<Rightarrow>
         prog_bind (getSession_prog (cr_client_id request)) (\<lambda>s.
         prog_bind (lock_session_prog s) (\<lambda>alive.
         if alive then
           prog_bind (getUserNameChannels_prog D (cr_client_id request)) (\<lambda>channels.
           prog_bind (write_prog s (serialize E (ChannelsResponseMsg channels))) (\<lambda>_.
           prog_return ()))
         else prog_return ())))"

definition joinRoom_prog :: "'db idatabase \<Rightarrow> env \<Rightarrow> join_room_request \<Rightarrow> ('db, unit) request_prog" where
  "joinRoom_prog D E request =
     prog_bind (createOrGet_prog D (jr_channel_name request)) (\<lambda>channel.
     prog_bind (getUser_prog (jr_client_id request)) (\<lambda>clientPtr.
     case clientPtr of
       None \<Rightarrow> prog_return ()
     | Some u \<Rightarrow>
         prog_bind (Channel_addUser_prog E channel (u_id u)) (\<lambda>_.
         joinClientChannel_prog D (jr_client_id request) (jr_channel_name request))))"

definition sendText_prog ::
  "'db idatabase \<Rightarrow> env \<Rightarrow> (type_id_user set \<Rightarrow> type_id_user list) \<Rightarrow> text_request
     \<Rightarrow> ('db, unit) request_prog" where
  "sendText_prog D E ord request =
     prog_bind (createOrGet_prog D (tr_channel_name request)) (\<lambda>channel.
     case channel of
       Some _ \<Rightarrow> Channel_write_prog D E ord channel (text_message E request)
     | None \<Rightarrow> prog_return ())"

section \<open>The session\<close>

definition with_engine_prog :: "('db, unit) request_prog \<Rightarrow> ('db, unit) request_prog" where
  "with_engine_prog p =
     prog_bind (atom [] (eff_gets w_engine)) (\<lambda>alive. if alive then p else prog_return ())"

definition reply_prog :: "env \<Rightarrow> session \<Rightarrow> response \<Rightarrow> ('db, unit) request_prog" where
  "reply_prog E s r = prog_bind (write_prog s (serialize E r)) (\<lambda>_. prog_return ())"

definition processRequest_prog ::
  "'db idatabase \<Rightarrow> env \<Rightarrow> (type_id_user set \<Rightarrow> type_id_user list) \<Rightarrow> session \<Rightarrow> header \<Rightarrow> request
     \<Rightarrow> ('db, unit) request_prog" where
  "processRequest_prog D E ord s header request =
     (case to_TypeCommand E (h_command header) of
        RegistrationRequest \<Rightarrow>
          (case registration_request request of
             Some r \<Rightarrow> with_engine_prog (reg_prog D E s r)
           | None \<Rightarrow> reply_prog E s (RegistrationResponseMsg CODE_FAILED_REG))
      | AuthorisationRequest \<Rightarrow>
          (case authorisation_request request of
             Some r \<Rightarrow> with_engine_prog (auth_prog D E s r)
           | None \<Rightarrow> reply_prog E s (AuthorisationResponseMsg 0))
      | SendTextRequest \<Rightarrow>
          (case text_request request of
             Some r \<Rightarrow> with_engine_prog (sendText_prog D E ord r)
           | None \<Rightarrow> prog_return ())
      | JoinRoomRequest \<Rightarrow>
          (case join_room_request request of
             Some r \<Rightarrow> with_engine_prog (joinRoom_prog D E r)
           | None \<Rightarrow> reply_prog E s (JoinRoomResponseMsg [] False))
      | HistoryRequest \<Rightarrow>
          (case history_request request of
             Some r \<Rightarrow> with_engine_prog (getHistory_prog D E r)
           | None \<Rightarrow> prog_return ())
      | ChannelsRequest \<Rightarrow>
          (case channels_request request of
             Some r \<Rightarrow> with_engine_prog (getChannels_prog D E r)
           | None \<Rightarrow> prog_return ())
      | _ \<Rightarrow> prog_return ())"

section \<open>By itself, a program is the function\<close>

lemmas small_progs = lock_db_def ask_db_def getUser_prog_def getSession_prog_def push_prog_def
  write_prog_def lock_session_prog_def lock_users_def deref_prog_def members_prog_def insert_prog_def
  register_prog_def find_prog_def

lemma run_small [run_simps]:
  "run lock_db = eff_gets w_db"
  "run (ask_db m) = on_db m"
  "run (getUser_prog i) = getUser i"
  "run (getSession_prog i) = session_of_user i"
  "run (push_prog st) = on_users (UserManager_push (UserManager_create st))"
  "run (write_prog s b) = ClientSession_write s b"
  "run (lock_session_prog s) = lock_session s"
  "run lock_users = eff_gets w_users"
  "run (deref_prog p) = deref p"
  "run (members_prog r) = eff_gets (members r)"
  "run (insert_prog r i) = idUsers_insert r i"
  "run (register_prog i q) = register_channel i q"
  "run (find_prog i) = eff_gets (\<lambda>w. idChannels w i)"
  by (simp_all add: small_progs run_simps)

text \<open>With nobody in between, a member or a session read later is the one read at once.\<close>

lemma session_read_at_once:
  "eff_bind (getUser i) (\<lambda>user. case user of None \<Rightarrow> A | Some u \<Rightarrow> eff_bind (session_of_user i) (B u)) =
   eff_bind (getUser i) (\<lambda>user. case user of None \<Rightarrow> A | Some u \<Rightarrow> B u (u_session u))"
proof (rule ext)
  fix w :: "'a world"
  show "eff_bind (getUser i) (\<lambda>user. case user of None \<Rightarrow> A | Some u \<Rightarrow> eff_bind (session_of_user i) (B u)) w =
    eff_bind (getUser i) (\<lambda>user. case user of None \<Rightarrow> A | Some u \<Rightarrow> B u (u_session u)) w"
  proof (cases "w_users w")
    case (Some um)
    then show ?thesis
      by (cases "UserManager_getUser i um") (simp_all add: session_of_user_def)
  qed simp
qed

lemma members_read_at_once:
  "eff_bind (deref p) (\<lambda>(r, c). eff_bind (eff_gets w_users) (\<lambda>manager.
     case manager of None \<Rightarrow> eff_return x | Some um \<Rightarrow> eff_bind (eff_gets (members r)) (F r c))) =
   eff_bind (deref p) (\<lambda>(r, c). eff_bind (eff_gets w_users) (\<lambda>manager.
     case manager of None \<Rightarrow> eff_return x | Some um \<Rightarrow> F r c (idUsers c)))"
proof (rule ext)
  fix w :: "'a world"
  show "eff_bind (deref p) (\<lambda>(r, c). eff_bind (eff_gets w_users) (\<lambda>manager.
     case manager of None \<Rightarrow> eff_return x | Some um \<Rightarrow> eff_bind (eff_gets (members r)) (F r c))) w =
   eff_bind (deref p) (\<lambda>(r, c). eff_bind (eff_gets w_users) (\<lambda>manager.
     case manager of None \<Rightarrow> eff_return x | Some um \<Rightarrow> F r c (idUsers c))) w"
    by (cases p; cases "w_heap w (the p)"; cases "w_users w")
      (simp_all add: bind_split deref_def members_def)
qed

lemma ignored_read [simp]: "eff_bind (eff_gets f) (\<lambda>_. m) = m"
  by (rule ext) simp

text \<open>Both branches of a conditional are rewritten.\<close>

lemmas branch_cong = if_cong option.case_cong

lemma run_write_if_alive [run_simps]: "run (write_if_alive_prog s b) = write_if_alive s b"
  by (simp add: write_if_alive_prog_def write_if_alive_def run_simps cong: branch_cong)

lemma run_accounts [run_simps]:
  "run (checkRegUser_prog D st) = UserManager_checkRegUser D st"
  "run (checkAuthUser_prog D st) = UserManager_checkAuthUser D st"
  by (simp_all add: checkRegUser_prog_def UserManager_checkRegUser_def
      checkAuthUser_prog_def UserManager_checkAuthUser_def run_simps cong: branch_cong)

lemma run_Channel_new [run_simps]: "run (Channel_new_prog D name i) = Channel_new D name i"
  by (simp add: Channel_new_prog_def Channel_new_def eff_throw_def run_simps cong: branch_cong)

lemma run_addUser [run_simps]: "run (Channel_addUser_prog E p i) = Channel_addUser E p i"
  by (simp add: Channel_addUser_prog_def Channel_addUser_def run_simps session_read_at_once
      members_read_at_once cong: branch_cong)

lemma run_sendHistory [run_simps]:
  "run (Channel_sendHistory_prog D E p i since) = Channel_sendHistory D E p i since"
  by (simp add: Channel_sendHistory_prog_def Channel_sendHistory_def run_simps session_read_at_once
      members_read_at_once cong: branch_cong)

lemma run_write_loop [run_simps]: "run (write_loop_prog r is b) = write_loop is b"
  by (induction "is" arbitrary: b) (simp_all add: run_simps session_read_at_once cong: branch_cong)

lemma run_Channel_write [run_simps]: "run (Channel_write_prog D E ord p m) = Channel_write D E ord p m"
  by (simp add: Channel_write_prog_def Channel_write_def run_simps members_read_at_once cong: branch_cong)

lemma run_directory [run_simps]:
  "run (getUserNameChannels_prog D i) = getUserNameChannels D i"
  "run (joinClientChannel_prog D i name) = joinClientChannel D i name"
  by (simp_all add: getUserNameChannels_prog_def getUserNameChannels_def
      joinClientChannel_prog_def joinClientChannel_def run_simps cong: branch_cong)

lemma run_createOrGet [run_simps]: "run (createOrGet_prog D name) = createOrGetChannelByName D name"
  by (simp add: createOrGet_prog_def construct_prog_def createOrGetChannelByName_def
      new_registered_channel_def run_simps eff_bind_assoc cong: branch_cong)

lemma run_engine [run_simps]:
  "run (reg_prog D E s c) = QueryEngine_reg D E s c"
  "run (auth_prog D E s c) = QueryEngine_auth D E s c"
  "run (getHistory_prog D E hr) = QueryEngine_getHistory D E hr"
  "run (getChannels_prog D E cr) = QueryEngine_getChannels D E cr"
  "run (joinRoom_prog D E jr) = QueryEngine_joinRoom D E jr"
  "run (sendText_prog D E ord tr) = QueryEngine_sendText D E ord tr"
  by (simp_all add: reg_prog_def QueryEngine_reg_def auth_prog_def QueryEngine_auth_def
      getHistory_prog_def QueryEngine_getHistory_def getChannels_prog_def QueryEngine_getChannels_def
      joinRoom_prog_def QueryEngine_joinRoom_def sendText_prog_def QueryEngine_sendText_def
      run_simps session_read_at_once Let_def cong: branch_cong)

lemma run_session [run_simps]:
  "run (with_engine_prog p) = with_engine (run p)"
  "run (reply_prog E s m) = reply E s m"
  by (simp_all add: with_engine_prog_def with_engine_def reply_prog_def reply_def run_simps cong: branch_cong)

lemma run_processRequest: "run (processRequest_prog D E ord s h r) = processRequest D E ord s h r"
  by (cases "to_TypeCommand E (h_command h)")
    (simp_all add: processRequest_prog_def processRequest_def run_simps split: option.split cong: branch_cong)

section \<open>The lock discipline of a request\<close>

text \<open>The only memory the mutex guards is the directory of channels.\<close>

definition guarded :: "access list \<Rightarrow> bool" where
  "guarded as \<longleftrightarrow> touches IdChannels as"

lemma guarded_simps [simp]:
  "guarded [] = False" "guarded [Reads x] = (x = IdChannels)" "guarded [Writes x] = (x = IdChannels)"
  "guarded [Reads x, Writes y, Writes z] = (IdChannels \<in> {x, y, z})"
  by (auto simp: guarded_def touches_def)

lemma small_discipline [discipline_rules]:
  "stays guarded lock_db b" "stays guarded (ask_db m) b"
  "stays guarded (find_prog i) True" "stays guarded (register_prog i p) True"
  "stays guarded (atom [] n) b"
  "disciplined guarded lock_db False" "disciplined guarded (ask_db m) False"
  "disciplined guarded (getUser_prog i) False" "disciplined guarded (getSession_prog i) False"
  "disciplined guarded (push_prog st) False" "disciplined guarded (write_prog s buffer) False"
  "disciplined guarded (lock_session_prog s) False" "disciplined guarded lock_users False"
  "disciplined guarded (deref_prog p) False" "disciplined guarded (members_prog r) False"
  "disciplined guarded (insert_prog r i) False" "disciplined guarded (atom [] n) False"
  unfolding small_progs by (intro discipline_rules; simp)+

lemma Channel_new_stays [discipline_rules]: "stays guarded (Channel_new_prog D name i) b"
  unfolding Channel_new_prog_def by (intro discipline_rules)

lemma construct_stays [discipline_rules]: "stays guarded (construct_prog D name i) b"
  unfolding construct_prog_def by (intro discipline_rules)

lemmas construct_disciplined [discipline_rules] = construct_stays [THEN stays_disciplined]

lemma createOrGet_disciplined [discipline_rules]: "disciplined guarded (createOrGet_prog D name) False"
  unfolding createOrGet_prog_def by (intro discipline_rules)

lemma write_if_alive_disciplined [discipline_rules]:
  "disciplined guarded (write_if_alive_prog s buffer) False"
  unfolding write_if_alive_prog_def by (intro discipline_rules)

lemma write_loop_disciplined [discipline_rules]: "disciplined guarded (write_loop_prog r is buffer) False"
  by (induction "is" arbitrary: buffer) (simp_all only: write_loop_prog.simps, (intro discipline_rules; assumption?)+)

lemma channel_disciplined [discipline_rules]:
  "disciplined guarded (Channel_addUser_prog E p i) False"
  "disciplined guarded (Channel_sendHistory_prog D E p i since) False"
  "disciplined guarded (Channel_write_prog D E ord p m) False"
  unfolding Channel_addUser_prog_def Channel_sendHistory_prog_def Channel_write_prog_def
  by (intro discipline_rules)+

lemma manager_disciplined [discipline_rules]:
  "disciplined guarded (getUserNameChannels_prog D i) False"
  "disciplined guarded (joinClientChannel_prog D i name) False"
  "disciplined guarded (checkRegUser_prog D st) False"
  "disciplined guarded (checkAuthUser_prog D st) False"
  unfolding getUserNameChannels_prog_def joinClientChannel_prog_def checkRegUser_prog_def
    checkAuthUser_prog_def
  by (intro discipline_rules)+

lemma engine_disciplined [discipline_rules]:
  "disciplined guarded (reg_prog D E s c) False"
  "disciplined guarded (auth_prog D E s c) False"
  "disciplined guarded (getHistory_prog D E hr) False"
  "disciplined guarded (getChannels_prog D E cr) False"
  "disciplined guarded (joinRoom_prog D E jr) False"
  "disciplined guarded (sendText_prog D E ord tr) False"
  unfolding reg_prog_def auth_prog_def getHistory_prog_def getChannels_prog_def joinRoom_prog_def
    sendText_prog_def Let_def
  by (intro discipline_rules)+

lemma session_disciplined [discipline_rules]:
  "disciplined guarded p False \<Longrightarrow> disciplined guarded (with_engine_prog p) False"
  "disciplined guarded (reply_prog E s m) False"
  unfolding with_engine_prog_def reply_prog_def by (intro discipline_rules; assumption?)+

lemma processRequest_disciplined: "disciplined guarded (processRequest_prog D E ord s h r) False"
  unfolding processRequest_prog_def
  by (cases "to_TypeCommand E (h_command h)") (simp_all only: type_command.case, (intro discipline_rules)+)

end
