(* ===== verification/Rely_Guarantee.thy ===== *)
theory Rely_Guarantee
  imports Programs
begin

text \<open>
  Programs among other threads. \<open>safe I R G Q p s\<close>: from \<open>s\<close> on, while the others change the state
  only as \<open>R\<close> allows and keep \<open>I\<close>, every step of \<open>p\<close> keeps \<open>I\<close> and does what \<open>G\<close> allows a step of its
  label, and the result satisfies \<open>Q\<close>. The locale \<open>rely_guarantee\<close> has the rules, one for each way a
  program is put together.
\<close>

inductive safe ::
  "('s \<Rightarrow> bool) \<Rightarrow> ('s \<Rightarrow> 's \<Rightarrow> bool) \<Rightarrow> ('l \<Rightarrow> 's \<Rightarrow> 's \<Rightarrow> bool) \<Rightarrow> (failure + 'a \<Rightarrow> 's \<Rightarrow> bool)
     \<Rightarrow> ('l, 's, 'a) prog \<Rightarrow> 's \<Rightarrow> bool" for I R G Q
  where
  safe_done: "(\<And>t. R s t \<Longrightarrow> I t \<Longrightarrow> Q r t) \<Longrightarrow> safe I R G Q (Done r) s"
| safe_step: "(\<And>t p u. R s t \<Longrightarrow> I t \<Longrightarrow> g t = (p, u) \<Longrightarrow> I u \<and> G l t u \<and> safe I R G Q p u) \<Longrightarrow>
    safe I R G Q (Step l g) s"
| safe_lock: "safe I R G Q p s \<Longrightarrow> safe I R G Q (Lock p) s"
| safe_unlock: "safe I R G Q p s \<Longrightarrow> safe I R G Q (Unlock p) s"

inductive_simps safe_done_iff [simp]: "safe I R G Q (Done r) s"
inductive_simps safe_step_iff: "safe I R G Q (Step l g) s"
inductive_simps safe_lock_iff [simp]: "safe I R G Q (Lock p) s"
inductive_simps safe_unlock_iff [simp]: "safe I R G Q (Unlock p) s"

definition stable :: "('s \<Rightarrow> 's \<Rightarrow> bool) \<Rightarrow> ('s \<Rightarrow> bool) \<Rightarrow> bool" where
  "stable R P \<longleftrightarrow> (\<forall>s t. P s \<longrightarrow> R s t \<longrightarrow> P t)"

text \<open>A result: a value with \<open>Q\<close>, or a failure of those in \<open>F\<close>.\<close>

definition result :: "(failure \<Rightarrow> bool) \<Rightarrow> ('a \<Rightarrow> 's \<Rightarrow> bool) \<Rightarrow> failure + 'a \<Rightarrow> 's \<Rightarrow> bool" where
  "result F Q r t = (case r of Inl e \<Rightarrow> F e | Inr x \<Rightarrow> Q x t)"

lemma result_simps [simp]: "result F Q (Inl e) t = F e" "result F Q (Inr x) t = Q x t"
  by (simp_all add: result_def)

definition sat ::
  "('s \<Rightarrow> bool) \<Rightarrow> ('s \<Rightarrow> 's \<Rightarrow> bool) \<Rightarrow> ('l \<Rightarrow> 's \<Rightarrow> 's \<Rightarrow> bool) \<Rightarrow> (failure \<Rightarrow> bool) \<Rightarrow> ('s \<Rightarrow> bool)
     \<Rightarrow> ('l, 's, 'a) prog \<Rightarrow> ('a \<Rightarrow> 's \<Rightarrow> bool) \<Rightarrow> bool" where
  "sat I R G F P p Q \<longleftrightarrow> (\<forall>s. I s \<longrightarrow> P s \<longrightarrow> safe I R G (result F Q) p s)"

named_theorems rg_rules \<open>programs under rely and guarantee\<close>
named_theorems stable_rules \<open>assertions other threads cannot falsify\<close>

lemma stable_logic [stable_rules]:
  "stable R (\<lambda>s. b)"
  "stable R P \<Longrightarrow> stable R P' \<Longrightarrow> stable R (\<lambda>s. P s \<and> P' s)"
  "(b \<Longrightarrow> stable R P) \<Longrightarrow> stable R (\<lambda>s. b \<longrightarrow> P s)"
  by (auto simp: stable_def)

lemma stableD: "stable R P \<Longrightarrow> P s \<Longrightarrow> R s t \<Longrightarrow> P t"
  by (simp add: stable_def)

lemma sat_splits [rg_rules]:
  "(b \<Longrightarrow> sat I R G F P p Q) \<Longrightarrow> (\<not> b \<Longrightarrow> sat I R G F P q Q) \<Longrightarrow> sat I R G F P (if b then p else q) Q"
  "(x = None \<Longrightarrow> sat I R G F P p Q) \<Longrightarrow> (\<And>y. x = Some y \<Longrightarrow> sat I R G F P (h y) Q) \<Longrightarrow>
   sat I R G F P (case x of None \<Rightarrow> p | Some y \<Rightarrow> h y) Q"
  "(\<And>u v. z = (u, v) \<Longrightarrow> sat I R G F P (k u v) Q) \<Longrightarrow> sat I R G F P (case z of (u, v) \<Rightarrow> k u v) Q"
  by (simp_all split: option.split prod.split)

lemma sat_pre: "sat I R G F P' p Q \<Longrightarrow> (\<And>s. I s \<Longrightarrow> P s \<Longrightarrow> P' s) \<Longrightarrow> sat I R G F P p Q"
  by (simp add: sat_def)

locale rely_guarantee =
  fixes I :: "'s \<Rightarrow> bool" and R :: "'s \<Rightarrow> 's \<Rightarrow> bool" and G :: "'l \<Rightarrow> 's \<Rightarrow> 's \<Rightarrow> bool"
  assumes rely_refl: "R s s"
    and rely_trans: "R s t \<Longrightarrow> R t u \<Longrightarrow> R s u"
    and guarantee_rely: "G l s t \<Longrightarrow> R s t"
begin

text \<open>What other threads do in between does not matter.\<close>

lemma safe_later: "safe I R G Q p s \<Longrightarrow> R s t \<Longrightarrow> safe I R G Q p t"
proof (induction p s rule: safe.induct)
  case (safe_step s g l)
  have "I v \<and> G l u v \<and> safe I R G Q p v" if "R t u" "I u" "g u = (p, v)" for u p v
    using safe_step(1) [OF rely_trans [OF safe_step(2) that(1)] that(2,3)] by blast
  then show ?case by (intro safe.safe_step)
qed (auto intro: rely_trans safe.intros)

text \<open>What held before a program, and cannot be falsified, holds after it.\<close>

lemma safe_frame:
  assumes "safe I R G Q p s" and "stable R P" and "P s"
  shows "safe I R G (\<lambda>r t. P t \<and> Q r t) p s"
  using assms
proof (induction p s rule: safe.induct)
  case (safe_done s r)
  then show ?case using stableD [OF safe_done(2,3)] by simp
next
  case (safe_step s g l)
  have "I u \<and> G l t u \<and> safe I R G (\<lambda>r t. P t \<and> Q r t) p u" if "R s t" "I t" "g t = (p, u)" for t p u
  proof -
    have "I u" "G l t u" using safe_step(1) [OF that] by blast+
    moreover have "P u"
      using stableD [OF safe_step(2) stableD [OF safe_step(2,3) that(1)]] guarantee_rely calculation(2)
      by blast
    ultimately show ?thesis using safe_step(1) [OF that] safe_step(2) by blast
  qed
  then show ?case by (intro safe.safe_step)
qed simp_all

lemma safe_weaken:
  assumes "safe I R G Q p s" and "\<And>r t. I t \<Longrightarrow> Q r t \<Longrightarrow> Q' r t"
  shows "safe I R G Q' p s"
  using assms(1)
proof (induction p s rule: safe.induct)
  case (safe_step s g l)
  then show ?case by (intro safe.safe_step) blast
qed (simp_all add: assms(2))

lemma safe_bind:
  assumes "safe I R G S p s" and "I s"
    and "\<And>e t. I t \<Longrightarrow> S (Inl e) t \<Longrightarrow> Q (Inl e) t"
    and "\<And>x t. I t \<Longrightarrow> S (Inr x) t \<Longrightarrow> safe I R G Q (f x) t"
  shows "safe I R G Q (prog_bind p f) s"
  using assms(1,2)
proof (induction p s rule: safe.induct)
  case (safe_done s r)
  show ?case
  proof (cases r)
    case (Inl e)
    then show ?thesis using safe_done(1) assms(3) by simp
  next
    case (Inr x)
    have "S r s" using safe_done rely_refl by blast
    then show ?thesis using safe_done(2) Inr assms(4) by simp
  qed
next
  case (safe_step s g l)
  have "I u \<and> G l t u \<and> safe I R G Q p u"
    if step: "R s t" "I t" "(map_prod (\<lambda>p. prog_bind p f) id \<circ> g) t = (p, u)" for t p u
  proof -
    obtain q where g: "g t = (q, u)" and p: "p = prog_bind q f" using step(3) by (cases "g t") auto
    from safe_step(1) [OF step(1,2) g] p show ?thesis by simp
  qed
  then show ?case by (simp only: prog_bind.simps) (intro safe.safe_step)
qed simp_all

lemma sat_bind:
  assumes "stable R P" and "sat I R G F P p S" and "\<And>x. sat I R G F (\<lambda>s. P s \<and> S x s) (f x) Q"
  shows "sat I R G F P (prog_bind p f) Q"
  unfolding sat_def
proof (intro allI impI)
  fix s
  assume s: "I s" "P s"
  then have "safe I R G (result F S) p s" using assms(2) by (simp add: sat_def)
  from safe_frame [OF this assms(1) s(2)] s(1)
  show "safe I R G (result F Q) (prog_bind p f) s"
    by (rule safe_bind) (use assms(3) in \<open>simp_all add: sat_def\<close>)
qed

lemma sat_then [rg_rules]:
  assumes "stable R P" and "sat I R G F P p (\<lambda>_ _. True)" and "\<And>x. sat I R G F P (f x) Q"
  shows "sat I R G F P (prog_bind p f) Q"
  by (rule sat_bind [OF assms(1,2)]) (simp add: assms(3))

text \<open>A postcondition that is a fact about the value.\<close>

lemma sat_value:
  assumes "stable R P" and "sat I R G F P p (\<lambda>x _. B x)" and "\<And>x. B x \<Longrightarrow> sat I R G F P (f x) Q"
  shows "sat I R G F P (prog_bind p f) Q"
proof (rule sat_bind [OF assms(1,2)])
  fix x
  show "sat I R G F (\<lambda>s. P s \<and> B x) (f x) Q"
    using assms(3) [of x] by (cases "B x") (simp_all add: sat_def)
qed

lemma sat_return [rg_rules]:
  "stable R P \<Longrightarrow> (\<And>s. I s \<Longrightarrow> P s \<Longrightarrow> Q x s) \<Longrightarrow> sat I R G F P (prog_return x) Q"
  by (auto simp: sat_def prog_return_def dest: stableD)

lemma sat_fail [rg_rules]: "F e \<Longrightarrow> sat I R G F P (prog_fail e) Q"
  by (simp add: sat_def prog_fail_def)

lemma sat_atom:
  assumes "stable R P" and "\<And>x. stable R (Q x)"
    and "\<And>s r t. I s \<Longrightarrow> P s \<Longrightarrow> m s = (r, t) \<Longrightarrow> I t \<and> G l s t \<and> result F Q r t"
  shows "sat I R G F P (atom l m) Q"
  unfolding sat_def
proof (intro allI impI)
  fix s
  assume s: "I s" "P s"
  have "I u \<and> G l t u \<and> safe I R G (result F Q) p u"
    if step: "R s t" "I t" "(case m t of (r, t) \<Rightarrow> (Done r, t)) = (p, u)" for t p u
  proof -
    obtain r where m: "m t = (r, u)" and p: "p = Done r" using step(3) by (cases "m t") auto
    note * = assms(3) [OF step(2) stableD [OF assms(1) s(2) step(1)] m]
    then show ?thesis using p assms(2) by (cases r) (auto dest: stableD)
  qed
  then show "safe I R G (result F Q) (atom l m) s"
    unfolding atom_def by (intro safe_step)
qed

lemma safe_unlock_after: "safe I R G Q p s \<Longrightarrow> safe I R G Q (unlock_after p) s"
proof (induction p s rule: safe.induct)
  case (safe_step s g l)
  have "I u \<and> G l t u \<and> safe I R G Q p u"
    if step: "R s t" "I t" "(map_prod unlock_after id \<circ> g) t = (p, u)" for t p u
  proof -
    obtain q where "g t = (q, u)" "p = unlock_after q" using step(3) by (cases "g t") auto
    with safe_step(1) [OF step(1,2), of q u] show ?thesis by simp
  qed
  then show ?case by (simp only: unlock_after.simps) (intro safe.safe_step)
qed simp_all

lemma sat_with_lock [rg_rules]: "sat I R G F P p Q \<Longrightarrow> sat I R G F P (with_lock p) Q"
  by (simp add: sat_def with_lock_def safe_unlock_after)

text \<open>One step of a thread, and what it means for it and for the others.\<close>

lemma safe_prog_step:
  assumes "safe I R G Q p s" and "I s" and "prog_step k p holder s = Some (p', holder', s')"
  shows "I s'" and "R s s'" and "safe I R G Q p' s'" and "next_label p = Some l \<Longrightarrow> G l s s'"
    and "next_label p = None \<Longrightarrow> s' = s"
proof -
  have "I s' \<and> R s s' \<and> safe I R G Q p' s' \<and> (\<forall>l. next_label p = Some l \<longrightarrow> G l s s') \<and>
      (next_label p = None \<longrightarrow> s' = s)"
  proof (cases p)
    case (Step l g)
    then have g: "g s = (p', s')" using assms(3) by (auto split: prod.splits)
    from assms(1) Step show ?thesis
      using g assms(2) rely_refl guarantee_rely by (simp add: safe_step_iff) blast
  qed (use assms rely_refl in \<open>auto split: if_splits\<close>)
  then show "I s'" and "R s s'" and "safe I R G Q p' s'" and "next_label p = Some l \<Longrightarrow> G l s s'"
    and "next_label p = None \<Longrightarrow> s' = s" by simp_all
qed

text \<open>A program that runs to its end with nobody else in between.\<close>

lemma sat_run:
  assumes "sat I R G F P p Q" and "I s" and "P s" and "run p s = (r, t)"
  shows "I t" and "R s t" and "result F Q r t"
proof -
  have "I t \<and> R s t \<and> Q' r t" if "safe I R G Q' p s" "I s" "run p s = (r, t)" for Q'
    using that
  proof (induction p arbitrary: s rule: prog_induct)
    case (Step l g)
    obtain q u where g: "g s = (q, u)" by force
    then have u: "I u" "G l s u" "safe I R G Q' q u"
      using Step.prems rely_refl by (auto simp: safe_step_iff)
    moreover have "run q u = (r, t)" using Step.prems(3) g by (simp add: run_step)
    ultimately show ?case using Step.IH [OF g u(3,1)] guarantee_rely rely_trans by blast
  qed (simp_all add: rely_refl)
  then show "I t" and "R s t" and "result F Q r t" using assms unfolding sat_def by blast+
qed

end

end
