(* ===== verification/Write_Targets.thy ===== *)
theory Write_Targets
  imports Gateway
begin

text \<open>
  To whom the server writes: every task on the write queue is for the socket of a session that has
  been accepted, whatever the requests say, because an operation writes either to the session
  that sent the request or to one it has just locked.
\<close>

section \<open>The invariant of one operation\<close>

definition targets :: "session set \<Rightarrow> 'db world \<Rightarrow> bool" where
  "targets S w \<longleftrightarrow> w_sessions w = S \<and> (\<forall>q. w_queue w = Some q \<longrightarrow> (\<forall>t \<in> set q. fst t \<in> S))"

named_theorems targets_rules \<open>operations that write only to given sessions\<close>

lemma targets_frame [simp]:
  "targets S (w\<lparr>w_db := d\<rparr>) = targets S w"
  "targets S (w\<lparr>w_users := u\<rparr>) = targets S w"
  "targets S (w\<lparr>idChannels := m\<rparr>) = targets S w"
  "targets S (w\<lparr>w_heap := h\<rparr>) = targets S w"
  "targets S (w\<lparr>w_next := k\<rparr>) = targets S w"
  by (simp_all add: targets_def)

lemma targets_enqueue: "targets S w \<Longrightarrow> s \<in> S \<Longrightarrow> targets S (enqueue [(s, b)] w)"
  by (force simp: targets_def)

lemma targets_atoms [targets_rules]:
  "keeps (targets S) (on_db m)"
  "keeps (targets S) (on_users n)"
  "keeps (targets S) (register_channel i p)"
  "keeps (targets S) (make_shared_channel c)"
  "keeps (targets S) (idUsers_insert r i)"
  by (auto simp: keeps_def on_db_def on_users_def register_channel_def make_shared_channel_def
      idUsers_insert_def split: option.split prod.split)

lemma targets_write: "s \<in> S \<Longrightarrow> keeps (targets S) (ClientSession_write s b)"
  by (simp add: keeps_def targets_enqueue)

lemma targets_locked [targets_rules]:
  assumes "s \<in> S \<Longrightarrow> keeps (targets S) m" and "keeps (targets S) n"
  shows "keeps (targets S) (eff_bind (lock_session s) (\<lambda>alive. if alive then m else n))"
  unfolding keeps_def lock_session_def
proof (intro allI impI)
  fix w :: "'a world"
  assume w: "targets S w"
  then have "w_sessions w = S" by (simp add: targets_def)
  then show "targets S (snd (eff_bind (eff_gets (\<lambda>w. s \<in> w_sessions w)) (\<lambda>alive. if alive then m else n) w))"
    using keepsD [OF assms(1) w] keepsD [OF assms(2) w] by (cases "s \<in> S") simp_all
qed

lemma targets_alive [targets_rules]: "keeps (targets S) (write_if_alive s b)"
  unfolding write_if_alive_def by (rule targets_locked [OF targets_write]) (simp_all add: keeps_atoms)

section \<open>Every operation\<close>

lemma Channel_new_targets [targets_rules]: "keeps (targets S) (Channel_new D n i)"
  unfolding Channel_new_def by (intro targets_rules keeps_rules)

lemma new_registered_targets [targets_rules]: "keeps (targets S) (new_registered_channel D n i)"
  unfolding new_registered_channel_def by (intro targets_rules keeps_rules)

lemma createOrGet_targets [targets_rules]: "keeps (targets S) (createOrGetChannelByName D n)"
  unfolding createOrGetChannelByName_def by (intro targets_rules keeps_rules)

lemma directory_targets [targets_rules]:
  "keeps (targets S) (getUserNameChannels D i)"
  "keeps (targets S) (joinClientChannel D i n)"
  unfolding getUserNameChannels_def joinClientChannel_def by (intro targets_rules keeps_rules)+

lemma addUser_targets [targets_rules]: "keeps (targets S) (Channel_addUser E p i)"
  unfolding Channel_addUser_def by (intro targets_rules keeps_rules)

lemma sendHistory_targets [targets_rules]: "keeps (targets S) (Channel_sendHistory D E p i since)"
  unfolding Channel_sendHistory_def by (intro targets_rules targets_write keeps_rules)

lemma write_loop_targets [targets_rules]: "keeps (targets S) (write_loop is b)"
  by (induction "is" arbitrary: b) (simp_all only: write_loop.simps, (intro targets_rules keeps_rules; assumption?)+)

lemma Channel_write_targets [targets_rules]: "keeps (targets S) (Channel_write D E ord p m)"
  unfolding Channel_write_def by (intro targets_rules keeps_rules)

lemma accounts_targets [targets_rules]:
  "keeps (targets S) (UserManager_checkRegUser D st)"
  "keeps (targets S) (UserManager_checkAuthUser D st)"
  unfolding UserManager_checkRegUser_def UserManager_checkAuthUser_def
  by (intro targets_rules keeps_rules)+

lemma reg_targets [targets_rules]: "keeps (targets S) (QueryEngine_reg D E s c)"
  unfolding QueryEngine_reg_def by (intro targets_rules keeps_rules)

lemma auth_targets [targets_rules]: "keeps (targets S) (QueryEngine_auth D E s c)"
  unfolding QueryEngine_auth_def by (intro targets_rules keeps_rules)

lemma getHistory_targets [targets_rules]: "keeps (targets S) (QueryEngine_getHistory D E hr)"
  unfolding QueryEngine_getHistory_def Let_def by (intro targets_rules keeps_rules)

lemma getChannels_targets [targets_rules]: "keeps (targets S) (QueryEngine_getChannels D E cr)"
  unfolding QueryEngine_getChannels_def by (intro targets_rules targets_write keeps_rules)

lemma joinRoom_targets [targets_rules]: "keeps (targets S) (QueryEngine_joinRoom D E jr)"
  unfolding QueryEngine_joinRoom_def by (intro targets_rules keeps_rules)

lemma sendText_targets [targets_rules]: "keeps (targets S) (QueryEngine_sendText D E ord tr)"
  unfolding QueryEngine_sendText_def by (intro targets_rules keeps_rules)

lemma reply_targets: "s \<in> S \<Longrightarrow> keeps (targets S) (reply E s r)"
  unfolding reply_def by (intro targets_write keeps_rules)

lemma processRequest_targets: "s \<in> S \<Longrightarrow> keeps (targets S) (processRequest D E ord s h r)"
  unfolding processRequest_def
  by (cases "to_TypeCommand E (h_command h)")
    (simp_all only: type_command.case, (intro targets_rules reply_targets keeps_rules; assumption?)+)

section \<open>Every reachable state of the server\<close>

lemma generate_channels_targets [targets_rules]: "keeps (targets S) (generate_channels D channels is)"
  by (induction "is") (simp_all only: generate_channels.simps, (intro targets_rules keeps_rules; assumption?)+)

lemma createChannelFromDb_targets: "keeps (targets S) (createChannelFromDb D ord)"
  unfolding createChannelFromDb_def by (intro targets_rules keeps_rules)

definition accepted :: "'db gateway \<Rightarrow> session set" where
  "accepted g = set (sessions_ptrs (g_acceptor g))"

lemma targets_main:
  assumes "gateway_main D ord d = Serving g"
  shows "targets (accepted g) (g_world g)"
proof -
  obtain d1 w where w: "createChannelFromDb D ord (start_world d1) = (Inr (), w)" "g_world g = w"
    and "sessions_ptrs (g_acceptor g) = []"
    using assms by (rule gateway_main_serving)
  moreover have "targets {} (start_world d1)" by (simp add: targets_def start_world_def)
  ultimately show ?thesis
    using keeps_run [OF createChannelFromDb_targets _ w(1)] by (simp add: accepted_def)
qed

lemma targets_accept:
  assumes "targets (accepted g) (g_world g)" and "gateway_step D E (AcceptCompletes ec stream) g = Some g'"
  shows "targets (accepted g') (g_world g')"
  using assms by (fastforce simp: targets_def accepted_def doAccept_def Let_def split: if_splits)

lemma targets_run:
  assumes "targets (accepted g) (g_world g)" and "sources_inv E g"
    and "gateway_step D E (RunJob i ord) g = Some g'"
  shows "targets (accepted g') (g_world g')"
proof -
  obtain s h r where job: "g_jobs g ! i = (s, h, r)" by (cases "g_jobs g ! i")
  have i: "i < length (g_jobs g)" and g': "accepted g' = accepted g"
    "g_world g' = job_result D E ord (s, h, r) (g_world g)"
    using assms(3) job by (auto simp: Let_def accepted_def split: if_splits)
  have "(h, r) \<in> jobs_of s (g_jobs g @ g_processed g)"
    using nth_mem [OF i] job by (simp add: jobs_of_def)
  then have "s \<in> dom (g_conns g)" using assms(2) by (cases "g_conns g s") (auto simp: sources_inv_def)
  then have "s \<in> accepted g" using assms(2) by (simp add: sources_inv_def accepted_def)
  from keepsD [OF processRequest_targets [OF this] assms(1)] show ?thesis
    by (simp add: g' job_result_def)
qed

lemma targets_step:
  assumes "targets (accepted g) (g_world g)" and "sources_inv E g" and "gateway_step D E a g = Some g'"
  shows "targets (accepted g') (g_world g')"
proof (cases a)
  case (ReadCompletes s)
  then show ?thesis using assms by (auto simp: accepted_def Let_def split: option.splits)
next
  case TakeWrite
  then show ?thesis
    using assms by (fastforce simp: accepted_def targets_def split: option.splits list.splits)
qed (use assms targets_accept targets_run in blast)+

lemma gateway_reach_targets: "gateway_reach D E g \<Longrightarrow> targets (accepted g) (g_world g)"
  by (induction rule: gateway_reach.induct)
    (auto intro: targets_main targets_step gateway_reach_sources)

end
