(* ===== verification/Request_Safety.thy ===== *)
theory Request_Safety
  imports Request_Programs Rely_Guarantee Write_Targets
begin

text \<open>
  What a request does to the shared objects while other requests run: it keeps \<open>server_inv\<close>, it
  changes the state only as \<open>evolves\<close> says, and each of its steps writes only the memory its label
  declares (\<open>declared\<close>). The interpretation \<open>world_rg\<close> brings the rules of rely and guarantee.
\<close>

section \<open>How the shared state evolves\<close>

definition server_inv :: "'db world \<Rightarrow> bool" where
  "server_inv w \<longleftrightarrow> world_inv w \<and> targets (w_sessions w) w \<and> w_db w \<noteq> None \<and> w_users w \<noteq> None \<and>
     w_engine w"

text \<open>
  While \<open>main\<close> runs it holds the database, the managers and the engine, so locking their weak
  pointers succeeds. Channel objects keep their name and id and never lose a member, users and
  directory entries stay, sessions stay alive.
\<close>

definition grown :: "channel \<Rightarrow> channel \<Rightarrow> bool" where
  "grown c c' \<longleftrightarrow> ch_name c' = ch_name c \<and> ch_id c' = ch_id c \<and> idUsers c \<subseteq> idUsers c'"

definition evolves :: "'db world \<Rightarrow> 'db world \<Rightarrow> bool" where
  "evolves w w' \<longleftrightarrow>
     (\<forall>r c. w_heap w r = Some c \<longrightarrow> (\<exists>c'. w_heap w' r = Some c' \<and> grown c c')) \<and>
     (\<forall>um. w_users w = Some um \<longrightarrow>
        (\<exists>um'. w_users w' = Some um' \<and> dom (\<lambda>i. UserManager_getUser i um) \<subseteq> dom (\<lambda>i. UserManager_getUser i um'))) \<and>
     dom (idChannels w) \<subseteq> dom (idChannels w') \<and> w_sessions w \<subseteq> w_sessions w'"

text \<open>
  What a step may change: the guarantee every step of a request gives the others. \<open>l\<close> lists the accesses
  the step is labelled with in theory \<open>Request_Programs\<close>.
\<close>

definition declared :: "access list \<Rightarrow> 'db world \<Rightarrow> 'db world \<Rightarrow> bool" where
  "declared l w w' \<longleftrightarrow> evolves w w' \<and> w_sessions w' = w_sessions w \<and>
     (Writes Backend \<notin> set l \<longrightarrow> w_db w' = w_db w) \<and>
     (Writes IdClients \<notin> set l \<longrightarrow> w_users w' = w_users w) \<and>
     (Writes IdChannels \<notin> set l \<longrightarrow> idChannels w' = idChannels w) \<and>
     (\<forall>r c. Writes (IdUsers r) \<notin> set l \<longrightarrow> w_heap w r = Some c \<longrightarrow> w_heap w' r = Some c) \<and>
     (\<forall>i um u. Writes (UserSession i) \<notin> set l \<longrightarrow> w_users w = Some um \<longrightarrow> UserManager_getUser i um = Some u \<longrightarrow>
        (\<exists>um'. w_users w' = Some um' \<and> UserManager_getUser i um' = Some u))"

lemma grown_refl [simp]: "grown c c"
  by (simp add: grown_def)

lemma grown_trans: "grown c d \<Longrightarrow> grown d e \<Longrightarrow> grown c e"
  by (auto simp: grown_def)

lemma evolves_refl [simp]: "evolves w w"
  by (auto simp: evolves_def)

lemma evolves_object: "evolves w w' \<Longrightarrow> w_heap w r = Some c \<Longrightarrow> \<exists>c'. w_heap w' r = Some c' \<and> grown c c'"
  by (simp add: evolves_def)

lemma evolves_users: "evolves w w' \<Longrightarrow> w_users w = Some um \<Longrightarrow>
  \<exists>um'. w_users w' = Some um' \<and> dom (\<lambda>i. UserManager_getUser i um) \<subseteq> dom (\<lambda>i. UserManager_getUser i um')"
  by (simp add: evolves_def)

lemma evolves_trans:
  assumes "evolves u v" and "evolves v w"
  shows "evolves u w"
proof -
  have "\<exists>e. w_heap w r = Some e \<and> grown c e" if c: "w_heap u r = Some c" for r c
  proof -
    obtain d where "w_heap v r = Some d" "grown c d" using evolves_object [OF assms(1) c] by blast
    moreover obtain e where "w_heap w r = Some e" "grown d e"
      using evolves_object [OF assms(2) calculation(1)] by blast
    ultimately show ?thesis using grown_trans by blast
  qed
  moreover have "\<exists>n. w_users w = Some n \<and> dom (\<lambda>i. UserManager_getUser i um) \<subseteq> dom (\<lambda>i. UserManager_getUser i n)"
    if um: "w_users u = Some um" for um
  proof -
    obtain m where "w_users v = Some m" "dom (\<lambda>i. UserManager_getUser i um) \<subseteq> dom (\<lambda>i. UserManager_getUser i m)"
      using evolves_users [OF assms(1) um] by blast
    moreover obtain n where "w_users w = Some n" "dom (\<lambda>i. UserManager_getUser i m) \<subseteq> dom (\<lambda>i. UserManager_getUser i n)"
      using evolves_users [OF assms(2) calculation(1)] by blast
    ultimately show ?thesis by (meson subset_trans)
  qed
  moreover have "dom (idChannels u) \<subseteq> dom (idChannels w)" "w_sessions u \<subseteq> w_sessions w"
    using assms unfolding evolves_def by blast+
  ultimately show ?thesis by (simp add: evolves_def)
qed

lemma declared_refl [simp]: "declared l w w"
  by (simp add: declared_def)

lemma declared_evolves: "declared l w w' \<Longrightarrow> evolves w w'"
  by (simp add: declared_def)

interpretation world_rg: rely_guarantee server_inv evolves declared
  by unfold_locales (auto intro: evolves_trans declared_evolves)

section \<open>Failures a request may end with\<close>

text \<open>A failure of one of the backend's own functions.\<close>

definition fails_with :: "failure \<Rightarrow> ('db, 'a) eff \<Rightarrow> bool" where
  "fails_with e m \<longleftrightarrow> (\<exists>d d'. m d = (Inl e, d'))"

text \<open>
  The failures the functions of a backend can end with, in any state of it. It bounds from above what a
  request can end with: \<open>WrapperPg\<close> fails by a pointer that is not set before it has connected, and by
  a null pointer when a row lacks a column.
\<close>

definition backend_failure :: "'db idatabase \<Rightarrow> failure \<Rightarrow> bool" where
  "backend_failure D e \<longleftrightarrow>
     (\<exists>x. fails_with e (db_checkRegUser D x)) \<or> (\<exists>x. fails_with e (db_checkAuthUser D x)) \<or>
     (\<exists>i. fails_with e (db_getUserNameChannels D i)) \<or> (\<exists>i. fails_with e (db_getChannelUsers D i)) \<or>
     (\<exists>n. fails_with e (db_hasChannel D n)) \<or> (\<exists>n. fails_with e (db_createChannel D n)) \<or>
     (\<exists>i n. fails_with e (db_joinClientChannel D i n)) \<or> (\<exists>i m. fails_with e (db_addMsgHistory D i m)) \<or>
     (\<exists>i. fails_with e (db_getHistory D i)) \<or> (\<exists>n. fails_with e (db_getChannelId D n))"

text \<open>An exception, or what the backend fails with; never a null pointer of the server's own.\<close>

definition expected :: "'db idatabase \<Rightarrow> failure \<Rightarrow> bool" where
  "expected D e \<longleftrightarrow> (\<exists>x. e = Thrown x) \<or> backend_failure D e"

lemma expected_thrown [simp]: "expected D (Thrown x)"
  by (simp add: expected_def)

abbreviation request_sat ::
  "'db idatabase \<Rightarrow> ('db world \<Rightarrow> bool) \<Rightarrow> ('db, 'a) request_prog \<Rightarrow> ('a \<Rightarrow> 'db world \<Rightarrow> bool) \<Rightarrow> bool" where
  "request_sat D \<equiv> sat server_inv evolves declared (expected D)"

section \<open>Assertions that stay\<close>

definition has_session :: "session \<Rightarrow> 'db world \<Rightarrow> bool" where
  "has_session s w \<longleftrightarrow> s \<in> w_sessions w"

definition known_user :: "type_id_user \<Rightarrow> 'db world \<Rightarrow> bool" where
  "known_user i w \<longleftrightarrow> (\<exists>um u. w_users w = Some um \<and> UserManager_getUser i um = Some u)"

text \<open>A pointer to an object, and one to an object with the id it is to be filed under.\<close>

definition points :: "channel_ptr \<Rightarrow> 'db world \<Rightarrow> bool" where
  "points p w \<longleftrightarrow> (\<exists>r c. p = Some r \<and> w_heap w r = Some c)"

definition object_of :: "type_id_user \<Rightarrow> channel_ptr \<Rightarrow> 'db world \<Rightarrow> bool" where
  "object_of i p w \<longleftrightarrow> (\<exists>r c. p = Some r \<and> w_heap w r = Some c \<and> ch_id c = i)"

lemma object_points: "object_of i p w \<Longrightarrow> points p w"
  by (auto simp: object_of_def points_def)

lemma stable_assertions [stable_rules]:
  "stable evolves (has_session s :: 'db world \<Rightarrow> bool)"
  "stable evolves (known_user i :: 'db world \<Rightarrow> bool)"
  "stable evolves (points p :: 'db world \<Rightarrow> bool)"
  "stable evolves (object_of i p :: 'db world \<Rightarrow> bool)"
proof -
  show "stable evolves (has_session s :: 'db world \<Rightarrow> bool)"
    by (auto simp: stable_def evolves_def has_session_def)
  have "known_user i w'" if w: "known_user i w" "evolves w w'" for w w' :: "'db world"
  proof -
    obtain um where um: "w_users w = Some um" "i \<in> dom (\<lambda>i. UserManager_getUser i um)"
      using w(1) by (auto simp: known_user_def)
    then show ?thesis using evolves_users [OF w(2) um(1)] by (auto simp: known_user_def)
  qed
  then show "stable evolves (known_user i :: 'db world \<Rightarrow> bool)" by (simp add: stable_def)
  have "points p w'" if w: "points p w" "evolves w w'" for w w' :: "'db world"
    using w evolves_object [OF w(2)] by (fastforce simp: points_def)
  then show "stable evolves (points p :: 'db world \<Rightarrow> bool)" by (simp add: stable_def)
  have "object_of i p w'" if w: "object_of i p w" "evolves w w'" for w w' :: "'db world"
    using w evolves_object [OF w(2)] by (fastforce simp: object_of_def grown_def)
  then show "stable evolves (object_of i p :: 'db world \<Rightarrow> bool)" by (simp add: stable_def)
qed

section \<open>The steps\<close>

lemmas rg_compose = world_rg.sat_then world_rg.sat_return world_rg.sat_fail world_rg.sat_with_lock
  sat_splits

text \<open>A step that only looks.\<close>

lemma look_sat:
  assumes "stable evolves P" and "\<And>x. stable evolves (Q x)" and "\<And>s. snd (m s) = s"
    and "\<And>s r. server_inv s \<Longrightarrow> P s \<Longrightarrow> fst (m s) = r \<Longrightarrow> result (expected D) Q r s"
  shows "request_sat D P (atom l m) Q"
proof (rule world_rg.sat_atom [OF assms(1,2)])
  fix s r t
  assume s: "server_inv s" "P s" "m s = (r, t)"
  then have "t = s" using assms(3) [of s] by simp
  then show "server_inv t \<and> declared l s t \<and> result (expected D) Q r t"
    using assms(4) [OF s(1,2), of r] s by simp
qed

lemma db_frame [simp]:
  "server_inv w \<Longrightarrow> server_inv (w\<lparr>w_db := Some d\<rparr>)" "Writes Backend \<in> set l \<Longrightarrow> declared l w (w\<lparr>w_db := Some d\<rparr>)"
  by (auto simp: server_inv_def declared_def evolves_def)

lemma ask_db_sat:
  assumes "stable evolves P" and "\<And>e. fails_with e m \<Longrightarrow> expected D e"
  shows "request_sat D P (ask_db m) (\<lambda>_ _. True)"
  unfolding ask_db_def
proof (rule world_rg.sat_atom [OF assms(1)])
  fix s :: "'a world" and r t
  assume s: "server_inv s" "on_db m s = (r, t)"
  then obtain d where d: "w_db s = Some d" by (auto simp: server_inv_def)
  then have t: "t = s\<lparr>w_db := Some (snd (m d))\<rparr>" "r = fst (m d)" using s(2) by simp_all
  have "result (expected D) (\<lambda>_ _. True) r t"
    using assms(2) by (cases "m d"; cases r) (auto simp: t fails_with_def)
  then show "server_inv t \<and> declared [Writes Backend] s t \<and> result (expected D) (\<lambda>_ _. True) r t"
    using s(1) by (simp add: t(1))
qed (simp add: stable_logic)

lemma backend_expected:
  "fails_with e (db_checkRegUser D x) \<Longrightarrow> expected D e" "fails_with e (db_checkAuthUser D x) \<Longrightarrow> expected D e"
  "fails_with e (db_getUserNameChannels D i) \<Longrightarrow> expected D e" "fails_with e (db_getChannelUsers D i) \<Longrightarrow> expected D e"
  "fails_with e (db_hasChannel D n) \<Longrightarrow> expected D e" "fails_with e (db_createChannel D n) \<Longrightarrow> expected D e"
  "fails_with e (db_joinClientChannel D i n) \<Longrightarrow> expected D e" "fails_with e (db_addMsgHistory D i m) \<Longrightarrow> expected D e"
  "fails_with e (db_getHistory D i) \<Longrightarrow> expected D e" "fails_with e (db_getChannelId D n) \<Longrightarrow> expected D e"
  unfolding expected_def backend_failure_def by blast+

lemma session_of_user_cases:
  "known_user i w \<Longrightarrow> \<exists>s. session_of_user i w = (Inr s, w)" "snd (session_of_user i w) = w"
proof -
  show "known_user i w \<Longrightarrow> \<exists>s. session_of_user i w = (Inr s, w)"
    by (auto simp: known_user_def session_of_user_def)
  show "snd (session_of_user i w) = w"
  proof (cases "w_users w")
    case (Some um)
    then show ?thesis by (cases "UserManager_getUser i um") (simp_all add: session_of_user_def)
  qed (simp add: session_of_user_def)
qed

lemma looks_sat:
  assumes "stable evolves P"
  shows "request_sat D P lock_db (\<lambda>db _. db \<noteq> None)" "request_sat D P lock_users (\<lambda>_ _. True)"
    "request_sat D P (getUser_prog i) (\<lambda>user w. user \<noteq> None \<longrightarrow> known_user i w)"
    "(\<And>w. P w \<Longrightarrow> known_user i w) \<Longrightarrow> request_sat D P (getSession_prog i) (\<lambda>_ _. True)"
    "(\<And>w. P w \<Longrightarrow> points p w) \<Longrightarrow> request_sat D P (deref_prog p) (\<lambda>_ _. True)"
    "request_sat D P (members_prog r) (\<lambda>_ _. True)"
    "request_sat D P (find_prog i) (\<lambda>found w. found \<noteq> None \<longrightarrow> points (the found) w)"
    "request_sat D P (lock_session_prog s) (\<lambda>alive w. alive \<longrightarrow> has_session s w)"
    "request_sat D P (atom [] (eff_gets w_engine)) (\<lambda>_ _. True)"
    "request_sat D P (atom [] (boost_format E fm n)) (\<lambda>_ _. True)"
proof -
  note looks = look_sat [OF assms]
  show "request_sat D P lock_db (\<lambda>db _. db \<noteq> None)" "request_sat D P lock_users (\<lambda>_ _. True)"
    "request_sat D P (members_prog r) (\<lambda>_ _. True)"
    "request_sat D P (atom [] (eff_gets w_engine)) (\<lambda>_ _. True)"
    unfolding small_progs by (rule looks; auto simp: stable_logic server_inv_def)+
  show "request_sat D P (getUser_prog i) (\<lambda>user w. user \<noteq> None \<longrightarrow> known_user i w)"
    unfolding small_progs
    by (rule looks) (intro stable_rules, auto simp: server_inv_def known_user_def)
  show "request_sat D P (getSession_prog i) (\<lambda>_ _. True)" if "\<And>w. P w \<Longrightarrow> known_user i w"
    unfolding small_progs
    by (rule looks) (use that session_of_user_cases in \<open>fastforce simp: stable_logic\<close>)+
  show "request_sat D P (deref_prog p) (\<lambda>_ _. True)" if "\<And>w. P w \<Longrightarrow> points p w"
    unfolding small_progs
    by (rule looks) (use that in \<open>fastforce simp: stable_logic points_def\<close>)+
  show "request_sat D P (find_prog i) (\<lambda>found w. found \<noteq> None \<longrightarrow> points (the found) w)"
    unfolding small_progs
    by (rule looks) (fastforce intro: stable_rules simp: server_inv_def world_inv_def directory_ok_def points_def)+
  show "request_sat D P (lock_session_prog s) (\<lambda>alive w. alive \<longrightarrow> has_session s w)"
    unfolding small_progs
    by (rule looks) (intro stable_rules, auto simp: lock_session_def has_session_def)
  show "request_sat D P (atom [] (boost_format E fm n)) (\<lambda>_ _. True)"
    by (rule looks) (auto simp: stable_logic boost_format_def split: option.split)
qed

lemma write_sat:
  assumes "stable evolves P" and "\<And>w. P w \<Longrightarrow> has_session s w"
  shows "request_sat D P (write_prog s b) (\<lambda>_ _. True)"
  unfolding write_prog_def
proof (rule world_rg.sat_atom [OF assms(1)])
  fix w :: "'a world" and r t
  assume w: "server_inv w" "P w" "ClientSession_write s b w = (r, t)"
  then have t: "t = enqueue [(s, b)] w" "r = Inr (if w_queue w = None then b else [])" by simp_all
  have "targets (w_sessions w) t"
    using w(1) assms(2) [OF w(2)] by (simp add: t server_inv_def has_session_def targets_enqueue)
  then show "server_inv t \<and> declared [] w t \<and> result (expected D) (\<lambda>_ _. True) r t"
    using w(1) by (simp add: t server_inv_def declared_def evolves_def)
qed (simp add: stable_logic)

lemma push_sat:
  assumes "stable evolves P" and "us_id st \<noteq> 0"
  shows "request_sat D P (push_prog st) (\<lambda>_ _. True)"
  unfolding push_prog_def
proof (rule world_rg.sat_atom [OF assms(1)])
  let ?l = "[Reads IdClients, Writes IdClients, Writes (UserSession (us_id st))]"
  let ?m = "on_users (UserManager_push (UserManager_create st))"
  fix w :: "'a world" and r t
  assume w: "server_inv w" "?m w = (r, t)"
  obtain u where u: "UserManager_create st = Some u" "u_id u = us_id st"
    by (simp add: UserManager_create_def User_new_def)
  obtain um where Some: "w_users w = Some um" using w(1) by (auto simp: server_inv_def)
  have um: "users_inv um" using w(1) Some by (auto simp: server_inv_def dest: world_inv_users)
  obtain um' where push: "UserManager_push (Some u) um = (Inr (), um')" and inv: "users_inv um'"
    using push_users_inv [OF um, of u] u(2) assms(2) by auto
  have t: "t = w\<lparr>w_users := Some um'\<rparr>" "r = Inr ()" using w(2) Some push u(1) by simp_all
  have other: "UserManager_getUser j um' = UserManager_getUser j um" if "j \<noteq> us_id st" for j
    using push_frame [OF um push] that u(2) by (simp add: UserManager_getUser_def)
  moreover have "UserManager_getUser (us_id st) um' \<noteq> None"
    using push_getUser [OF um push] u(2) by auto
  ultimately have "dom (\<lambda>i. UserManager_getUser i um) \<subseteq> dom (\<lambda>i. UserManager_getUser i um')"
    by (smt (verit) domI domIff subsetI)
  then have "declared ?l w t" using Some other by (auto simp: t declared_def evolves_def)
  then show "server_inv t \<and> declared ?l w t \<and> result (expected D) (\<lambda>_ _. True) r t"
    using w(1) inv by (simp add: t server_inv_def world_inv_set_users)
qed (simp add: stable_logic)

lemma insert_sat:
  assumes "stable evolves P"
  shows "request_sat D P (insert_prog r i) (\<lambda>_ _. True)"
  unfolding insert_prog_def
proof (rule world_rg.sat_atom [OF assms(1)])
  fix w :: "'a world" and x t
  assume w: "server_inv w" "idUsers_insert r i w = (x, t)"
  have "world_inv t"
    using keeps_run [OF idUsers_insert_keeps _ w(2)] w(1) by (simp add: server_inv_def)
  moreover have "targets (w_sessions w) t \<and> w_sessions t = w_sessions w"
    using keeps_run [OF targets_atoms(5) _ w(2)] w(1) by (simp add: server_inv_def targets_def)
  moreover have "declared [Writes (IdUsers r)] w t \<and> x = Inr () \<and> w_db t = w_db w \<and> w_users t = w_users w \<and>
      w_engine t = w_engine w"
    using w(2) by (cases "w_heap w r")
      (auto simp: idUsers_insert_def declared_def evolves_def grown_def)
  ultimately show "server_inv t \<and> declared [Writes (IdUsers r)] w t \<and> result (expected D) (\<lambda>_ _. True) x t"
    using w(1) by (simp add: server_inv_def)
qed (simp add: stable_logic)

lemma make_shared_sat:
  assumes "stable evolves P" and "channel_ok c"
  shows "request_sat D P (atom [] (make_shared_channel c)) (object_of (ch_id c))"
proof (rule world_rg.sat_atom [OF assms(1)])
  fix w :: "'a world" and x t
  assume w: "server_inv w" "make_shared_channel c w = (x, t)"
  have free: "w_heap w (w_next w) = None"
    using w(1) by (cases "w_heap w (w_next w)") (auto simp: server_inv_def world_inv_def heap_ok_def)
  have t: "t = w\<lparr>w_heap := (w_heap w)(w_next w \<mapsto> c), w_next := Suc (w_next w)\<rparr>" "x = Inr (Some (w_next w))"
    using w(2) by (simp_all add: make_shared_channel_def)
  have "declared [] w t" using free by (auto simp: t declared_def evolves_def)
  moreover have "server_inv t"
    using w(1) assms(2) by (simp add: t server_inv_def world_inv_alloc)
  ultimately show "server_inv t \<and> declared [] w t \<and> result (expected D) (object_of (ch_id c)) x t"
    by (simp add: t object_of_def)
qed (rule stable_assertions)

lemma register_sat:
  assumes "stable evolves P" and "\<And>w. P w \<Longrightarrow> object_of i p w"
  shows "request_sat D P (register_prog i p) (\<lambda>_ _. True)"
  unfolding register_prog_def
proof (rule world_rg.sat_atom [OF assms(1)])
  fix w :: "'a world" and x t
  assume w: "server_inv w" "P w" "register_channel i p w = (x, t)"
  obtain r c where p: "p = Some r" "w_heap w r = Some c" "ch_id c = i"
    using assms(2) [OF w(2)] by (auto simp: object_of_def)
  have t: "t = w\<lparr>idChannels := (idChannels w)(i \<mapsto> p)\<rparr>" "x = Inr ()"
    using w(3) by (simp_all add: register_channel_def)
  then show "server_inv t \<and> declared [Writes IdChannels] w t \<and> result (expected D) (\<lambda>_ _. True) x t"
    using w(1) p world_inv_register [OF _ p(2,3)]
    by (auto simp: server_inv_def declared_def evolves_def)
qed (simp add: stable_logic)

text \<open>What the code after a look, a lock or a construction may rely on.\<close>

lemma after_lock_db:
  assumes "stable evolves P" and "\<And>d. request_sat D P (f d) Q"
  shows "request_sat D P (prog_bind lock_db (\<lambda>db. case db of None \<Rightarrow> p | Some d \<Rightarrow> f d)) Q"
  by (rule world_rg.sat_value [OF assms(1) looks_sat(1) [OF assms(1)]]) (use assms(2) in auto)

lemma after_getUser:
  assumes "stable evolves P" and "request_sat D P p Q" and "\<And>u. request_sat D (\<lambda>w. P w \<and> known_user i w) (f u) Q"
  shows "request_sat D P (prog_bind (getUser_prog i) (\<lambda>user. case user of None \<Rightarrow> p | Some u \<Rightarrow> f u)) Q"
proof (rule world_rg.sat_bind [OF assms(1) looks_sat(3) [OF assms(1)]])
  fix user
  show "request_sat D (\<lambda>w. P w \<and> (user \<noteq> None \<longrightarrow> known_user i w))
      (case user of None \<Rightarrow> p | Some u \<Rightarrow> f u) Q"
    using assms(2,3) by (cases user) simp_all
qed

lemma after_lock_session:
  assumes "stable evolves P" and "request_sat D (\<lambda>w. P w \<and> has_session s w) p Q" and "request_sat D P q Q"
  shows "request_sat D P (prog_bind (lock_session_prog s) (\<lambda>alive. if alive then p else q)) Q"
proof (rule world_rg.sat_bind [OF assms(1) looks_sat(8) [OF assms(1)]])
  fix alive
  show "request_sat D (\<lambda>w. P w \<and> (alive \<longrightarrow> has_session s w)) (if alive then p else q) Q"
    using assms(2,3) by (cases alive) simp_all
qed

lemma Channel_new_sat:
  assumes "stable evolves P"
  shows "request_sat D P (Channel_new_prog D name i) (\<lambda>c _. channel_ok c \<and> ch_id c = i)"
  unfolding Channel_new_prog_def
  by (intro after_lock_db rg_compose ask_db_sat assms) (simp_all add: channel_ok_def backend_expected)

lemma construct_sat:
  assumes "stable evolves P"
  shows "request_sat D P (construct_prog D name i) (object_of i)"
  unfolding construct_prog_def
proof (rule world_rg.sat_value [OF assms Channel_new_sat [OF assms]])
  fix c
  assume "channel_ok c \<and> ch_id c = i"
  then show "request_sat D P (atom [] (make_shared_channel c)) (object_of i)"
    using make_shared_sat [OF assms, of c] by auto
qed

lemma after_construct:
  assumes "stable evolves P" and "\<And>p. request_sat D (\<lambda>w. P w \<and> object_of i p w) (f p) Q"
  shows "request_sat D P (prog_bind (construct_prog D name i) f) Q"
  by (rule world_rg.sat_bind [OF assms(1) construct_sat [OF assms(1)] assms(2)])

lemma after_find:
  assumes "stable evolves P" and "request_sat D P p Q" and "\<And>q. request_sat D (\<lambda>w. P w \<and> points q w) (f q) Q"
  shows "request_sat D P (prog_bind (find_prog i) (\<lambda>found. case found of None \<Rightarrow> p | Some q \<Rightarrow> f q)) Q"
proof (rule world_rg.sat_bind [OF assms(1) looks_sat(7) [OF assms(1)]])
  fix found
  show "request_sat D (\<lambda>w. P w \<and> (found \<noteq> None \<longrightarrow> points (the found) w))
      (case found of None \<Rightarrow> p | Some q \<Rightarrow> f q) Q"
    using assms(2,3) by (cases found) simp_all
qed

lemma lock_db_sat: "stable evolves P \<Longrightarrow> request_sat D P lock_db (\<lambda>_ _. True)"
  unfolding small_progs by (rule look_sat) (auto simp: stable_logic)

section \<open>The requests\<close>

lemmas rg_intros = after_lock_db after_getUser after_lock_session after_construct after_find rg_compose
  ask_db_sat looks_sat lock_db_sat insert_sat stable_logic(1,2) stable_assertions

named_theorems sat_calls \<open>calls that need nothing of the state\<close>

lemma write_if_alive_sat [sat_calls]:
  assumes "stable evolves P"
  shows "request_sat D P (write_if_alive_prog s b) (\<lambda>_ _. True)"
  unfolding write_if_alive_prog_def
  by (intro rg_intros write_sat assms) simp_all

lemma accounts_sat [sat_calls]:
  assumes "stable evolves P"
  shows "request_sat D P (checkRegUser_prog D st) (\<lambda>_ _. True)"
    "request_sat D P (checkAuthUser_prog D st) (\<lambda>_ _. True)"
    "request_sat D P (getUserNameChannels_prog D i) (\<lambda>_ _. True)"
    "request_sat D P (joinClientChannel_prog D i name) (\<lambda>_ _. True)"
  unfolding checkRegUser_prog_def checkAuthUser_prog_def getUserNameChannels_prog_def
    joinClientChannel_prog_def
  by (intro rg_intros assms; (erule backend_expected)?; simp)+

lemma createOrGet_sat:
  assumes "stable evolves P"
  shows "request_sat D P (createOrGet_prog D name) points"
  unfolding createOrGet_prog_def
  by (intro rg_intros register_sat assms; (erule backend_expected)?; auto intro: object_points)

lemma after_createOrGet:
  assumes "stable evolves P" and "\<And>p. request_sat D (\<lambda>w. P w \<and> points p w) (f p) Q"
  shows "request_sat D P (prog_bind (createOrGet_prog D name) f) Q"
  by (rule world_rg.sat_bind [OF assms(1) createOrGet_sat [OF assms(1)] assms(2)])

lemma write_loop_sat [sat_calls]:
  assumes "stable evolves P"
  shows "request_sat D P (write_loop_prog r is b) (\<lambda>_ _. True)"
  using assms
proof (induction "is" arbitrary: b P)
  case Nil
  then show ?case unfolding write_loop_prog.simps by (intro rg_intros; simp)
next
  case (Cons i "is")
  show ?case unfolding write_loop_prog.simps
    by (intro rg_intros write_if_alive_sat Cons.IH Cons.prems) simp_all
qed

lemma channel_sat:
  assumes "stable evolves P" and "\<And>w. P w \<Longrightarrow> points p w"
  shows "request_sat D P (Channel_addUser_prog E p i) (\<lambda>_ _. True)"
    "request_sat D P (Channel_sendHistory_prog D E p i since) (\<lambda>_ _. True)"
    "request_sat D P (Channel_write_prog D E ord p m) (\<lambda>_ _. True)"
  unfolding Channel_addUser_prog_def Channel_sendHistory_prog_def Channel_write_prog_def
  by (intro rg_intros sat_calls write_sat assms(1); (erule backend_expected)?; simp add: assms(2))+

lemma engine_sat [sat_calls]:
  assumes "stable evolves P"
  shows "request_sat D P (reg_prog D E s c) (\<lambda>_ _. True)"
    "request_sat D P (auth_prog D E s c) (\<lambda>_ _. True)"
    "request_sat D P (getHistory_prog D E hr) (\<lambda>_ _. True)"
    "request_sat D P (getChannels_prog D E cr) (\<lambda>_ _. True)"
    "request_sat D P (joinRoom_prog D E jr) (\<lambda>_ _. True)"
    "request_sat D P (sendText_prog D E ord tr) (\<lambda>_ _. True)"
  unfolding reg_prog_def auth_prog_def getHistory_prog_def getChannels_prog_def joinRoom_prog_def
    sendText_prog_def Let_def
  by (intro after_createOrGet rg_intros sat_calls channel_sat write_sat push_sat assms;
      simp add: settings_of_def)+

lemma session_sat:
  assumes "stable evolves P"
  shows "request_sat D P p (\<lambda>_ _. True) \<Longrightarrow> request_sat D P (with_engine_prog p) (\<lambda>_ _. True)"
    "(\<And>w. P w \<Longrightarrow> has_session s w) \<Longrightarrow> request_sat D P (reply_prog E s m) (\<lambda>_ _. True)"
  unfolding with_engine_prog_def reply_prog_def
  by (intro rg_intros write_sat assms; assumption?; simp)+

text \<open>A request of a live session, whatever it says.\<close>

lemma processRequest_sat: "request_sat D (has_session s) (processRequest_prog D E ord s h r) (\<lambda>_ _. True)"
  unfolding processRequest_prog_def
  by (cases "to_TypeCommand E (h_command h)")
    (simp_all only: type_command.case,
      (intro sat_splits session_sat sat_calls stable_assertions world_rg.sat_return; simp)+)

lemma processRequest_safe:
  assumes "server_inv w" and "s \<in> w_sessions w"
  shows "safe server_inv evolves declared (result (expected D) (\<lambda>_ _. True)) (processRequest_prog D E ord s h r) w"
  using processRequest_sat [of D s E ord h r] assms unfolding sat_def has_session_def by blast

end
