(* ===== verification/Workers_Pool.thy ===== *)
theory Workers_Pool
  imports Prelude
begin

text \<open>
  \<open>context/WorkersPool.h\<close>, \<open>WorkersPool.cpp\<close>, \<open>context/AsyncContext.h\<close>,
  \<open>AsyncContext.cpp\<close>: the threads that run posted requests. The \<open>io_context\<close> is Boost's; of it
  the model uses that \<open>post\<close> queues a handler, that a thread in \<open>run\<close> takes the next handler and
  runs it, that an exception thrown by a handler leaves \<open>run\<close> and \<open>run\<close> may be called again, and
  that \<open>stop\<close> makes \<open>run\<close> return without taking more handlers.
\<close>

section \<open>State\<close>

datatype 'a runner =
    InRun
  | Executing 'a
  | Exited

record 'a workers =
  counter_tasks :: u64 \<comment> \<open>\<open>CounterTasks::counter_\<close>\<close>
  handlers :: "'a list"
  has_work :: bool \<comment> \<open>\<open>work_\<close>\<close>
  io_stopped :: bool
  pool_threads :: "'a runner list"
  completed :: "'a list" \<comment> \<open>history: tasks that returned\<close>
  failed :: "'a list" \<comment> \<open>history: tasks that threw\<close>

definition WorkersPool_new :: "nat \<Rightarrow> 'a workers" where
  "WorkersPool_new countThread = \<lparr>counter_tasks = 0, handlers = [], has_work = True, io_stopped = False,
     pool_threads = replicate countThread InRun, completed = [], failed = []\<rparr>"

definition AsyncContext_new :: "'a workers" where
  "AsyncContext_new = WorkersPool_new 4"

definition startTask :: "'a workers \<Rightarrow> 'a workers" where
  "startTask p = p\<lparr>counter_tasks := counter_tasks p + 1\<rparr>"

definition endTask :: "'a workers \<Rightarrow> 'a workers" where
  "endTask p = p\<lparr>counter_tasks := counter_tasks p - 1\<rparr>"

definition WorkersPool_post :: "'a \<Rightarrow> 'a workers \<Rightarrow> 'a workers" where
  "WorkersPool_post task p = (startTask p)\<lparr>handlers := handlers p @ [task]\<rparr>"

text \<open>
  \<open>runAsync\<close> through a weak pointer: nothing happens when the context is gone. The unique pointer
  \<open>workers_\<close> is the second option.
\<close>

definition runAsync :: "'a \<Rightarrow> 'a workers option option \<Rightarrow> 'a workers option option" where
  "runAsync task ctx =
     (case ctx of
        None \<Rightarrow> None
      | Some None \<Rightarrow> Some None
      | Some (Some p) \<Rightarrow> Some (Some (WorkersPool_post task p)))"

section \<open>Steps\<close>

datatype 'a pool_action =
    PostTask 'a
  | TakeHandler nat
  | TaskReturns nat
  | TaskThrows nat
  | StopPool
  | LeaveRun nat

definition set_runner :: "nat \<Rightarrow> 'a runner \<Rightarrow> 'a workers \<Rightarrow> 'a workers" where
  "set_runner i r p = p\<lparr>pool_threads := (pool_threads p)[i := r]\<rparr>"

definition runner_at :: "'a workers \<Rightarrow> nat \<Rightarrow> 'a runner option" where
  "runner_at p i = (if i < length (pool_threads p) then Some (pool_threads p ! i) else None)"

text \<open>
  The posted lambda is \<open>Func(); counter_.endTask();\<close>. When \<open>Func\<close> throws, \<open>endTask\<close> is not
  reached; \<open>runThread\<close> catches the exception and calls \<open>run\<close> again.
\<close>

fun workers_step :: "'a pool_action \<Rightarrow> 'a workers \<Rightarrow> 'a workers option" where
  "workers_step (PostTask x) p = Some (WorkersPool_post x p)"
| "workers_step (TakeHandler i) p =
     (case (runner_at p i, handlers p) of
        (Some InRun, x # xs) \<Rightarrow>
          if io_stopped p then None else Some (set_runner i (Executing x) (p\<lparr>handlers := xs\<rparr>))
      | _ \<Rightarrow> None)"
| "workers_step (TaskReturns i) p =
     (case runner_at p i of
        Some (Executing x) \<Rightarrow>
          Some (set_runner i InRun ((endTask p)\<lparr>completed := completed p @ [x]\<rparr>))
      | _ \<Rightarrow> None)"
| "workers_step (TaskThrows i) p =
     (case runner_at p i of
        Some (Executing x) \<Rightarrow> Some (set_runner i InRun (p\<lparr>failed := failed p @ [x]\<rparr>))
      | _ \<Rightarrow> None)"
| "workers_step StopPool p = Some (p\<lparr>has_work := False, io_stopped := True\<rparr>)"
| "workers_step (LeaveRun i) p =
     (case runner_at p i of
        Some InRun \<Rightarrow> if io_stopped p then Some (set_runner i Exited p) else None
      | _ \<Rightarrow> None)"

inductive workers_reach :: "nat \<Rightarrow> 'a workers \<Rightarrow> bool" for n :: nat where
  workers_start: "workers_reach n (WorkersPool_new n)"
| workers_next: "workers_reach n p \<Longrightarrow> workers_step a p = Some p' \<Longrightarrow> workers_reach n p'"

section \<open>The task counter\<close>

fun executing :: "'a runner \<Rightarrow> nat" where
  "executing (Executing x) = 1"
| "executing _ = 0"

definition n_executing :: "'a workers \<Rightarrow> nat" where
  "n_executing p = sum_list (map executing (pool_threads p))"

definition counter_inv :: "'a workers \<Rightarrow> bool" where
  "counter_inv p \<longleftrightarrow>
     counter_tasks p = of_nat (length (handlers p) + n_executing p + length (failed p))"

lemma n_executing_set:
  assumes "i < length (pool_threads p)" and "pool_threads q = pool_threads p"
  shows "n_executing (set_runner i r q) + executing (pool_threads p ! i) = n_executing p + executing r"
proof -
  have "sum_list (map executing (ts[i := r])) + executing (ts ! i) =
      sum_list (map executing ts) + executing r" if "i < length ts" for ts :: "'a runner list"
    using that by (induction ts arbitrary: i) (auto simp: nth_Cons split: nat.splits)
  with assms show ?thesis by (simp add: n_executing_def set_runner_def)
qed

lemma runner_atD: "runner_at p i = Some r \<Longrightarrow> i < length (pool_threads p) \<and> pool_threads p ! i = r"
  by (simp add: runner_at_def split: if_splits)

lemma set_runner_fields [simp]:
  "counter_tasks (set_runner i r p) = counter_tasks p" "handlers (set_runner i r p) = handlers p"
  "failed (set_runner i r p) = failed p" "completed (set_runner i r p) = completed p"
  by (simp_all add: set_runner_def)

lemma workers_step_inv:
  assumes "counter_inv p" and "workers_step a p = Some p'"
  shows "counter_inv p'"
proof (cases a)
  case (PostTask x)
  with assms show ?thesis
    by (auto simp: counter_inv_def WorkersPool_post_def startTask_def n_executing_def)
next
  case (TakeHandler i)
  with assms(2) obtain x xs where at: "runner_at p i = Some InRun" and h: "handlers p = x # xs"
    and p': "p' = set_runner i (Executing x) (p\<lparr>handlers := xs\<rparr>)"
    by (auto split: option.splits runner.splits list.splits if_splits)
  have "n_executing p' = Suc (n_executing p)"
    using n_executing_set [of i p "p\<lparr>handlers := xs\<rparr>" "Executing x"] runner_atD [OF at] p' by simp
  with assms(1) h p' show ?thesis by (simp add: counter_inv_def)
next
  case (TaskReturns i)
  with assms(2) obtain x where at: "runner_at p i = Some (Executing x)"
    and p': "p' = set_runner i InRun ((endTask p)\<lparr>completed := completed p @ [x]\<rparr>)"
    by (auto split: option.splits runner.splits)
  have "Suc (n_executing p') = n_executing p"
    using n_executing_set [of i p "(endTask p)\<lparr>completed := completed p @ [x]\<rparr>" InRun]
      runner_atD [OF at] p' by (simp add: endTask_def)
  then have "of_nat (n_executing p) = (of_nat (n_executing p') + 1 :: u64)"
    by (metis of_nat_Suc add.commute)
  moreover have "counter_tasks p' = counter_tasks p - 1" and "handlers p' = handlers p"
    and "failed p' = failed p" using p' by (simp_all add: endTask_def)
  ultimately show ?thesis using assms(1) by (simp add: counter_inv_def)
next
  case (TaskThrows i)
  with assms(2) obtain x where at: "runner_at p i = Some (Executing x)"
    and p': "p' = set_runner i InRun (p\<lparr>failed := failed p @ [x]\<rparr>)"
    by (auto split: option.splits runner.splits)
  have "Suc (n_executing p') = n_executing p"
    using n_executing_set [of i p "p\<lparr>failed := failed p @ [x]\<rparr>" InRun] runner_atD [OF at] p'
    by simp
  then have "of_nat (n_executing p) = (of_nat (n_executing p') + 1 :: u64)"
    by (metis of_nat_Suc add.commute)
  with assms(1) p' show ?thesis by (simp add: counter_inv_def)
next
  case StopPool
  with assms show ?thesis by (auto simp: counter_inv_def n_executing_def)
next
  case (LeaveRun i)
  with assms(2) have at: "runner_at p i = Some InRun" and p': "p' = set_runner i Exited p"
    by (auto split: option.splits runner.splits if_splits)
  have "n_executing p' = n_executing p"
    using n_executing_set [of i p p Exited] runner_atD [OF at] p' by simp
  with assms(1) p' show ?thesis by (simp add: counter_inv_def)
qed

lemma workers_reach_inv: "workers_reach n p \<Longrightarrow> counter_inv p"
proof (induction rule: workers_reach.induct)
  case workers_start
  show ?case by (simp add: counter_inv_def WorkersPool_new_def n_executing_def sum_list_replicate)
qed (rule workers_step_inv)

section \<open>Properties\<close>

fun workers_run :: "'a pool_action list \<Rightarrow> 'a workers \<Rightarrow> 'a workers option" where
  "workers_run [] p = Some p"
| "workers_run (a # as) p =
     (case workers_step a p of None \<Rightarrow> None | Some p' \<Rightarrow> workers_run as p')"

lemma workers_run_reach: "workers_reach n p \<Longrightarrow> workers_run as p = Some p' \<Longrightarrow> workers_reach n p'"
  by (induction "as" arbitrary: p) (auto split: option.splits intro: workers_next)

definition threw_once :: "nat workers" where
  "threw_once = the (workers_run [PostTask 5, PostTask 6, TakeHandler 0, TaskThrows 0, TakeHandler 0, TaskReturns 0]
     AsyncContext_new)"

text \<open>The task counter is the number of tasks waiting or running plus the number that ever threw:
  an exception skips \<open>endTask\<close>, so each one leaves the counter one too high for good. Without
  exceptions the counter is exact.\<close>

theorem counter_leaks_failures:
  assumes "workers_reach n p"
  shows "counter_tasks p = of_nat (length (handlers p) + n_executing p + length (failed p))"
  using workers_reach_inv [OF assms] by (simp add: counter_inv_def)

lemma counter_leaks_failures_witness:
  "handlers threw_once = [] \<and> n_executing threw_once = 0 \<and> counter_tasks threw_once = 1"
proof -
  have run: "workers_run [PostTask 5, PostTask 6, TakeHandler 0, TaskThrows 0, TakeHandler 0, TaskReturns 0]
      AsyncContext_new = Some threw_once"
    and f: "handlers threw_once = []" "n_executing threw_once = 0" "failed threw_once = [5]"
    by code_simp+
  have "workers_reach 4 threw_once"
    by (rule workers_run_reach [OF _ run]) (simp add: AsyncContext_new_def workers_start)
  from counter_leaks_failures [OF this] f show ?thesis by simp
qed

end
