(* ===== verification/Server.thy ===== *)
theory Server
  imports Request_Safety Workers_Pool
begin

text \<open>
  The server with its requests interleaved. The network thread accepts connections and completes
  reads as in theory \<open>Gateway\<close>; the threads of the pool (\<open>InRun\<close> or \<open>Executing\<close>, as in theory
  \<open>Workers_Pool\<close>) take posted requests and run their programs step by step; and at any time
  another client may change the database. A request that ends with a value or an exception leaves
  its thread free for the next (\<open>WorkersPool::runThread\<close> catches the exception).
\<close>

section \<open>Steps\<close>

record 'db server =
  sv_gateway :: "'db gateway"
  sv_threads :: "('db, unit) request_prog runner list"
  sv_holder :: "nat option" \<comment> \<open>the thread that has \<open>ChannelsManager::mutex_\<close>\<close>

definition sv_world :: "'db server \<Rightarrow> 'db world" where
  "sv_world st = g_world (sv_gateway st)"

definition set_world :: "'db world \<Rightarrow> 'db server \<Rightarrow> 'db server" where
  "set_world w st = st\<lparr>sv_gateway := (sv_gateway st)\<lparr>g_world := w\<rparr>\<rparr>"

definition set_thread :: "nat \<Rightarrow> ('db, unit) request_prog runner \<Rightarrow> 'db server \<Rightarrow> 'db server" where
  "set_thread k x st = st\<lparr>sv_threads := (sv_threads st)[k := x]\<rparr>"

definition thread_at :: "nat \<Rightarrow> 'db server \<Rightarrow> ('db, unit) request_prog runner option" where
  "thread_at k st = (if k < length (sv_threads st) then Some (sv_threads st ! k) else None)"

definition server_main ::
  "'db idatabase \<Rightarrow> (type_id_user set \<Rightarrow> type_id_user list) \<Rightarrow> 'db \<Rightarrow> 'db server option" where
  "server_main D ord d =
     (case gateway_main D ord d of
        Serving g \<Rightarrow>
          Some \<lparr>sv_gateway = g,
                sv_threads = pool_threads (AsyncContext_new :: ('db, unit) request_prog workers),
                sv_holder = None\<rparr>
      | _ \<Rightarrow> None)"

datatype 'db server_action =
    Accepts bool bytes
  | Reads_from session
  | Picks nat nat "type_id_user set \<Rightarrow> type_id_user list" \<comment> \<open>thread, job, and the order its loops run in\<close>
  | Runs nat
  | Ends nat
  | Sends
  | Db_changes 'db

definition on_gateway :: "'db server \<Rightarrow> 'db gateway option \<Rightarrow> 'db server option" where
  "on_gateway st g = map_option (\<lambda>g. st\<lparr>sv_gateway := g\<rparr>) g"

fun server_step :: "'db idatabase \<Rightarrow> env \<Rightarrow> 'db server_action \<Rightarrow> 'db server \<Rightarrow> 'db server option" where
  "server_step D E (Accepts ec_failed stream) st =
     on_gateway st (gateway_step D E (AcceptCompletes ec_failed stream) (sv_gateway st))"
| "server_step D E (Reads_from s) st =
     on_gateway st (gateway_step D E (ReadCompletes s) (sv_gateway st))"
| "server_step D E Sends st = on_gateway st (gateway_step D E TakeWrite (sv_gateway st))"
| "server_step D E (Picks k i ord) st =
     (case thread_at k st of
        Some InRun \<Rightarrow>
          let g = sv_gateway st in
          if i < length (g_jobs g) then
            case g_jobs g ! i of (s, h, r) \<Rightarrow>
              Some (set_thread k (Executing (processRequest_prog D E ord s h r))
                (st\<lparr>sv_gateway := g\<lparr>g_jobs := take i (g_jobs g) @ drop (Suc i) (g_jobs g),
                                    g_processed := g_processed g @ [(s, h, r)]\<rparr>\<rparr>))
          else None
      | _ \<Rightarrow> None)"
| "server_step D E (Runs k) st =
     (case thread_at k st of
        Some (Executing p) \<Rightarrow>
          (case prog_step k p (sv_holder st) (sv_world st) of
             None \<Rightarrow> None
           | Some (p', holder', w') \<Rightarrow>
               Some (set_world w' (set_thread k (Executing p') st)\<lparr>sv_holder := holder'\<rparr>))
      | _ \<Rightarrow> None)"
| "server_step D E (Ends k) st =
     (case thread_at k st of
        Some (Executing (Done (Inr x))) \<Rightarrow> Some (set_thread k InRun st)
      | Some (Executing (Done (Inl (Thrown x)))) \<Rightarrow> Some (set_thread k InRun st)
      | _ \<Rightarrow> None)"
| "server_step D E (Db_changes d) st =
     Some (set_world ((sv_world st)\<lparr>w_db := map_option (\<lambda>_. d) (w_db (sv_world st))\<rparr>) st)"

inductive server_reach :: "'db idatabase \<Rightarrow> env \<Rightarrow> 'db server \<Rightarrow> bool" for D :: "'db idatabase" and E :: env where
  server_start: "server_main D ord d = Some st \<Longrightarrow> server_reach D E st"
| server_next: "server_reach D E st \<Longrightarrow> server_step D E a st = Some st' \<Longrightarrow> server_reach D E st'"

fun server_run :: "'db idatabase \<Rightarrow> env \<Rightarrow> 'db server_action list \<Rightarrow> 'db server \<Rightarrow> 'db server option" where
  "server_run D E [] st = Some st"
| "server_run D E (a # as) st =
     (case server_step D E a st of None \<Rightarrow> None | Some st' \<Rightarrow> server_run D E as st')"

lemma server_run_reach:
  "server_reach D E st \<Longrightarrow> server_run D E as st = Some st' \<Longrightarrow> server_reach D E st'"
  by (induction "as" arbitrary: st) (auto split: option.splits intro: server_next)

section \<open>The invariant\<close>

text \<open>A thread: free, or running a program that is safe from here on, with the mutex if and only if
  the discipline says so.\<close>

definition thread_ok ::
  "'db idatabase \<Rightarrow> 'db world \<Rightarrow> nat option \<Rightarrow> nat \<Rightarrow> ('db, unit) request_prog runner \<Rightarrow> bool" where
  "thread_ok D w holder k x =
     (case x of
        Executing p \<Rightarrow>
          safe server_inv evolves declared (result (expected D) (\<lambda>_ _. True)) p w \<and>
          disciplined guarded p (holder = Some k)
      | _ \<Rightarrow> holder \<noteq> Some k)"

definition server_ok :: "'db idatabase \<Rightarrow> env \<Rightarrow> 'db server \<Rightarrow> bool" where
  "server_ok D E st \<longleftrightarrow>
     server_inv (sv_world st) \<and> sources_inv E (sv_gateway st) \<and>
     w_sessions (sv_world st) = accepted (sv_gateway st) \<and>
     (\<forall>k. sv_holder st = Some k \<longrightarrow> k < length (sv_threads st)) \<and>
     (\<forall>k < length (sv_threads st). thread_ok D (sv_world st) (sv_holder st) k (sv_threads st ! k))"

lemma thread_ok_simps [simp]:
  "thread_ok D w holder k InRun = (holder \<noteq> Some k)"
  "thread_ok D w holder k Exited = (holder \<noteq> Some k)"
  "thread_ok D w holder k (Executing p) =
     (safe server_inv evolves declared (result (expected D) (\<lambda>_ _. True)) p w \<and>
      disciplined guarded p (holder = Some k))"
  by (simp_all add: thread_ok_def)

lemma server_okD:
  "server_ok D E st \<Longrightarrow> k < length (sv_threads st) \<Longrightarrow>
   thread_ok D (sv_world st) (sv_holder st) k (sv_threads st ! k)"
  by (simp add: server_ok_def)

lemma server_fields [simp]:
  "sv_world (set_world w st) = w" "sv_world (set_thread k x st) = sv_world st"
  "sv_threads (set_world w st) = sv_threads st" "sv_threads (set_thread k x st) = (sv_threads st)[k := x]"
  "sv_holder (set_world w st) = sv_holder st" "sv_holder (set_thread k x st) = sv_holder st"
  "sv_gateway (set_thread k x st) = sv_gateway st"
  "sv_gateway (set_world w st) = (sv_gateway st)\<lparr>g_world := w\<rparr>"
  "sv_world (st\<lparr>sv_holder := h\<rparr>) = sv_world st" "sv_world (st\<lparr>sv_gateway := g\<rparr>) = g_world g"
  by (simp_all add: sv_world_def set_world_def set_thread_def)

lemma sources_world [simp]: "sources_inv E (g\<lparr>g_world := w\<rparr>) = sources_inv E g"
  by (simp add: sources_inv_def)

lemma accepted_fields [simp]:
  "accepted (g\<lparr>g_world := w\<rparr>) = accepted g" "accepted (g\<lparr>g_jobs := js, g_processed := ps\<rparr>) = accepted g"
  by (simp_all add: accepted_def)

text \<open>The threads do not mind the state evolving.\<close>

lemma thread_ok_evolves: "thread_ok D w holder k x \<Longrightarrow> evolves w w' \<Longrightarrow> thread_ok D w' holder k x"
  by (auto simp: thread_ok_def split: runner.splits intro: world_rg.safe_later)

lemma server_ok_thread:
  assumes "server_ok D E st" and "thread_ok D (sv_world st) (sv_holder st) k x"
  shows "server_ok D E (set_thread k x st)"
proof -
  have "thread_ok D (sv_world st) (sv_holder st) j ((sv_threads st)[k := x] ! j)"
    if "j < length (sv_threads st)" for j
    using that assms(2) server_okD [OF assms(1) that] by (cases "j = k") simp_all
  then show ?thesis using assms(1) by (simp add: server_ok_def)
qed

lemma server_ok_evolves:
  assumes "server_ok D E st" and "evolves (sv_world st) (g_world g)" and "server_inv (g_world g)"
    and "sources_inv E g" and "w_sessions (g_world g) = accepted g"
  shows "server_ok D E (st\<lparr>sv_gateway := g\<rparr>)"
  using assms thread_ok_evolves [OF _ assms(2)] by (simp add: server_ok_def)

text \<open>Start-up leaves the pointers \<open>main\<close> holds in place.\<close>

definition held :: "'db world \<Rightarrow> bool" where
  "held w \<longleftrightarrow> w_db w \<noteq> None \<and> w_users w \<noteq> None \<and> w_engine w"

lemma held_atoms: "keeps held (on_db m)" "keeps held (make_shared_channel c)" "keeps held (register_channel i p)"
  by (auto simp: keeps_def held_def on_db_def make_shared_channel_def register_channel_def
      split: option.splits prod.splits)

lemma held_new: "keeps held (new_registered_channel D name i)"
  unfolding new_registered_channel_def Channel_new_def by (intro held_atoms keeps_rules)

lemma held_generate: "keeps held (generate_channels D channels is)"
  by (induction "is") (simp_all only: generate_channels.simps, (intro held_new keeps_rules; assumption?)+)

lemma held_main:
  assumes "gateway_main D ord d = Serving g"
  shows "held (g_world g)"
proof -
  obtain d1 w where w: "createChannelFromDb D ord (start_world d1) = (Inr (), w)" "g_world g = w"
    using assms by (rule gateway_main_serving)
  have "keeps held (createChannelFromDb D ord)"
    unfolding createChannelFromDb_def by (intro held_atoms held_generate keeps_rules)
  from keeps_run [OF this _ w(1)] w(2) show ?thesis by (simp add: held_def start_world_def)
qed

lemma server_main_ok:
  assumes "server_main D ord d = Some st"
  shows "server_ok D E st"
proof -
  obtain g where g: "gateway_main D ord d = Serving g"
    and st: "st = \<lparr>sv_gateway = g,
                sv_threads = pool_threads (AsyncContext_new :: ('a, unit) request_prog workers),
                sv_holder = None\<rparr>"
    using assms by (auto simp: server_main_def split: outcome.splits)
  have t: "targets (accepted g) (g_world g)" by (rule targets_main [OF g])
  then have "server_inv (g_world g)" "w_sessions (g_world g) = accepted g"
    using gateway_main_inv [OF g] held_main [OF g] by (auto simp: server_inv_def targets_def held_def)
  moreover have "sources_inv E g" by (rule sources_main [OF g])
  ultimately show ?thesis
    by (auto simp: server_ok_def st sv_world_def thread_ok_def AsyncContext_new_def WorkersPool_new_def)
qed

section \<open>Every step keeps it\<close>

text \<open>The network thread and the removal of a write task.\<close>

lemma gateway_step_evolves:
  assumes "gateway_step D E a g = Some g'" and "\<And>i ord. a \<noteq> RunJob i ord"
  shows "evolves (g_world g) (g_world g')" and "w_db (g_world g') = w_db (g_world g)"
    and "w_users (g_world g') = w_users (g_world g)" and "w_engine (g_world g') = w_engine (g_world g)"
  using assms by (cases a; auto simp: evolves_def Let_def split: if_splits option.splits list.splits prod.splits)+

lemma on_gateway_ok:
  assumes "server_ok D E st" and "on_gateway st (gateway_step D E a (sv_gateway st)) = Some st'"
    and "\<And>i ord. a \<noteq> RunJob i ord"
  shows "server_ok D E st'"
proof -
  let ?g = "sv_gateway st"
  obtain g where g: "gateway_step D E a ?g = Some g" and st': "st' = st\<lparr>sv_gateway := g\<rparr>"
    using assms(2) by (auto simp: on_gateway_def)
  have inv: "server_inv (g_world ?g)" "sources_inv E ?g" "w_sessions (g_world ?g) = accepted ?g"
    using assms(1) by (simp_all add: server_ok_def sv_world_def)
  then have "targets (accepted ?g) (g_world ?g)" by (simp add: server_inv_def)
  then have t: "targets (accepted g) (g_world g)" using inv(2) g by (rule targets_step)
  note ev = gateway_step_evolves [OF g assms(3)]
  have "world_inv (g_world g)" using inv(1) gateway_step_inv [OF _ g] by (simp add: server_inv_def)
  then have "server_inv (g_world g)" "w_sessions (g_world g) = accepted g"
    using t ev inv(1) by (auto simp: server_inv_def targets_def)
  moreover have "sources_inv E g" using inv(2) g by (rule sources_step)
  ultimately show ?thesis
    unfolding st' using assms(1) ev(1) by (intro server_ok_evolves) (simp_all add: sv_world_def)
qed

text \<open>A thread takes a job.\<close>

lemma job_session:
  assumes "sources_inv E g" and "i < length (g_jobs g)" and "g_jobs g ! i = (s, h, r)"
  shows "s \<in> accepted g"
proof -
  have "(h, r) \<in> jobs_of s (g_jobs g @ g_processed g)"
    using nth_mem [OF assms(2)] assms(3) by (simp add: jobs_of_def)
  then have "s \<in> dom (g_conns g)" using assms(1) by (cases "g_conns g s") (auto simp: sources_inv_def)
  then show ?thesis using assms(1) by (simp add: sources_inv_def accepted_def)
qed

lemma thread_at_Some [simp]: "thread_at k st = Some x \<longleftrightarrow> k < length (sv_threads st) \<and> sv_threads st ! k = x"
  by (auto simp: thread_at_def)

lemma picks_ok:
  assumes "server_ok D E st" and "server_step D E (Picks k i ord) st = Some st'"
  shows "server_ok D E st'"
proof -
  let ?g = "sv_gateway st"
  obtain s h r where k: "k < length (sv_threads st)" "sv_threads st ! k = InRun"
    and i: "i < length (g_jobs ?g)" "g_jobs ?g ! i = (s, h, r)"
    and st': "st' = set_thread k (Executing (processRequest_prog D E ord s h r))
                (st\<lparr>sv_gateway := ?g\<lparr>g_jobs := take i (g_jobs ?g) @ drop (Suc i) (g_jobs ?g),
                                       g_processed := g_processed ?g @ [(s, h, r)]\<rparr>\<rparr>)"
    using assms(2) by (auto simp: Let_def split: option.splits runner.splits if_splits prod.splits)
  have src: "sources_inv E ?g" using assms(1) by (simp add: server_ok_def)
  have src': "sources_inv E (?g\<lparr>g_jobs := take i (g_jobs ?g) @ drop (Suc i) (g_jobs ?g),
      g_processed := g_processed ?g @ [(s, h, r)]\<rparr>)"
    using sources_job [OF src i(1), of "g_world ?g"] i(2) by simp
  have "s \<in> w_sessions (sv_world st)"
    using job_session [OF src i] assms(1) by (simp add: server_ok_def)
  moreover have "server_inv (sv_world st)" using assms(1) by (simp add: server_ok_def)
  moreover have "sv_holder st \<noteq> Some k" using server_okD [OF assms(1) k(1)] k(2) by simp
  ultimately have "thread_ok D (sv_world st) (sv_holder st) k (Executing (processRequest_prog D E ord s h r))"
    by (simp add: processRequest_safe processRequest_disciplined)
  moreover have "server_ok D E (st\<lparr>sv_gateway := ?g\<lparr>g_jobs := take i (g_jobs ?g) @ drop (Suc i) (g_jobs ?g),
      g_processed := g_processed ?g @ [(s, h, r)]\<rparr>\<rparr>)"
    using assms(1) src' by (intro server_ok_evolves) (simp_all add: server_ok_def sv_world_def)
  ultimately show ?thesis
    unfolding st' by (intro server_ok_thread) (simp_all add: sv_world_def)
qed

text \<open>A step of a program.\<close>

lemma runs_cases:
  assumes "server_step D E (Runs k) st = Some st'"
  obtains p p' holder' w' where "k < length (sv_threads st)" and "sv_threads st ! k = Executing p"
    and "prog_step k p (sv_holder st) (sv_world st) = Some (p', holder', w')"
    and "st' = set_world w' (set_thread k (Executing p') st)\<lparr>sv_holder := holder'\<rparr>"
  using assms by (auto split: option.splits runner.splits prod.splits)

lemma prog_step_holder: "prog_step k p holder w = Some (p', holder', w') \<Longrightarrow> holder' = holder \<or> holder' = Some k \<or> holder' = None"
  by (cases p) (auto split: prod.splits if_splits)

lemma runs_ok:
  assumes "server_ok D E st" and "server_step D E (Runs k) st = Some st'"
  shows "server_ok D E st'"
proof -
  let ?w = "sv_world st"
  obtain p p' holder' w' where k: "k < length (sv_threads st)" "sv_threads st ! k = Executing p"
    and step: "prog_step k p (sv_holder st) ?w = Some (p', holder', w')"
    and st': "st' = set_world w' (set_thread k (Executing p') st)\<lparr>sv_holder := holder'\<rparr>"
    using assms(2) by (rule runs_cases)
  have p: "safe server_inv evolves declared (result (expected D) (\<lambda>_ _. True)) p ?w"
    "disciplined guarded p (sv_holder st = Some k)" "server_inv ?w"
    using server_okD [OF assms(1) k(1)] k(2) assms(1) by (simp_all add: server_ok_def)
  note rg = world_rg.safe_prog_step [OF p(1,3) step]
  note disc = disciplined_step [OF p(2) step]
  have "w_sessions w' = w_sessions ?w"
    using rg(4,5) by (cases "next_label p") (auto simp: declared_def)
  moreover have "thread_ok D w' holder' j ((sv_threads st)[k := Executing p'] ! j)"
    if j: "j < length (sv_threads st)" for j
  proof (cases "j = k")
    case True
    then show ?thesis using j rg(3) disc(1) by (simp add: thread_ok_def)
  next
    case False
    have "thread_ok D ?w (sv_holder st) j (sv_threads st ! j)"
      using assms(1) j by (simp add: server_ok_def)
    then have "thread_ok D w' (sv_holder st) j (sv_threads st ! j)" using rg(2) by (rule thread_ok_evolves)
    then show ?thesis using False disc(2) [OF False] by (auto simp: thread_ok_def split: runner.splits)
  qed
  ultimately show ?thesis
    using assms(1) rg(1) k(1) prog_step_holder [OF step]
    by (auto simp: st' server_ok_def sv_world_def set_world_def)
qed

lemma ends_ok:
  assumes "server_ok D E st" and "server_step D E (Ends k) st = Some st'"
  shows "server_ok D E st'"
proof -
  obtain r where k: "k < length (sv_threads st)" "sv_threads st ! k = Executing (Done r)"
    and st': "st' = set_thread k InRun st"
    using assms(2) by (auto split: option.splits runner.splits prog.splits sum.splits failure.splits)
  then have "sv_holder st \<noteq> Some k" using server_okD [OF assms(1) k(1)] by simp
  then show ?thesis unfolding st' using assms(1) by (intro server_ok_thread) simp_all
qed

lemma db_changes_ok:
  assumes "server_ok D E st" and "server_step D E (Db_changes d) st = Some st'"
  shows "server_ok D E st'"
proof -
  let ?w = "sv_world st"
  have inv: "server_inv ?w" using assms(1) by (simp add: server_ok_def)
  then obtain d0 where d0: "w_db ?w = Some d0" by (auto simp: server_inv_def)
  have st': "st' = st\<lparr>sv_gateway := (sv_gateway st)\<lparr>g_world := ?w\<lparr>w_db := Some d\<rparr>\<rparr>\<rparr>"
    using assms(2) d0 by (simp add: set_world_def)
  have "evolves ?w (?w\<lparr>w_db := Some d\<rparr>)" by (rule declared_evolves [OF db_frame(2) [of "[Writes Backend]"]]) simp
  then show ?thesis
    unfolding st' using assms(1) db_frame(1) [OF inv]
    by (intro server_ok_evolves) (simp_all add: server_ok_def)
qed

lemma server_step_ok:
  assumes "server_ok D E st" and "server_step D E a st = Some st'"
  shows "server_ok D E st'"
proof (cases a)
  case (Accepts ec stream)
  then have "on_gateway st (gateway_step D E (AcceptCompletes ec stream) (sv_gateway st)) = Some st'"
    using assms(2) by (simp only: server_step.simps)
  then show ?thesis by (rule on_gateway_ok [OF assms(1)]) simp
next
  case (Reads_from s)
  then have "on_gateway st (gateway_step D E (ReadCompletes s) (sv_gateway st)) = Some st'"
    using assms(2) by (simp only: server_step.simps)
  then show ?thesis by (rule on_gateway_ok [OF assms(1)]) simp
next
  case Sends
  then have "on_gateway st (gateway_step D E (TakeWrite) (sv_gateway st)) = Some st'"
    using assms(2) by (simp only: server_step.simps)
  then show ?thesis by (rule on_gateway_ok [OF assms(1)]) simp
next
  case (Picks k i ord)
  with assms show ?thesis by (simp only: picks_ok)
next
  case (Runs k)
  with assms show ?thesis by (simp only: runs_ok)
next
  case (Ends k)
  with assms show ?thesis by (simp only: ends_ok)
next
  case (Db_changes d)
  with assms show ?thesis by (simp only: db_changes_ok)
qed

lemma server_reach_ok: "server_reach D E st \<Longrightarrow> server_ok D E st"
  by (induction rule: server_reach.induct) (auto intro: server_main_ok server_step_ok)

end
