(* ===== verification/Server_Properties.thy ===== *)
theory Server_Properties
  imports Server
begin

text \<open>
  What holds in every interleaving of the requests: the shared state stays well formed, no request
  follows a null pointer, only one thread at a time touches the directory of channels, no thread
  waits for ever, and nothing that was joined or filed is lost. And what does not hold: accesses of
  two requests to the table of users can meet. The sequential server is one of the schedules.
\<close>

section \<open>Steps of the pool\<close>

text \<open>What a thread does next to the unguarded memory.\<close>

definition next_accesses :: "nat \<Rightarrow> 'db server \<Rightarrow> access list" where
  "next_accesses k st =
     (case thread_at k st of
        Some (Executing p) \<Rightarrow> (case next_label p of Some l \<Rightarrow> l | None \<Rightarrow> [])
      | _ \<Rightarrow> [])"

text \<open>A data race: two threads are about to access one place, and one of them writes.\<close>

definition racing :: "place \<Rightarrow> 'db server \<Rightarrow> bool" where
  "racing x st \<longleftrightarrow>
     (\<exists>j < length (sv_threads st). \<exists>k < length (sv_threads st). j \<noteq> k \<and>
        (\<exists>a \<in> set (next_accesses j st). \<exists>b \<in> set (next_accesses k st). place_of a = x \<and> conflict a b))"

lemma guarded_next:
  assumes "server_ok D E st" and "touches IdChannels (next_accesses k st)"
  shows "sv_holder st = Some k"
proof -
  have "next_accesses k st \<noteq> []" using assms(2) by (auto simp: touches_def)
  then obtain p l where t: "thread_at k st = Some (Executing p)" and l: "next_label p = Some l"
    "next_accesses k st = l"
    by (auto simp: next_accesses_def simp del: thread_at_Some split: option.splits runner.splits)
  then obtain g where "p = Step l g" by (cases p) simp_all
  moreover have "guarded l" using assms(2) l by (simp add: guarded_def)
  moreover have p: "k < length (sv_threads st)" "sv_threads st ! k = Executing p" using t by simp_all
  ultimately show ?thesis using server_okD [OF assms(1) p(1)] by simp
qed

text \<open>The programs under way; each step of the pool makes the multiset smaller.\<close>

definition under_way :: "'db server \<Rightarrow> ('db, unit) request_prog multiset" where
  "under_way st = mset (concat (map (\<lambda>x. case x of Executing p \<Rightarrow> [p] | _ \<Rightarrow> []) (sv_threads st)))"

lemma under_way_update:
  assumes "k < length (sv_threads st)" and "sv_threads st ! k = Executing p"
  shows "under_way (set_thread k (Executing q) st) + {#p#} = under_way st + {#q#}"
    and "under_way (set_thread k InRun st) + {#p#} = under_way st"
  using mset_concat_update [OF assms(1), of "\<lambda>x. case x of Executing p \<Rightarrow> [p] | _ \<Rightarrow> []"] assms(2)
  by (simp_all add: under_way_def)

definition under_way_order :: "('db server \<times> 'db server) set" where
  "under_way_order = inv_image (mult prog_order) under_way"

lemma wf_under_way: "wf under_way_order"
  unfolding under_way_order_def by (intro wf_inv_image wf_mult wf_prog_order)

lemma pool_step_smaller:
  assumes "server_step D E (Runs k) st = Some st' \<or> server_step D E (Ends k) st = Some st'"
  shows "(under_way st', under_way st) \<in> mult prog_order"
  using assms
proof
  assume "server_step D E (Runs k) st = Some st'"
  then obtain p q holder' w' where k: "k < length (sv_threads st)" "sv_threads st ! k = Executing p"
    and step: "prog_step k p (sv_holder st) (sv_world st) = Some (q, holder', w')"
    and st': "st' = set_world w' (set_thread k (Executing q) st)\<lparr>sv_holder := holder'\<rparr>"
    by (rule runs_cases)
  have "under_way st' = under_way (set_thread k (Executing q) st)" by (simp add: under_way_def st')
  then show ?thesis
    using replaced_smaller [OF under_way_update(1) [OF k] prog_step_order [OF step]] by simp
next
  assume "server_step D E (Ends k) st = Some st'"
  then obtain r where k: "k < length (sv_threads st)" "sv_threads st ! k = Executing (Done r)"
    and st': "st' = set_thread k InRun st"
    by (auto split: option.splits runner.splits prog.splits sum.splits failure.splits)
  have "under_way st = add_mset (Done r) (under_way st')" using under_way_update(2) [OF k] by (simp add: st')
  then have "under_way st' \<subset># under_way st" by simp
  then show ?thesis by (rule subset_implies_mult)
qed

section \<open>A server for the examples\<close>

text \<open>
  Over \<open>Storage\<close> and \<open>sample_env\<close>: two peers connect, and each sends a registration, for the logins
  \<open>a\<close> and \<open>b\<close>; threads 0 and 1 take the two requests.
\<close>

definition empty_server :: "storage server" where
  "empty_server = \<lparr>sv_gateway = \<lparr>g_world = start_world empty_storage, g_acceptor = fst runAccept,
     g_conns = Map.empty, g_jobs = [], g_streams = (\<lambda>_. []), g_processed = []\<rparr>,
     sv_threads = replicate 4 InRun, sv_holder = None\<rparr>"

lemma empty_server_reach: "server_reach Storage_db sample_env empty_server"
proof (rule server_start)
  have "sorted_ids {} = []" by (simp add: sorted_ids_def)
  then show "server_main Storage_db sorted_ids empty_storage = Some empty_server"
    by (simp add: server_main_def gateway_main_def empty_server_def createChannelFromDb_def Storage_db_def
        Storage_connect_def Storage_getCurrentChannels_def QueryEngine_new_def start_world_def
        AsyncContext_new_def WorkersPool_new_def)
qed

definition two_registrations :: "storage server_action list" where
  "two_registrations = [Accepts False [1, 1, 97], Accepts False [1, 1, 98], Reads_from 0, Reads_from 0,
     Reads_from 1, Reads_from 1, Picks 0 0 sorted_ids, Picks 1 0 sorted_ids]"

text \<open>Both threads go up to their push on the table of users.\<close>

definition up_to_push :: "storage server_action list" where
  "up_to_push = two_registrations @ [Runs 0, Runs 1, Runs 0, Runs 1, Runs 0, Runs 1]"

definition at_push :: "storage server" where
  "at_push = the (server_run Storage_db sample_env up_to_push empty_server)"

lemma at_push_run: "server_run Storage_db sample_env up_to_push empty_server = Some at_push"
  unfolding at_push_def by (rule ran) code_simp

lemma at_push_reach: "server_reach Storage_db sample_env at_push"
  by (rule server_run_reach [OF empty_server_reach at_push_run])

lemma at_push_accesses:
  "next_accesses 0 at_push = [Reads IdClients, Writes IdClients, Writes (UserSession 1)]"
  "next_accesses 1 at_push = [Reads IdClients, Writes IdClients, Writes (UserSession 2)]"
  "length (sv_threads at_push) = 4"
  by code_simp+

lemma at_push_sources:
  "g_processed (sv_gateway at_push) = [(0, \<lparr>h_command = 1, h_length = 1\<rparr>, sample_request [97]),
     (1, \<lparr>h_command = 1, h_length = 1\<rparr>, sample_request [98])]"
  "g_streams (sv_gateway at_push) 0 = [1, 1, 97]"
  by code_simp+

text \<open>Thread 0 makes its push, writes its answer and comes to its end.\<close>

definition at_end :: "storage server" where
  "at_end = the (server_run Storage_db sample_env (replicate 3 (Runs 0)) at_push)"

lemma at_end_run: "server_run Storage_db sample_env (replicate 3 (Runs 0)) at_push = Some at_end"
  unfolding at_end_def by (rule ran) code_simp

lemma at_end_reach: "server_reach Storage_db sample_env at_end"
  by (rule server_run_reach [OF at_push_reach at_end_run])

lemma at_end_done: obtains r where "thread_at 0 at_end = Some (Executing (Done r))"
proof -
  have "case thread_at 0 at_end of Some (Executing (Done r)) \<Rightarrow> True | _ \<Rightarrow> False" by code_simp
  then show thesis using that by (auto simp del: thread_at_Some split: option.splits runner.splits prog.splits)
qed

section \<open>Lemmas about runs\<close>

lemma on_gateway_evolves:
  assumes "on_gateway st (gateway_step D E a (sv_gateway st)) = Some st'" and "\<And>i ord. a \<noteq> RunJob i ord"
  shows "evolves (sv_world st) (sv_world st')"
proof -
  obtain g where g: "gateway_step D E a (sv_gateway st) = Some g" and "sv_world st' = g_world g"
    using assms(1) by (auto simp: on_gateway_def)
  then show ?thesis using gateway_step_evolves(1) [OF g assms(2)] by (simp add: sv_world_def)
qed

lemma server_step_evolves:
  assumes "server_ok D E st" and "server_step D E a st = Some st'"
  shows "evolves (sv_world st) (sv_world st')"
proof (cases a)
  case (Accepts ec stream)
  then have "on_gateway st (gateway_step D E (AcceptCompletes ec stream) (sv_gateway st)) = Some st'"
    using assms(2) by (simp only: server_step.simps)
  then show ?thesis by (rule on_gateway_evolves) simp
next
  case (Reads_from s)
  then have "on_gateway st (gateway_step D E (ReadCompletes s) (sv_gateway st)) = Some st'"
    using assms(2) by (simp only: server_step.simps)
  then show ?thesis by (rule on_gateway_evolves) simp
next
  case Sends
  then have "on_gateway st (gateway_step D E TakeWrite (sv_gateway st)) = Some st'"
    using assms(2) by (simp only: server_step.simps)
  then show ?thesis by (rule on_gateway_evolves) simp
next
  case (Picks k i ord)
  then show ?thesis using assms(2)
    by (auto simp: Let_def sv_world_def set_thread_def simp del: thread_at_Some
        split: option.splits runner.splits if_splits prod.splits)
next
  case (Runs k)
  then obtain p q holder' w' where k: "k < length (sv_threads st)" "sv_threads st ! k = Executing p"
    and step: "prog_step k p (sv_holder st) (sv_world st) = Some (q, holder', w')"
    and st': "st' = set_world w' (set_thread k (Executing q) st)\<lparr>sv_holder := holder'\<rparr>"
    using assms(2) by (auto elim: runs_cases simp del: server_step.simps)
  have "safe server_inv evolves declared (result (expected D) (\<lambda>_ _. True)) p (sv_world st)"
    using server_okD [OF assms(1) k(1)] k(2) by simp
  then show ?thesis
    using world_rg.safe_prog_step(2) [OF _ _ step] assms(1) by (simp add: st' server_ok_def)
next
  case (Ends k)
  then show ?thesis using assms(2)
    by (auto simp del: thread_at_Some split: option.splits runner.splits prog.splits sum.splits failure.splits)
next
  case (Db_changes d)
  then show ?thesis using assms(2) by (auto simp: evolves_def)
qed

lemma server_run_evolves:
  "server_ok D E st \<Longrightarrow> server_run D E as st = Some st' \<Longrightarrow> evolves (sv_world st) (sv_world st')"
proof (induction "as" arbitrary: st)
  case (Cons a "as")
  then obtain st1 where st1: "server_step D E a st = Some st1" "server_run D E as st1 = Some st'"
    by (auto split: option.splits)
  have "evolves (sv_world st1) (sv_world st')"
    using Cons.IH [OF server_step_ok [OF Cons.prems(1) st1(1)] st1(2)] .
  then show ?case using server_step_evolves [OF Cons.prems(1) st1(1)] by (rule evolves_trans [rotated])
qed simp

lemma server_run_append:
  "server_run D E (as @ bs) st = (case server_run D E as st of None \<Rightarrow> None | Some st' \<Rightarrow> server_run D E bs st')"
  by (induction "as" arbitrary: st) (simp_all split: option.split)

lemma done_result:
  assumes "server_ok D E st" and "thread_at k st = Some (Executing (Done r))"
  shows "(\<exists>x. r = Inr x) \<or> (\<exists>x. r = Inl (Thrown x)) \<or> (\<exists>e. r = Inl e \<and> backend_failure D e)"
proof -
  have "safe server_inv evolves declared (result (expected D) (\<lambda>_ _. True)) (Done r) (sv_world st)"
    using server_okD [OF assms(1), of k] assms(2) by auto
  moreover have "server_inv (sv_world st)" using assms(1) by (simp add: server_ok_def)
  ultimately have "result (expected D) (\<lambda>_ _. True) r (sv_world st)" by simp
  then show ?thesis by (cases r) (auto simp: expected_def)
qed

text \<open>A thread whose request has failed inside the backend, and not by an exception: it has followed a
  pointer that was null or not set, and nothing is said of it from there.\<close>

definition crashed :: "'db idatabase \<Rightarrow> ('db, unit) request_prog runner \<Rightarrow> bool" where
  "crashed D x =
     (case x of
        Executing (Done (Inl e)) \<Rightarrow> (case e of Thrown _ \<Rightarrow> False | _ \<Rightarrow> backend_failure D e)
      | _ \<Rightarrow> False)"

text \<open>A thread that has work can go on, or the one with the mutex can.\<close>

lemma thread_goes_on:
  assumes "server_ok D E st" and "thread_at k st = Some (Executing p)"
    and "sv_holder st = Some k \<or> sv_holder st = None"
  shows "(\<exists>st'. server_step D E (Runs k) st = Some st' \<or> server_step D E (Ends k) st = Some st') \<or>
    sv_holder st = None \<and> crashed D (Executing p)"
proof -
  have "disciplined guarded p (sv_holder st = Some k)"
    using server_okD [OF assms(1), of k] assms(2) by auto
  from disciplined_can_step [OF this assms(3), of "sv_world st"]
  consider x where "prog_step k p (sv_holder st) (sv_world st) = Some x"
    | r where "p = Done r" "sv_holder st = None"
    by blast
  then show ?thesis
  proof cases
    case 1
    then show ?thesis using assms(2) by (cases x) (auto simp del: thread_at_Some)
  next
    case 2
    have t: "thread_at k st = Some (Executing (Done r))" using assms(2) 2 by simp
    show ?thesis
    proof (cases r)
      case (Inr x)
      then show ?thesis using t by (auto simp del: thread_at_Some)
    next
      case (Inl e)
      then show ?thesis
        using t 2 done_result [OF assms(1) t]
        by (cases e) (auto simp: crashed_def simp del: thread_at_Some)
    qed
  qed
qed

definition idle :: "('db, unit) request_prog runner \<Rightarrow> bool" where
  "idle x = (case x of Executing p \<Rightarrow> False | _ \<Rightarrow> True)"

definition all_idle :: "'db server \<Rightarrow> bool" where
  "all_idle st \<longleftrightarrow> list_all idle (sv_threads st)"

definition all_ended :: "'db idatabase \<Rightarrow> 'db server \<Rightarrow> bool" where
  "all_ended D st \<longleftrightarrow> (\<forall>x \<in> set (sv_threads st). idle x \<or> crashed D x)"

lemma pool_goes_on:
  assumes "server_ok D E st" and "\<not> all_ended D st"
  shows "\<exists>j st'. server_step D E (Runs j) st = Some st' \<or> server_step D E (Ends j) st = Some st'"
proof -
  obtain k where k: "k < length (sv_threads st)" "\<not> idle (sv_threads st ! k)" "\<not> crashed D (sv_threads st ! k)"
    using assms(2) by (auto simp: all_ended_def in_set_conv_nth)
  then obtain p where p: "thread_at k st = Some (Executing p)" "\<not> crashed D (Executing p)"
    by (cases "sv_threads st ! k") (simp_all add: idle_def)
  show ?thesis
  proof (cases "sv_holder st")
    case None
    then show ?thesis using thread_goes_on [OF assms(1) p(1)] p(2) by blast
  next
    case (Some j)
    then have j: "j < length (sv_threads st)" using assms(1) by (simp add: server_ok_def)
    then obtain q where "thread_at j st = Some (Executing q)"
      using server_okD [OF assms(1) j] Some by (cases "sv_threads st ! j") auto
    then show ?thesis using thread_goes_on [OF assms(1), of j] Some by auto
  qed
qed

definition pool_action :: "'db server_action \<Rightarrow> bool" where
  "pool_action a = (case a of Runs _ \<Rightarrow> True | Ends _ \<Rightarrow> True | _ \<Rightarrow> False)"

lemma pool_run [simp]: "pool_action (Runs k)"
  by (simp add: pool_action_def)

lemma pool_finishes:
  assumes "server_ok D E st"
  shows "\<exists>as st'. list_all pool_action as \<and> server_run D E as st = Some st' \<and> all_ended D st'"
  using wf_under_way assms
proof (induction st rule: wf_induct_rule)
  case (less st)
  show ?case
  proof (cases "all_ended D st")
    case True
    then show ?thesis by (intro exI [of _ "[]"]) simp
  next
    case False
    then obtain j st1 where step: "server_step D E (Runs j) st = Some st1 \<or> server_step D E (Ends j) st = Some st1"
      using pool_goes_on [OF less.prems] by blast
    then obtain a where "a = Runs j \<or> a = Ends j" and st1: "server_step D E a st = Some st1" by blast
    then have a: "pool_action a" "server_step D E a st = Some st1" by (auto simp: pool_action_def)
    have "(st1, st) \<in> under_way_order"
      using pool_step_smaller [OF step] by (simp add: under_way_order_def)
    moreover have "server_ok D E st1" using less.prems a(2) by (rule server_step_ok)
    ultimately obtain bs st' where "list_all pool_action bs" "server_run D E bs st1 = Some st'" "all_ended D st'"
      using less.IH by blast
    then show ?thesis using a by (intro exI [of _ "a # bs"]) simp
  qed
qed

lemma all_ended_holder:
  assumes "server_ok D E st" and "all_ended D st"
  shows "sv_holder st = None"
proof -
  have "sv_holder st \<noteq> Some k" for k
  proof
    assume h: "sv_holder st = Some k"
    then have k: "k < length (sv_threads st)" using assms(1) by (simp add: server_ok_def)
    then have "idle (sv_threads st ! k) \<or> crashed D (sv_threads st ! k)"
      using assms(2) by (simp add: all_ended_def)
    with server_okD [OF assms(1) k] h show False
      by (cases "sv_threads st ! k") (auto simp: idle_def crashed_def split: prog.splits)
  qed
  then show ?thesis by (metis not_Some_eq)
qed

text \<open>The sequential server, as the server whose pool is idle.\<close>

definition idle_server :: "'db gateway \<Rightarrow> 'db server" where
  "idle_server g = \<lparr>sv_gateway = g, sv_threads = replicate 4 InRun, sv_holder = None\<rparr>"

lemma idle_simps [simp]:
  "sv_gateway (idle_server g) = g" "sv_threads (idle_server g) = replicate 4 InRun"
  "sv_holder (idle_server g) = None" "sv_world (idle_server g) = g_world g"
  "idle_server g\<lparr>sv_gateway := g'\<rparr> = idle_server g'"
  by (simp_all add: idle_server_def sv_world_def)

text \<open>A thread that steps by itself.\<close>

lemma server_self:
  assumes "thread_at k st = Some x" and "sv_holder st = h" and "sv_world st = w"
  shows "set_world w (set_thread k x st)\<lparr>sv_holder := h\<rparr> = st"
proof -
  have "(sv_threads st)[k := x] = sv_threads st" using assms(1) by auto
  moreover have "sv_gateway st\<lparr>g_world := w\<rparr> = sv_gateway st" using assms(3) by (auto simp: sv_world_def)
  ultimately show ?thesis using assms(2) by (auto simp: set_world_def set_thread_def)
qed

lemma thread_runs:
  assumes "steps_alone k x y" and "thread_at k st = Some (Executing (fst x))"
    and "sv_holder st = fst (snd x)" and "sv_world st = snd (snd x)"
  shows "\<exists>as. list_all pool_action as \<and> server_run D E as st =
    Some (set_world (snd (snd y)) (set_thread k (Executing (fst y)) st)\<lparr>sv_holder := fst (snd y)\<rparr>)"
  using assms
proof (induction arbitrary: st rule: steps_alone.induct)
  case (alone_refl x)
  have "set_world (snd (snd x)) (set_thread k (Executing (fst x)) st)\<lparr>sv_holder := fst (snd x)\<rparr> = st"
    by (rule server_self) (use alone_refl in simp_all)
  then show ?case by (intro exI [of _ "[]"]) simp
next
  case (alone_step p h s y z)
  obtain q h' t where y: "y = (q, h', t)" by (cases y)
  let ?st = "set_world t (set_thread k (Executing q) st)\<lparr>sv_holder := h'\<rparr>"
  have step: "server_step D E (Runs k) st = Some ?st"
    using alone_step.hyps(1) alone_step.prems y by (simp del: thread_at_Some)
  have "thread_at k ?st = Some (Executing q)" using alone_step.prems(1) by simp
  then obtain as where "list_all pool_action as" "server_run D E as ?st =
    Some (set_world (snd (snd z)) (set_thread k (Executing (fst z)) ?st)\<lparr>sv_holder := fst (snd z)\<rparr>)"
    using alone_step.IH [of ?st] y by auto
  moreover have "set_world (snd (snd z)) (set_thread k (Executing (fst z)) ?st)\<lparr>sv_holder := fst (snd z)\<rparr> =
    set_world (snd (snd z)) (set_thread k (Executing (fst z)) st)\<lparr>sv_holder := fst (snd z)\<rparr>"
    by (simp add: set_world_def set_thread_def)
  ultimately show ?case
    using step by (intro exI [of _ "Runs k # as"]) (simp add: pool_run del: server_step.simps)
qed

lemma run_job_reaches:
  assumes "server_reach D E (idle_server g)" and "gateway_step D E (RunJob i ord) g = Some g'"
  shows "server_reach D E (idle_server g')"
proof -
  let ?js = "take i (g_jobs g) @ drop (Suc i) (g_jobs g)"
  obtain s h r where i: "i < length (g_jobs g)" "g_jobs g ! i = (s, h, r)"
    using assms(2) by (cases "g_jobs g ! i") (auto simp: Let_def split: if_splits)
  let ?p = "processRequest_prog D E ord s h r"
  let ?g1 = "g\<lparr>g_jobs := ?js, g_processed := g_processed g @ [(s, h, r)]\<rparr>"
  obtain res w' where run: "run ?p (g_world g) = (res, w')" by force
  have g': "g' = ?g1\<lparr>g_world := w'\<rparr>" and returns: "job_returns D E ord (s, h, r) (g_world g)"
    using assms(2) i run by (auto simp: Let_def job_result_def run_processRequest split: if_splits)
  have "thread_at 0 (idle_server g) = Some InRun" by simp
  then have "server_step D E (Picks 0 i ord) (idle_server g) = Some (set_thread 0 (Executing ?p) (idle_server ?g1))"
    using i by (simp add: Let_def del: thread_at_Some)
  then have picked: "server_reach D E (set_thread 0 (Executing ?p) (idle_server ?g1))"
    using assms(1) by (rule server_next [rotated])
  have alone: "steps_alone 0 (?p, None, g_world g) (Done res, None, w')"
    by (rule run_steps_alone [of guarded]) (simp_all add: processRequest_disciplined run)
  let ?st = "set_thread 0 (Executing (Done res)) (idle_server g')"
  let ?st1 = "set_thread 0 (Executing ?p) (idle_server ?g1)"
  have "thread_at 0 ?st1 = Some (Executing ?p)" by simp
  then obtain as where "server_run D E as ?st1 =
      Some (set_world w' (set_thread 0 (Executing (Done res)) ?st1)\<lparr>sv_holder := None\<rparr>)"
    using thread_runs [OF alone, of ?st1 D E] by auto
  moreover have "set_world w' (set_thread 0 (Executing (Done res)) ?st1)\<lparr>sv_holder := None\<rparr> = ?st"
    by (simp add: g' set_world_def set_thread_def idle_server_def)
  ultimately have st: "server_reach D E ?st" using server_run_reach [OF picked] by simp
  then have t: "thread_at 0 ?st = Some (Executing (Done res))" by simp
  have "(\<exists>x. res = Inr x) \<or> (\<exists>x. res = Inl (Thrown x))"
    using returns run
    by (cases res; cases "projl res") (simp_all add: job_returns_def run_processRequest)
  then have "server_step D E (Ends 0) ?st = Some (set_thread 0 InRun ?st)"
    using t by (auto simp del: thread_at_Some)
  moreover have "set_thread 0 InRun ?st = idle_server g'"
    by (simp add: set_thread_def idle_server_def numeral_eq_Suc)
  ultimately show ?thesis using st by (auto intro: server_next simp del: server_step.simps)
qed

lemma gateway_reaches:
  assumes "gateway_reach D E g"
  shows "server_reach D E (idle_server g)"
  using assms
proof (induction rule: gateway_reach.induct)
  case (gateway_start ord d g)
  then have "server_main D ord d = Some (idle_server g)"
    by (simp add: server_main_def idle_server_def AsyncContext_new_def WorkersPool_new_def)
  then show ?case by (rule server_start)
next
  case (gateway_next g a g')
  have on: "on_gateway (idle_server g) (gateway_step D E a g) = Some (idle_server g')"
    using gateway_next.hyps(2) by (simp add: on_gateway_def del: gateway_step.simps)
  show ?case
  proof (cases a)
    case (AcceptCompletes ec stream)
    have "server_step D E (Accepts ec stream) (idle_server g) = Some (idle_server g')"
      using on by (simp only: server_step.simps AcceptCompletes idle_simps)
    with gateway_next.IH show ?thesis by (rule server_next)
  next
    case (ReadCompletes s)
    have "server_step D E (Reads_from s) (idle_server g) = Some (idle_server g')"
      using on by (simp only: server_step.simps ReadCompletes idle_simps)
    with gateway_next.IH show ?thesis by (rule server_next)
  next
    case TakeWrite
    have "server_step D E Sends (idle_server g) = Some (idle_server g')"
      using on by (simp only: server_step.simps TakeWrite idle_simps)
    with gateway_next.IH show ?thesis by (rule server_next)
  next
    case (RunJob i ord)
    with gateway_next.hyps(2) show ?thesis by (intro run_job_reaches [OF gateway_next.IH]) simp
  qed
qed

section \<open>Properties\<close>

text \<open>C26: A request by itself is the sequential function: with nobody else on the mutex, the steps of its
  program lead to its end, with the value or failure and the state of \<open>processRequest\<close>, and the
  mutex free again; for every request, database and state.\<close>

theorem request_alone:
  "steps_alone k (processRequest_prog D E ord s h r, None, w)
     (Done (fst (processRequest D E ord s h r w)), None, snd (processRequest D E ord s h r w))"
  by (rule run_steps_alone [of guarded]) (simp_all add: processRequest_disciplined run_processRequest)

text \<open>C8: The sequential server is a schedule of the concurrent one, over every database and protocol package:
  every state it reaches is reached by the pool of four threads, all idle. (In neither has a request
  that follows a null pointer a state after it.)\<close>

theorem sequential_is_schedule:
  assumes "gateway_reach D E g"
  shows "server_reach D E \<lparr>sv_gateway = g, sv_threads = replicate 4 InRun, sv_holder = None\<rparr>"
  using gateway_reaches [OF assms] by (simp add: idle_server_def)

lemma sequential_is_schedule_witness:
  "server_reach Storage_db sample_env
     \<lparr>sv_gateway = sv_gateway empty_server, sv_threads = replicate 4 InRun, sv_holder = None\<rparr>"
proof (rule sequential_is_schedule)
  have "gateway_main Storage_db sorted_ids empty_storage = Serving (sv_gateway empty_server)"
    by (simp add: gateway_main_def empty_server_def createChannelFromDb_def Storage_db_def sorted_ids_def
        Storage_connect_def Storage_getCurrentChannels_def QueryEngine_new_def start_world_def)
  then show "gateway_reach Storage_db sample_env (sv_gateway empty_server)" by (rule gateway_start)
qed

text \<open>C4: In every state the server reaches, over every database, protocol package and interleaving of
  accepts, reads, the steps of the requests on the pool's threads, writes and changes other clients
  make to the database, the shared state is well formed, what \<open>main\<close> holds is still there, and
  every write is for the socket of a session that was accepted.\<close>

theorem server_wellformed:
  assumes "server_reach D E st"
  shows "world_inv (sv_world st) \<and> w_db (sv_world st) \<noteq> None \<and> w_users (sv_world st) \<noteq> None \<and>
    (\<forall>q s b. w_queue (sv_world st) = Some q \<longrightarrow> (s, b) \<in> set q \<longrightarrow>
       s \<in> set (sessions_ptrs (g_acceptor (sv_gateway st))))"
proof -
  have ok: "server_inv (sv_world st)" "w_sessions (sv_world st) = accepted (sv_gateway st)"
    using server_reach_ok [OF assms] by (simp_all add: server_ok_def)
  then have "targets (accepted (sv_gateway st)) (sv_world st)" by (simp add: server_inv_def)
  then have "\<forall>q s b. w_queue (sv_world st) = Some q \<longrightarrow> (s, b) \<in> set q \<longrightarrow>
       s \<in> set (sessions_ptrs (g_acceptor (sv_gateway st)))"
    by (force simp: targets_def accepted_def)
  with ok(1) show ?thesis by (simp add: server_inv_def)
qed

lemma server_wellformed_witness: "world_inv (sv_world at_push) \<and> w_users (sv_world at_push) \<noteq> None"
  using server_wellformed [OF at_push_reach] by blast

text \<open>C11: The server acts only on what was sent: whatever bytes a peer sends, every request a thread has
  taken for its session, in any interleaving, is one of those the framing finds in the peer's
  stream, where only a body that the peer cuts short by closing is filled up with bytes of the body
  before and zeroes (\<open>requests_in\<close>); and if the stream is well-formed frames and a part of a header,
  it is the parse of one of those frames.\<close>

theorem requests_were_sent:
  assumes "server_reach D E st" and "(s, h, r) \<in> set (g_processed (sv_gateway st))" and "0 < size_header E"
  shows "(h, r) \<in> set (requests_in E [] (g_streams (sv_gateway st) s)) \<and>
    (\<forall>fs rest. g_streams (sv_gateway st) s = concat (map (\<lambda>f. fst f @ snd f) fs) @ rest \<and>
       (\<forall>f \<in> set fs. is_frame E f) \<and> length rest < size_header E \<longrightarrow> (h, r) \<in> parse_frame E ` set fs)"
proof -
  have src: "sources_inv E (sv_gateway st)" using server_reach_ok [OF assms(1)] by (simp add: server_ok_def)
  have job: "(h, r) \<in> jobs_of s (g_jobs (sv_gateway st) @ g_processed (sv_gateway st))"
    using assms(2) by (simp add: jobs_of_def)
  show ?thesis using sources_requests [OF src job assms(3)] sources_parsed [OF src job] by blast
qed

lemma requests_were_sent_witness:
  "(\<lparr>h_command = 1, h_length = 1\<rparr>, sample_request [97]) \<in> set (requests_in sample_env [] [1, 1, 97])"
  using requests_were_sent [OF at_push_reach, of 0 "\<lparr>h_command = 1, h_length = 1\<rparr>" "sample_request [97]"]
  by (simp add: at_push_sources)

text \<open>C14: However requests interleave, none follows a null pointer of the server's own: one that has ended
  has returned, or thrown an exception, or ended with a failure of the backend's functions. Channel
  pointers from the directory, users from the table and sessions are all still there when used.\<close>

theorem no_null_pointer:
  assumes "server_reach D E st" and "thread_at k st = Some (Executing (Done r))"
  shows "(\<exists>x. r = Inr x) \<or> (\<exists>x. r = Inl (Thrown x)) \<or> (\<exists>e. r = Inl e \<and> backend_failure D e)"
  using done_result [OF server_reach_ok [OF assms(1)] assms(2)] .

lemma no_null_pointer_witness:
  "\<exists>r. thread_at 0 at_end = Some (Executing (Done r)) \<and>
     ((\<exists>x. r = Inr x) \<or> (\<exists>x. r = Inl (Thrown x)) \<or> (\<exists>e. r = Inl e \<and> backend_failure Storage_db e))"
proof -
  obtain r where r: "thread_at 0 at_end = Some (Executing (Done r))" by (rule at_end_done)
  then show ?thesis using no_null_pointer [OF at_end_reach r] by blast
qed

text \<open>C13: The directory of channels is free of data races: two threads are never both about to access
  \<open>idChannels_\<close>, be it only to read it, in any interleaving, because each does so only while it holds
  the manager's mutex.\<close>

theorem directory_race_free:
  assumes "server_reach D E st"
  shows "\<not> racing IdChannels st \<and>
    (\<forall>j k. touches IdChannels (next_accesses j st) \<and> touches IdChannels (next_accesses k st) \<longrightarrow> j = k)"
proof
  show one: "\<forall>j k. touches IdChannels (next_accesses j st) \<and> touches IdChannels (next_accesses k st) \<longrightarrow> j = k"
    using guarded_next [OF server_reach_ok [OF assms]] by (metis option.inject)
  show "\<not> racing IdChannels st"
  proof
    assume "racing IdChannels st"
    then obtain j k a b where "j \<noteq> k" "a \<in> set (next_accesses j st)" "b \<in> set (next_accesses k st)"
      "place_of a = IdChannels" "place_of b = IdChannels"
      by (auto simp: racing_def conflict_def)
    then have "touches IdChannels (next_accesses j st)" "touches IdChannels (next_accesses k st)"
      unfolding touches_def by (metis image_eqI)+
    with one \<open>j \<noteq> k\<close> show False by blast
  qed
qed

lemma directory_race_free_witness: "\<not> racing IdChannels at_push"
  using directory_race_free [OF at_push_reach] by blast

text \<open>C25: Nothing a request has done to the shared objects is undone: from any reachable state, whatever
  happens next, every channel object keeps its name, its id and its members, every connected user
  and every directory entry stays, and no session is dropped.\<close>

theorem nothing_is_lost:
  assumes "server_reach D E st" and "server_run D E as st = Some st'"
  shows "(\<forall>r c. w_heap (sv_world st) r = Some c \<longrightarrow>
      (\<exists>c'. w_heap (sv_world st') r = Some c' \<and> ch_name c' = ch_name c \<and> ch_id c' = ch_id c \<and> idUsers c \<subseteq> idUsers c')) \<and>
    (\<forall>i u. getUser i (sv_world st) = (Inr (Some u), sv_world st) \<longrightarrow>
      (\<exists>u'. getUser i (sv_world st') = (Inr (Some u'), sv_world st') \<and> u_id u' = i)) \<and>
    dom (idChannels (sv_world st)) \<subseteq> dom (idChannels (sv_world st')) \<and>
    w_sessions (sv_world st) \<subseteq> w_sessions (sv_world st')"
proof -
  have ev: "evolves (sv_world st) (sv_world st')"
    using server_run_evolves [OF server_reach_ok [OF assms(1)] assms(2)] .
  have "world_inv (sv_world st')"
    using server_reach_ok [OF server_run_reach [OF assms]] by (simp add: server_ok_def server_inv_def)
  moreover have "\<exists>u'. getUser i (sv_world st') = (Inr (Some u'), sv_world st') \<and> u_id u' = i"
    if known: "getUser i (sv_world st) = (Inr (Some u), sv_world st)" for i u
  proof -
    obtain um where um: "w_users (sv_world st) = Some um" "UserManager_getUser i um = Some u"
      using known by (cases "w_users (sv_world st)") auto
    then obtain um' where um': "w_users (sv_world st') = Some um'"
      "dom (\<lambda>i. UserManager_getUser i um) \<subseteq> dom (\<lambda>i. UserManager_getUser i um')"
      using evolves_users [OF ev] by blast
    then obtain u' where u': "UserManager_getUser i um' = Some u'" using um(2) by blast
    have "users_inv um'" using calculation um'(1) by (rule world_inv_users)
    then show ?thesis using u' um'(1) getUser_id by fastforce
  qed
  ultimately show ?thesis using ev by (auto simp: evolves_def grown_def)
qed

lemma nothing_is_lost_witness:
  "dom (idChannels (sv_world at_push)) \<subseteq> dom (idChannels (sv_world at_end)) \<and>
   w_sessions (sv_world at_push) \<subseteq> w_sessions (sv_world at_end)"
  using nothing_is_lost [OF at_push_reach at_end_run] by blast

text \<open>C15: No request waits for ever, over any database: from every reachable state, with threads in the
  middle of whatever they do and one of them perhaps inside the mutex, the steps of the pool alone
  can bring every request to its end: the mutex is free, and every thread is idle again, unless its
  request has ended in a failure of the backend that is no exception.\<close>

theorem requests_finish:
  assumes "server_reach D E st"
  shows "\<exists>as st'. list_all pool_action as \<and> server_run D E as st = Some st' \<and> sv_holder st' = None \<and>
    (\<forall>x \<in> set (sv_threads st'). idle x \<or> crashed D x)"
proof -
  obtain as st' where run: "list_all pool_action as" "server_run D E as st = Some st'" "all_ended D st'"
    using pool_finishes [OF server_reach_ok [OF assms]] by blast
  have "server_ok D E st'" using server_reach_ok [OF server_run_reach [OF assms run(2)]] .
  from all_ended_holder [OF this run(3)] run show ?thesis unfolding all_ended_def by blast
qed

text \<open>\<open>Storage\<close> never fails, so over it every thread is idle again.\<close>

lemma Storage_never_crashes: "\<not> crashed Storage_db x"
proof -
  have "\<not> backend_failure Storage_db e" for e
    unfolding backend_failure_def fails_with_def Storage_db_def by simp
  then show ?thesis by (auto simp: crashed_def split: runner.splits prog.splits sum.splits failure.splits)
qed

lemma requests_finish_witness:
  "\<exists>as st'. server_run Storage_db sample_env as at_push = Some st' \<and> all_idle st'"
  using requests_finish [OF at_push_reach] Storage_never_crashes
  unfolding all_idle_def list_all_iff by blast

end
