(* ===== verification/Server_Races.thy ===== *)
theory Server_Races
  imports Server_Properties
begin

text \<open>
  Data races of the server over any backend: schedules that bring two requests to conflicting
  accesses of the table of users, of the members of one channel, and of the backend itself.
\<close>

section \<open>Bringing a thread to a point\<close>

text \<open>A thread runs up to a program, while the state becomes \<open>w'\<close>.\<close>

definition comes_to ::
  "('db, unit) request_prog \<Rightarrow> 'db world \<Rightarrow> ('db, unit) request_prog \<Rightarrow> 'db world \<Rightarrow> bool" where
  "comes_to p w q w' \<longleftrightarrow> (\<forall>k. steps_alone k (p, None, w) (q, None, w'))"

lemma comes_to_refl: "comes_to p w p w"
  by (simp add: comes_to_def alone_refl)

lemma comes_to_trans: "comes_to p w q v \<Longrightarrow> comes_to q v r u \<Longrightarrow> comes_to p w r u"
  unfolding comes_to_def by (blast intro: steps_alone_trans)

lemma comes_to_bind:
  assumes "disciplined guarded p False" and "run p w = (Inr x, v)" and "comes_to (f x) v q u"
  shows "comes_to (prog_bind p f) w q u"
proof (rule comes_to_trans [OF _ assms(3)])
  show "comes_to (prog_bind p f) w (f x) v"
    unfolding comes_to_def
    by (intro allI run_steps_bind [OF _ _ assms(2), of guarded]) (simp_all add: assms(1))
qed

text \<open>The accesses a program begins with.\<close>

lemma next_label_bind [simp]: "next_label (prog_bind (atom l m) f) = Some l"
  by (simp add: atom_def)

lemma next_label_small:
  "next_label (prog_bind (push_prog st) f) = Some [Reads IdClients, Writes IdClients, Writes (UserSession (us_id st))]"
  "next_label (prog_bind (insert_prog r i) f') = Some [Writes (IdUsers r)]"
  "next_label (prog_bind (members_prog r) f'') = Some [Reads (IdUsers r)]"
  "next_label (prog_bind (ask_db m) g) = Some [Writes Backend]"
  by (simp_all add: small_progs)

text \<open>One rule for each step on the way.\<close>

lemma comes_engine:
  "w_engine w \<Longrightarrow> comes_to p w q u \<Longrightarrow> comes_to (with_engine_prog p) w q u"
  unfolding with_engine_prog_def by (rule comes_to_bind [of _ _ True]) (simp_all add: discipline_rules run_simps)

lemma comes_check:
  "UserManager_checkRegUser D st w = (Inr i, v) \<Longrightarrow> comes_to (f i) v q u \<Longrightarrow>
   comes_to (prog_bind (checkRegUser_prog D st) f) w q u"
  by (rule comes_to_bind) (simp_all add: discipline_rules run_simps)

lemma comes_createOrGet:
  "createOrGetChannelByName D n w = (Inr p, v) \<Longrightarrow> comes_to (f p) v q u \<Longrightarrow>
   comes_to (prog_bind (createOrGet_prog D n) f) w q u"
  by (rule comes_to_bind) (simp_all add: discipline_rules run_simps)

lemma comes_getUser:
  "w_users w = Some um \<Longrightarrow> comes_to (f (UserManager_getUser i um)) w q u \<Longrightarrow>
   comes_to (prog_bind (getUser_prog i) f) w q u"
  by (rule comes_to_bind) (simp_all add: discipline_rules run_simps)

lemma comes_deref:
  "w_heap w r = Some c \<Longrightarrow> comes_to (f (r, c)) w q u \<Longrightarrow>
   comes_to (prog_bind (deref_prog (Some r)) f) w q u"
  by (rule comes_to_bind) (simp_all add: discipline_rules run_simps)

lemma comes_lock_users:
  "w_users w = Some um \<Longrightarrow> comes_to (f (Some um)) w q u \<Longrightarrow> comes_to (prog_bind lock_users f) w q u"
  by (rule comes_to_bind) (simp_all add: discipline_rules run_simps)

lemma comes_members:
  "comes_to (f (members r w)) w q u \<Longrightarrow> comes_to (prog_bind (members_prog r) f) w q u"
  by (rule comes_to_bind) (simp_all add: discipline_rules run_simps)

lemma comes_lock_db:
  "w_db w = Some d \<Longrightarrow> comes_to (f (Some d)) w q u \<Longrightarrow> comes_to (prog_bind lock_db f) w q u"
  by (rule comes_to_bind) (simp_all add: discipline_rules run_simps)

section \<open>The points of the races\<close>

text \<open>A registration comes to its push, if the database gives it an id.\<close>

lemma reg_comes_to_push:
  assumes "to_TypeCommand E (h_command h) = RegistrationRequest" and "registration_request r = Some c"
    and "w_engine w" and "UserManager_checkRegUser D (input_of c) w = (Inr i, w')" and "i \<noteq> 0"
  obtains f where "comes_to (processRequest_prog D E ord s h r) w (prog_bind (push_prog (settings_of s c i)) f) w'"
proof
  let ?f = "\<lambda>_. prog_bind (write_if_alive_prog s (serialize E (RegistrationResponseMsg i))) (\<lambda>_. prog_return ())"
  have "comes_to (prog_bind (if i \<noteq> REG_LOGIN_IS_BUSY then push_prog (settings_of s c i) else prog_return ()) ?f) w'
      (prog_bind (push_prog (settings_of s c i)) ?f) w'"
    using assms(5) comes_to_refl by (simp add: REG_LOGIN_IS_BUSY_def)
  then have "comes_to (reg_prog D E s c) w (prog_bind (push_prog (settings_of s c i)) ?f) w'"
    unfolding reg_prog_def by (rule comes_check [OF assms(4)])
  then show "comes_to (processRequest_prog D E ord s h r) w (prog_bind (push_prog (settings_of s c i)) ?f) w'"
    using assms(1-3) by (simp add: processRequest_prog_def comes_engine)
qed

text \<open>A join of a connected client comes to its insertion, and a text to its first look at the members.\<close>

lemma addUser_comes_to_insert:
  assumes "w_heap w r = Some c" and "w_users w = Some um" and "i \<notin> idUsers c"
  obtains f where "comes_to (prog_bind (Channel_addUser_prog E (Some r) i) g) w (prog_bind (insert_prog r i) f) w"
proof -
  have out: "(i \<notin> members r w) = True" using assms(1,3) by (simp add: members_def)
  have "\<exists>f. comes_to (prog_bind (Channel_addUser_prog E (Some r) i) g) w (prog_bind (insert_prog r i) f) w"
    unfolding Channel_addUser_prog_def prog_bind_assoc
    by (rule exI, rule comes_deref [OF assms(1)], simp only: prod.case prog_bind_assoc,
        rule comes_lock_users [OF assms(2)], simp only: option.case prog_bind_assoc,
        rule comes_members, simp only: out if_True prog_bind_assoc, rule comes_to_refl)
  then show thesis using that by blast
qed

lemma join_comes_to_insert:
  assumes "to_TypeCommand E (h_command h) = JoinRoomRequest" and "join_room_request r = Some jr"
    and "w_engine w" and "createOrGetChannelByName D (jr_channel_name jr) w = (Inr (Some ref), w')"
    and "w_heap w' ref = Some c" and "w_users w' = Some um"
    and "UserManager_getUser (jr_client_id jr) um = Some u" and "u_id u \<notin> idUsers c"
  obtains f where "comes_to (processRequest_prog D E ord s h r) w (prog_bind (insert_prog ref (u_id u)) f) w'"
proof -
  obtain f where "comes_to (prog_bind (Channel_addUser_prog E (Some ref) (u_id u))
      (\<lambda>_. joinClientChannel_prog D (jr_client_id jr) (jr_channel_name jr))) w'
      (prog_bind (insert_prog ref (u_id u)) f) w'"
    using addUser_comes_to_insert [OF assms(5,6,8)] by blast
  then have "comes_to (joinRoom_prog D E jr) w (prog_bind (insert_prog ref (u_id u)) f) w'"
    unfolding joinRoom_prog_def
    by (intro comes_createOrGet [OF assms(4)] comes_getUser [OF assms(6)]) (simp add: assms(7))
  then show thesis
    using assms(1-3) by (intro that [of f]) (simp add: processRequest_prog_def comes_engine)
qed

lemma text_comes_to_look:
  assumes "to_TypeCommand E (h_command h) = SendTextRequest" and "text_request r = Some tr"
    and "w_engine w" and "createOrGetChannelByName D (tr_channel_name tr) w = (Inr (Some ref), w')"
    and "w_heap w' ref = Some c" and "w_users w' = Some um"
  obtains f where "comes_to (processRequest_prog D E ord s h r) w (prog_bind (members_prog ref) f) w'"
proof -
  have "\<exists>f. comes_to (Channel_write_prog D E ord (Some ref) (text_message E tr)) w' (prog_bind (members_prog ref) f) w'"
    unfolding Channel_write_prog_def
    by (rule exI, rule comes_deref [OF assms(5)], simp only: prod.case,
        rule comes_lock_users [OF assms(6)], simp only: option.case, rule comes_to_refl)
  then obtain f where "comes_to (Channel_write_prog D E ord (Some ref) (text_message E tr)) w'
      (prog_bind (members_prog ref) f) w'" by blast
  then have "comes_to (sendText_prog D E ord tr) w (prog_bind (members_prog ref) f) w'"
    unfolding sendText_prog_def by (intro comes_createOrGet [OF assms(4)]) simp
  then show thesis
    using assms(1-3) by (intro that [of f]) (simp add: processRequest_prog_def comes_engine)
qed

text \<open>The requests that the engine begins with a call of the database: all but the list of channels,
  which first looks for the user.\<close>

definition asks_at_once :: "env \<Rightarrow> header \<Rightarrow> request \<Rightarrow> bool" where
  "asks_at_once E h r =
     (case to_TypeCommand E (h_command h) of
        RegistrationRequest \<Rightarrow> registration_request r \<noteq> None
      | AuthorisationRequest \<Rightarrow> authorisation_request r \<noteq> None
      | SendTextRequest \<Rightarrow> text_request r \<noteq> None
      | JoinRoomRequest \<Rightarrow> join_room_request r \<noteq> None
      | HistoryRequest \<Rightarrow> history_request r \<noteq> None
      | _ \<Rightarrow> False)"

definition comes_to_backend :: "('db, unit) request_prog \<Rightarrow> 'db world \<Rightarrow> bool" where
  "comes_to_backend p w \<longleftrightarrow> (\<exists>q. comes_to p w q w \<and> next_label q = Some [Writes Backend])"

lemma engine_comes_to_backend:
  assumes "w_db w \<noteq> None"
  shows "comes_to_backend (prog_bind (checkRegUser_prog D x) f) w"
    and "comes_to_backend (prog_bind (checkAuthUser_prog D x) f) w"
    and "comes_to_backend (prog_bind (createOrGet_prog D n) g) w"
proof -
  obtain d where d: "w_db w = Some d" using assms by blast
  show "comes_to_backend (prog_bind (checkRegUser_prog D x) f) w"
    "comes_to_backend (prog_bind (checkAuthUser_prog D x) f) w"
    "comes_to_backend (prog_bind (createOrGet_prog D n) g) w"
    unfolding comes_to_backend_def checkRegUser_prog_def checkAuthUser_prog_def createOrGet_prog_def prog_bind_assoc
    by (rule exI, rule conjI, rule comes_lock_db [OF d], simp only: option.case prog_bind_assoc,
        rule comes_to_refl, rule next_label_small)+
qed

lemma request_comes_to_backend:
  assumes "asks_at_once E h r" and "w_engine w" and "w_db w \<noteq> None"
  shows "comes_to_backend (processRequest_prog D E ord s h r) w"
proof -
  have engine: "comes_to_backend (with_engine_prog p) w" if "comes_to_backend p w" for p
    using that comes_engine [OF assms(2)] unfolding comes_to_backend_def by blast
  note rules = engine_comes_to_backend [OF assms(3)]
  have "comes_to_backend (reg_prog D E s c) w" "comes_to_backend (auth_prog D E s c) w"
    "comes_to_backend (sendText_prog D E ord t) w" "comes_to_backend (joinRoom_prog D E j) w"
    "comes_to_backend (getHistory_prog D E y) w" for c t j y
    unfolding reg_prog_def auth_prog_def sendText_prog_def joinRoom_prog_def getHistory_prog_def by (rule rules)+
  note comes = this [THEN engine]
  show ?thesis
    using assms(1) by (auto simp: asks_at_once_def processRequest_prog_def comes split: type_command.splits)
qed

section \<open>Two requests on two threads\<close>

lemma runs_to:
  assumes "comes_to p (sv_world st) q w" and "thread_at k st = Some (Executing p)" and "sv_holder st = None"
  shows "\<exists>as. server_run D E as st = Some (set_world w (set_thread k (Executing q) st))"
proof -
  have "steps_alone k (p, None, sv_world st) (q, None, w)" using assms(1) by (simp add: comes_to_def)
  from thread_runs [OF this, of st D E] assms(2,3)
  obtain as where "server_run D E as st = Some (set_world w (set_thread k (Executing q) st)\<lparr>sv_holder := None\<rparr>)"
    by auto
  moreover have "set_world w (set_thread k (Executing q) st)\<lparr>sv_holder := None\<rparr> = set_world w (set_thread k (Executing q) st)"
    using assms(3) by (auto simp: set_world_def set_thread_def)
  ultimately show ?thesis by auto
qed

lemma two_threads_meet:
  assumes "thread_at j st = Some InRun" and "thread_at k st = Some InRun" and "j \<noteq> k" and "sv_holder st = None"
    and "g_jobs (sv_gateway st) = (s, h, r) # (s', h', r') # js"
    and "comes_to (processRequest_prog D E ord s h r) (sv_world st) p w1"
    and "comes_to (processRequest_prog D E ord s' h' r') w1 p' w2"
  obtains as st' where "server_run D E as st = Some st'" and "thread_at j st' = Some (Executing p)"
    and "thread_at k st' = Some (Executing p')"
proof -
  let ?P = "processRequest_prog D E ord s h r" and ?P' = "processRequest_prog D E ord s' h' r'"
  let ?g1 = "(sv_gateway st)\<lparr>g_jobs := (s', h', r') # js, g_processed := g_processed (sv_gateway st) @ [(s, h, r)]\<rparr>"
  let ?st1 = "set_thread j (Executing ?P) (st\<lparr>sv_gateway := ?g1\<rparr>)"
  have pick1: "server_step D E (Picks j 0 ord) st = Some ?st1"
    using assms(1,5) by (simp add: Let_def del: thread_at_Some)
  have "thread_at k ?st1 = Some InRun" using assms(2,3) by (simp add: set_thread_def)
  let ?g2 = "?g1\<lparr>g_jobs := js, g_processed := g_processed ?g1 @ [(s', h', r')]\<rparr>"
  let ?st2 = "set_thread k (Executing ?P') (?st1\<lparr>sv_gateway := ?g2\<rparr>)"
  have pick2: "server_step D E (Picks k 0 ord) ?st1 = Some ?st2"
    using \<open>thread_at k ?st1 = Some InRun\<close> by (simp add: Let_def del: thread_at_Some)
  have st2: "thread_at j ?st2 = Some (Executing ?P)" "thread_at k ?st2 = Some (Executing ?P')"
    "sv_world ?st2 = sv_world st" "sv_holder ?st2 = None"
    using assms(1-4) by (simp_all add: sv_world_def set_thread_def)
  let ?st3 = "set_world w1 (set_thread j (Executing p) ?st2)"
  have "comes_to ?P (sv_world ?st2) p w1" using assms(6) by (simp only: st2(3))
  from runs_to [OF this st2(1,4), of D E]
  obtain as where run1: "server_run D E as ?st2 = Some ?st3" by blast
  have k3: "thread_at k ?st3 = Some (Executing ?P')" "sv_holder ?st3 = None"
    using assms(1-4) by (simp_all add: set_thread_def)
  have "comes_to ?P' (sv_world ?st3) p' w2" using assms(7) by simp
  from runs_to [OF this k3, of D E]
  obtain bs where run2: "server_run D E bs ?st3 = Some (set_world w2 (set_thread k (Executing p') ?st3))" by blast
  have run: "server_run D E (Picks j 0 ord # Picks k 0 ord # as @ bs) st =
      Some (set_world w2 (set_thread k (Executing p') ?st3))"
    using pick1 pick2 run1 run2 by (simp add: server_run_append del: server_step.simps)
  have "thread_at j (set_world w2 (set_thread k (Executing p') ?st3)) = Some (Executing p)"
    using st2(1) assms(3) by (simp add: set_thread_def)
  moreover have "thread_at k (set_world w2 (set_thread k (Executing p') ?st3)) = Some (Executing p')"
    using st2(2) by (simp add: set_thread_def)
  ultimately show thesis using run by (intro that)
qed

lemma racingI:
  assumes "thread_at j st = Some (Executing p)" and "thread_at k st = Some (Executing q)" and "j \<noteq> k"
    and "next_label p = Some l" and "next_label q = Some m"
    and "a \<in> set l" and "b \<in> set m" and "place_of a = x" and "conflict a b"
  shows "racing x st"
proof -
  have "a \<in> set (next_accesses j st)" "b \<in> set (next_accesses k st)"
    "j < length (sv_threads st)" "k < length (sv_threads st)"
    using assms by (simp_all add: next_accesses_def del: thread_at_Some) (simp_all add: thread_at_Some)
  then show ?thesis unfolding racing_def using assms(3,8,9) by blast
qed

section \<open>A backend for the examples\<close>

text \<open>\<open>Storage\<close> with a \<open>getChannelId\<close> that looks the name up, so that a channel can be used again.\<close>

definition lookup_storage :: "storage idatabase" where
  "lookup_storage = Storage_db\<lparr>db_getChannelId := (\<lambda>n. eff_gets (\<lambda>d.
     case nameIdChannels d n of None \<Rightarrow> 0 | Some i \<Rightarrow> i))\<rparr>"

definition lookup_server :: "storage server" where
  "lookup_server = empty_server"

lemma lookup_server_reach: "server_reach lookup_storage sample_env lookup_server"
proof (rule server_start)
  have "sorted_ids {} = []" by (simp add: sorted_ids_def)
  then show "server_main lookup_storage sorted_ids empty_storage = Some lookup_server"
    by (simp add: server_main_def gateway_main_def lookup_server_def empty_server_def createChannelFromDb_def
        lookup_storage_def Storage_db_def Storage_connect_def Storage_getCurrentChannels_def
        QueryEngine_new_def start_world_def AsyncContext_new_def WorkersPool_new_def)
qed

text \<open>One peer has registered and its join waits; another has sent a text that made the channel \<open>c\<close>,
  and its second text waits.\<close>

definition up_to_join :: "storage server_action list" where
  "up_to_join =
     [Accepts False [1, 1, 97, 7, 1, 99], Accepts False [5, 1, 99, 5, 1, 99],
      Reads_from 0, Reads_from 0, Reads_from 1, Reads_from 1, Picks 0 0 sorted_ids] @
     replicate 6 (Runs 0) @ [Ends 0, Picks 0 0 sorted_ids] @ replicate 16 (Runs 0) @
     [Ends 0, Reads_from 0, Reads_from 0, Reads_from 1, Reads_from 1]"

definition before_join :: "storage server" where
  "before_join = the (server_run lookup_storage sample_env up_to_join lookup_server)"

lemma before_join_run: "server_run lookup_storage sample_env up_to_join lookup_server = Some before_join"
  unfolding before_join_def by (rule ran) code_simp

lemma before_join_reach: "server_reach lookup_storage sample_env before_join"
  by (rule server_run_reach [OF lookup_server_reach before_join_run])

text \<open>Two peers have sent registrations, and no thread has taken one yet.\<close>

definition before_picks :: "storage server" where
  "before_picks = the (server_run Storage_db sample_env (take 6 two_registrations) empty_server)"

lemma before_picks_run:
  "server_run Storage_db sample_env (take 6 two_registrations) empty_server = Some before_picks"
  unfolding before_picks_def by (rule ran) code_simp

lemma before_picks_reach: "server_reach Storage_db sample_env before_picks"
  by (rule server_run_reach [OF empty_server_reach before_picks_run])

lemma sample_text: "text_of [97] = ''a''" "text_of [98] = ''b''" "text_of [99] = ''c''"
  by code_simp+

lemma freeI: "(case thread_at k st of Some InRun \<Rightarrow> True | _ \<Rightarrow> False) \<Longrightarrow> thread_at k st = Some InRun"
  by (auto simp del: thread_at_Some split: option.splits runner.splits)

lemma resultI: "fst x = a \<Longrightarrow> x = (a, snd x)"
  by auto

lemma before_picks_free:
  "thread_at 0 before_picks = Some InRun" "thread_at 1 before_picks = Some InRun" "sv_holder before_picks = None"
  by (rule freeI, code_simp)+ code_simp

lemma before_picks_jobs:
  "g_jobs (sv_gateway before_picks) =
     [(0, \<lparr>h_command = 1, h_length = 1\<rparr>, sample_request [97]), (1, \<lparr>h_command = 1, h_length = 1\<rparr>, sample_request [98])]"
  by code_simp

definition first_checked :: "storage world" where
  "first_checked = snd (UserManager_checkRegUser Storage_db \<lparr>clientName = ''a'', clientPassword = ''a''\<rparr> (sv_world before_picks))"

lemma before_picks_checks:
  "fst (UserManager_checkRegUser Storage_db \<lparr>clientName = ''a'', clientPassword = ''a''\<rparr> (sv_world before_picks)) = Inr 1"
  "fst (UserManager_checkRegUser Storage_db \<lparr>clientName = ''b'', clientPassword = ''b''\<rparr> first_checked) = Inr 2"
  by code_simp+

lemma before_join_free:
  "thread_at 0 before_join = Some InRun" "thread_at 1 before_join = Some InRun" "sv_holder before_join = None"
  by (rule freeI, code_simp)+ code_simp

lemma before_join_jobs:
  "g_jobs (sv_gateway before_join) =
     [(0, \<lparr>h_command = 7, h_length = 1\<rparr>, sample_request [99]), (1, \<lparr>h_command = 5, h_length = 1\<rparr>, sample_request [99])]"
  by code_simp

definition join_found :: "storage world" where
  "join_found = snd (createOrGetChannelByName lookup_storage ''c'' (sv_world before_join))"

lemma before_join_finds:
  "fst (createOrGetChannelByName lookup_storage ''c'' (sv_world before_join)) = Inr (Some 0)"
  by code_simp

lemma join_found_finds: "fst (createOrGetChannelByName lookup_storage ''c'' join_found) = Inr (Some 0)"
  by code_simp

lemma join_found_user:
  "(case w_users join_found of None \<Rightarrow> None | Some um \<Rightarrow> map_option u_id (UserManager_getUser 1 um)) = Some 1"
  by code_simp

lemma join_found_members: "1 \<notin> members 0 join_found"
  by code_simp

section \<open>Properties\<close>

text \<open>C16: Accesses to the table of users race, over any backend and protocol package: whenever two threads
  are free, nobody is in the mutex and the next two requests are registrations that the backend
  accepts one after the other, there is a schedule that brings both threads to an insertion into
  \<open>idClients_\<close> at once, from where the behaviour of the program is undefined.\<close>

theorem users_race:
  assumes "server_reach D E st" and "sv_holder st = None"
    and "thread_at j st = Some InRun" and "thread_at k st = Some InRun" and "j \<noteq> k"
    and "g_jobs (sv_gateway st) = (s, h, r) # (s', h', r') # js"
    and "to_TypeCommand E (h_command h) = RegistrationRequest" and "registration_request r = Some c"
    and "to_TypeCommand E (h_command h') = RegistrationRequest" and "registration_request r' = Some c'"
    and "UserManager_checkRegUser D (input_of c) (sv_world st) = (Inr i, v)" and "i \<noteq> 0"
    and "UserManager_checkRegUser D (input_of c') v = (Inr i', v')" and "i' \<noteq> 0"
  shows "\<exists>as st'. server_run D E as st = Some st' \<and> racing IdClients st'"
proof -
  have inv: "server_inv (sv_world st)" using server_reach_ok [OF assms(1)] by (simp add: server_ok_def)
  have "run (checkRegUser_prog D (input_of c)) (sv_world st) = (Inr i, v)"
    using assms(11) by (simp add: run_simps)
  from world_rg.sat_run(1) [OF accounts_sat(1) [of "\<lambda>_. True"] inv TrueI this] have inv1: "server_inv v"
    by (simp add: stable_logic)
  obtain f where f: "comes_to (processRequest_prog D E sorted_ids s h r) (sv_world st) (prog_bind (push_prog (settings_of s c i)) f) v"
    using reg_comes_to_push [OF assms(7,8) _ assms(11,12)] inv by (auto simp: server_inv_def)
  obtain f' where f': "comes_to (processRequest_prog D E sorted_ids s' h' r') v (prog_bind (push_prog (settings_of s' c' i')) f') v'"
    using reg_comes_to_push [OF assms(9,10) _ assms(13,14)] inv1 by (auto simp: server_inv_def)
  from two_threads_meet [OF assms(3-5,2,6) f f'] obtain as st' where run: "server_run D E as st = Some st'"
    and t: "thread_at j st' = Some (Executing (prog_bind (push_prog (settings_of s c i)) f))"
      "thread_at k st' = Some (Executing (prog_bind (push_prog (settings_of s' c' i')) f'))" .
  have "racing IdClients st'"
    by (rule racingI [OF t assms(5) next_label_small(1) next_label_small(1), of "Writes IdClients" "Writes IdClients"])
      (simp_all add: conflict_def)
  with run show ?thesis by blast
qed

lemma users_race_witness:
  "\<exists>as st'. server_run Storage_db sample_env as before_picks = Some st' \<and> racing IdClients st'"
proof -
  let ?c = "\<lparr>login = ''a'', password = ''a''\<rparr>" and ?c' = "\<lparr>login = ''b'', password = ''b''\<rparr>"
  have request: "to_TypeCommand sample_env (h_command \<lparr>h_command = 1, h_length = n\<rparr>) = RegistrationRequest" for n
    by (simp add: sample_command_def)
  have r: "registration_request (sample_request [97]) = Some ?c" "registration_request (sample_request [98]) = Some ?c'"
    by (simp_all add: sample_request_def sample_text)
  have "UserManager_checkRegUser Storage_db (input_of ?c) (sv_world before_picks) = (Inr 1, first_checked)"
    "fst (UserManager_checkRegUser Storage_db (input_of ?c') first_checked) = Inr 2"
    using before_picks_checks resultI [OF before_picks_checks(1)] by (simp_all add: input_of_def first_checked_def)
  note checks = this(1) this(2) [THEN resultI]
  show ?thesis
    by (rule users_race [OF before_picks_reach before_picks_free(3,1,2) _ before_picks_jobs request r(1) request r(2)
          checks(1) _ checks(2)]) simp_all
qed

text \<open>C17: Accesses to a channel's members race too: whenever two threads are free, nobody is in the mutex
  and the next two requests are a connected client's join of a channel it is not in and a text for
  the same channel object, there is a schedule that brings one thread to the insertion into
  \<open>idUsers_\<close> and the other to its look at \<open>idUsers_\<close> at once, over any backend and protocol package.\<close>

theorem members_race:
  assumes "server_reach D E st" and "sv_holder st = None"
    and "thread_at j st = Some InRun" and "thread_at k st = Some InRun" and "j \<noteq> k"
    and "g_jobs (sv_gateway st) = (s, h, r) # (s', h', r') # js"
    and "to_TypeCommand E (h_command h) = JoinRoomRequest" and "join_room_request r = Some jr"
    and "to_TypeCommand E (h_command h') = SendTextRequest" and "text_request r' = Some tr"
    and "createOrGetChannelByName D (jr_channel_name jr) (sv_world st) = (Inr (Some ref), v)"
    and "createOrGetChannelByName D (tr_channel_name tr) v = (Inr (Some ref), v')"
    and "w_users v = Some um" and "UserManager_getUser (jr_client_id jr) um = Some u"
    and "u_id u \<notin> members ref v"
  shows "\<exists>as st'. server_run D E as st = Some st' \<and> racing (IdUsers ref) st'"
proof -
  have inv: "server_inv (sv_world st)" using server_reach_ok [OF assms(1)] by (simp add: server_ok_def)
  have "request_sat D (\<lambda>_. True) (createOrGet_prog D n) points" for n
    by (rule createOrGet_sat) (simp add: stable_logic)
  note got = world_rg.sat_run [OF this _ TrueI, unfolded run_createOrGet]
  note got1 = got [OF inv assms(11)]
  note got2 = got [OF got1(1) assms(12)]
  have engine: "w_engine (sv_world st)" "w_engine v" using inv got1(1) by (simp_all add: server_inv_def)
  obtain c where c: "w_heap v ref = Some c" using got1(3) by (auto simp: points_def)
  then have out: "u_id u \<notin> idUsers c" using assms(15) by (simp add: members_def)
  obtain f where
    f: "comes_to (processRequest_prog D E sorted_ids s h r) (sv_world st) (prog_bind (insert_prog ref (u_id u)) f) v"
    using join_comes_to_insert [OF assms(7,8) engine(1) assms(11) c assms(13,14) out] by blast
  obtain c' um' where c': "w_heap v' ref = Some c'" "w_users v' = Some um'"
    using got2(1,3) by (auto simp: points_def server_inv_def)
  obtain f' where
    f': "comes_to (processRequest_prog D E sorted_ids s' h' r') v (prog_bind (members_prog ref) f') v'"
    using text_comes_to_look [OF assms(9,10) engine(2) assms(12) c'] by blast
  from two_threads_meet [OF assms(3-5,2,6) f f'] obtain as st' where run: "server_run D E as st = Some st'"
    and t: "thread_at j st' = Some (Executing (prog_bind (insert_prog ref (u_id u)) f))"
      "thread_at k st' = Some (Executing (prog_bind (members_prog ref) f'))" .
  have "racing (IdUsers ref) st'"
    by (rule racingI [OF t assms(5) next_label_small(2,3), of "Writes (IdUsers ref)" "Reads (IdUsers ref)"])
      (simp_all add: conflict_def)
  with run show ?thesis by blast
qed

lemma members_race_witness:
  "\<exists>as st'. server_run lookup_storage sample_env as before_join = Some st' \<and> racing (IdUsers 0) st'"
proof -
  let ?b = "sample_request [99]"
  have request: "to_TypeCommand sample_env (h_command \<lparr>h_command = 7, h_length = n\<rparr>) = JoinRoomRequest"
    "to_TypeCommand sample_env (h_command \<lparr>h_command = 5, h_length = n\<rparr>) = SendTextRequest" for n
    by (simp_all add: sample_command_def)
  let ?jr = "the (join_room_request ?b)" and ?tr = "the (text_request ?b)"
  have r: "join_room_request ?b = Some ?jr" "text_request ?b = Some ?tr"
    and names: "jr_channel_name ?jr = ''c''" "tr_channel_name ?tr = ''c''" "jr_client_id ?jr = 1"
    by (simp_all add: sample_request_def sample_text)
  have found: "createOrGetChannelByName lookup_storage (jr_channel_name ?jr) (sv_world before_join) = (Inr (Some 0), join_found)"
    unfolding names join_found_def by (rule resultI [OF before_join_finds])
  have again: "fst (createOrGetChannelByName lookup_storage (tr_channel_name ?tr) join_found) = Inr (Some 0)"
    unfolding names by (rule join_found_finds)
  obtain um u where u: "w_users join_found = Some um" "UserManager_getUser (jr_client_id ?jr) um = Some u" "u_id u = 1"
    using join_found_user names(3) by (auto split: option.splits)
  have "u_id u \<notin> members 0 join_found" using u(3) join_found_members by simp
  from members_race [OF before_join_reach before_join_free(3,1,2) _ before_join_jobs request(1) r(1)
      request(2) r(2) found resultI [OF again] u(1,2) this]
  show ?thesis by simp
qed

text \<open>C18: The database is called by several threads at once, and nothing in the server prevents it: whenever
  two threads are free, nobody is in the mutex and the next two requests are any of registration,
  authorisation, text, join or history, there is a schedule that brings both threads to a call of
  the one backend at the same time (every call counts as a write of it). \<open>WrapperPg\<close> has a mutex of
  its own for that; \<open>Storage\<close> has none, and two registrations then insert into its maps at once.\<close>

theorem backend_race:
  assumes "server_reach D E st" and "sv_holder st = None"
    and "thread_at j st = Some InRun" and "thread_at k st = Some InRun" and "j \<noteq> k"
    and "g_jobs (sv_gateway st) = (s, h, r) # (s', h', r') # js"
    and "asks_at_once E h r" and "asks_at_once E h' r'"
  shows "\<exists>as st'. server_run D E as st = Some st' \<and> racing Backend st'"
proof -
  have inv: "server_inv (sv_world st)" using server_reach_ok [OF assms(1)] by (simp add: server_ok_def)
  then have lives: "w_engine (sv_world st)" "w_db (sv_world st) \<noteq> None" by (auto simp: server_inv_def)
  obtain q where q: "comes_to (processRequest_prog D E sorted_ids s h r) (sv_world st) q (sv_world st)"
    "next_label q = Some [Writes Backend]"
    using request_comes_to_backend [OF assms(7) lives] unfolding comes_to_backend_def by blast
  obtain q' where q': "comes_to (processRequest_prog D E sorted_ids s' h' r') (sv_world st) q' (sv_world st)"
    "next_label q' = Some [Writes Backend]"
    using request_comes_to_backend [OF assms(8) lives] unfolding comes_to_backend_def by blast
  from two_threads_meet [OF assms(3-5,2,6) q(1) q'(1)] obtain as st' where run: "server_run D E as st = Some st'"
    and t: "thread_at j st' = Some (Executing q)" "thread_at k st' = Some (Executing q')" .
  have "racing Backend st'"
    by (rule racingI [OF t assms(5) q(2) q'(2), of "Writes Backend" "Writes Backend"]) (simp_all add: conflict_def)
  with run show ?thesis by blast
qed

lemma backend_race_witness:
  "\<exists>as st'. server_run Storage_db sample_env as before_picks = Some st' \<and> racing Backend st'"
proof -
  have asks: "asks_at_once sample_env \<lparr>h_command = 1, h_length = 1\<rparr> (sample_request [97])"
    "asks_at_once sample_env \<lparr>h_command = 1, h_length = 1\<rparr> (sample_request [98])"
    by code_simp+
  show ?thesis
    by (rule backend_race [OF before_picks_reach before_picks_free(3,1,2) _ before_picks_jobs asks]) simp
qed

end
