(* ===== verification/Shutdown.thy ===== *)
theory Shutdown
  imports Server_Properties
begin

text \<open>
  The life of the objects \<open>main\<close> owns: the constructors of \<open>SocketWriter\<close>, \<open>ClientSession\<close> and
  \<open>AcceptProcess\<close>, the way \<open>main\<close> leaves \<open>run\<close> when an exception comes out of a handler of the
  network thread, and the destructors that run then, one after the other, while the threads of the
  request pool and of the write queue go on. Tasks hold a plain \<open>this\<close> of their session or its
  writer, so a task that starts after its session is gone uses a destroyed object.
\<close>

section \<open>Constructors\<close>

text \<open>Objects are named by addresses, a smart pointer is an optional address, and a socket has the
  number of its session.\<close>

type_synonym address = nat

record socket_writer =
  socketWeak :: "session option"
  sw_queue :: "address option"

definition SocketWriter_new :: "address option \<Rightarrow> session option \<Rightarrow> socket_writer" where
  "SocketWriter_new queue sock = \<lparr>socketWeak = sock, sw_queue = queue\<rparr>"

record client_session =
  cs_ctx :: "address option"
  cs_engine :: "address option"
  cs_socket :: "session option"
  cs_queue :: "address option"
  cs_writer :: "socket_writer option"
  coroData :: coro_data

definition ClientSession_new ::
  "env \<Rightarrow> address option \<Rightarrow> address option \<Rightarrow> session \<Rightarrow> address option \<Rightarrow> exn + client_session" where
  "ClientSession_new E ctxWeak engine s queue =
     (let sock = Some s;
          writer = Some (SocketWriter_new queue sock)
      in if sock = None then Inl (Invalid_argument ''incorrect socket'')
         else if writer = None then Inl (Invalid_argument ''writer_ is failed'')
         else Inr \<lparr>cs_ctx = ctxWeak, cs_engine = engine, cs_socket = sock, cs_queue = queue,
                   cs_writer = writer, coroData = new_coro E\<rparr>)"

text \<open>\<open>make_shared\<close> never gives null, so neither check of the constructor can fail.\<close>

lemma ClientSession_new_succeeds:
  "ClientSession_new E ctx engine s queue = Inr \<lparr>cs_ctx = ctx, cs_engine = engine, cs_socket = Some s,
     cs_queue = queue, cs_writer = Some (SocketWriter_new queue (Some s)), coroData = new_coro E\<rparr>"
  by (simp add: ClientSession_new_def Let_def)

text \<open>The acceptor binds and listens in the constructor of \<open>AcceptProcess\<close>; whether the port can be
  had is up to the system.\<close>

record accept_process =
  ap_ctx :: "address option"
  ap_engine :: "address option"
  ap_port :: int
  ap_queue :: "address option"
  ap_loop :: acceptor \<comment> \<open>\<open>coroAccept_\<close> and \<open>sessions_\<close>\<close>

definition AcceptProcess_new ::
  "(int \<Rightarrow> bool) \<Rightarrow> address option \<Rightarrow> address option \<Rightarrow> int \<Rightarrow> address option \<Rightarrow> exn + accept_process" where
  "AcceptProcess_new can_bind ctxWeak engine port queue =
     (if can_bind port then
        Inr \<lparr>ap_ctx = ctxWeak, ap_engine = engine, ap_port = port, ap_queue = queue, ap_loop = fst runAccept\<rparr>
      else Inl (System_error ''bind''))"

text \<open>The session that \<open>doAccept\<close> makes shares the pool, the engine and the queue of the acceptor.\<close>

definition make_session :: "env \<Rightarrow> accept_process \<Rightarrow> session \<Rightarrow> exn + client_session" where
  "make_session E a s = ClientSession_new E (ap_ctx a) (ap_engine a) s (ap_queue a)"

lemma accepted_session:
  assumes "AcceptProcess_new can_bind ctx engine port queue = Inr a"
  shows "\<exists>c. make_session E a s = Inr c \<and> cs_ctx c = ctx \<and> cs_engine c = engine \<and>
    cs_writer c = Some \<lparr>socketWeak = Some s, sw_queue = queue\<rparr> \<and> coro (coroData c) = AtStart"
  using assms
  by (auto simp: AcceptProcess_new_def make_session_def ClientSession_new_succeeds SocketWriter_new_def
      new_coro_def split: if_splits)

section \<open>What main owns\<close>

datatype owned = Database | Users_manager | Channels_manager | Engine | Context | Queue | Network

definition main_locals :: "owned list" where
  \<comment> \<open>in the order of their construction\<close>
  "main_locals = [Database, Users_manager, Channels_manager, Engine, Context, Queue, Network]"

datatype destruction =
    Stop_network \<comment> \<open>\<open>~AcceptProcess\<close>\<close>
  | Delete_session session \<comment> \<open>\<open>sessions_\<close>; \<open>~ClientSession\<close> closes the socket, its writer goes too\<close>
  | Drop_handlers \<comment> \<open>\<open>networkContext_\<close>\<close>
  | Quit_queue
  | Join_queue
  | Stop_pool
  | Join_pool
  | Delete_engine
  | Delete_channels
  | Delete_users
  | Delete_db

text \<open>\<open>~AcceptProcess\<close> stops the network and closes its socket; then its members go, from the last
  declared to the first: \<open>sessions_\<close> before \<open>networkContext_\<close>.\<close>

definition AcceptProcess_delete :: "session list \<Rightarrow> destruction list" where
  "AcceptProcess_delete ss = Stop_network # map Delete_session ss @ [Drop_handlers]"

definition ThreadSafeQueue_delete :: "destruction list" where
  "ThreadSafeQueue_delete = [Quit_queue, Join_queue]"

definition WorkersPool_delete :: "destruction list" where
  "WorkersPool_delete = [Stop_pool, Join_pool]"

fun destructor :: "session list \<Rightarrow> owned \<Rightarrow> destruction list" where
  "destructor ss Network = AcceptProcess_delete ss"
| "destructor ss Queue = ThreadSafeQueue_delete"
| "destructor ss Context = WorkersPool_delete"
| "destructor ss Engine = [Delete_engine]"
| "destructor ss Channels_manager = [Delete_channels]"
| "destructor ss Users_manager = [Delete_users]"
| "destructor ss Database = [Delete_db]"

definition unwind :: "session list \<Rightarrow> destruction list" where
  "unwind ss = concat (map (destructor ss) (rev main_locals))"

section \<open>The process\<close>

record 'db process =
  pr_server :: "'db server"
  pr_main :: "destruction list option" \<comment> \<open>\<open>None\<close> in \<open>run\<close>, then what is left to destroy\<close>
  pr_left :: "write_task list" \<comment> \<open>tasks of the queue while it is being destroyed\<close>
  pr_writing :: "session set" \<comment> \<open>writers with an \<open>async_write\<close> in flight, whose handler has their mutex locked\<close>
  pr_serving :: "nat \<Rightarrow> session option" \<comment> \<open>history: the session whose request each pool thread took last\<close>

text \<open>The pool, the engine and the queue are the objects 0, 1 and 2.\<close>

definition process_main ::
  "(int \<Rightarrow> bool) \<Rightarrow> 'db idatabase \<Rightarrow> (type_id_user set \<Rightarrow> type_id_user list) \<Rightarrow> 'db \<Rightarrow> 'db process option" where
  "process_main can_bind D ord d =
     (case server_main D ord d of
        None \<Rightarrow> None
      | Some st \<Rightarrow>
          (case AcceptProcess_new can_bind (Some 0) (Some 1) 7777 (Some 2) of
             Inl e \<Rightarrow> None
           | Inr a \<Rightarrow>
               Some \<lparr>pr_server = st\<lparr>sv_gateway := (sv_gateway st)\<lparr>g_acceptor := ap_loop a\<rparr>\<rparr>,
                     pr_main = None, pr_left = [], pr_writing = {},
                     pr_serving = (\<lambda>_. None)\<rparr>))"

abbreviation pr_world :: "'db process \<Rightarrow> 'db world" where
  "pr_world p \<equiv> sv_world (pr_server p)"

definition in_world :: "('db world \<Rightarrow> 'db world) \<Rightarrow> 'db process \<Rightarrow> 'db process" where
  "in_world f p = p\<lparr>pr_server := set_world (f (pr_world p)) (pr_server p)\<rparr>"

text \<open>The tasks workers can take: those of the queue, or of the queue being destroyed.\<close>

definition write_tasks :: "'db process \<Rightarrow> write_task list" where
  "write_tasks p = (case w_queue (pr_world p) of Some q \<Rightarrow> q | None \<Rightarrow> pr_left p)"

definition set_tasks :: "write_task list \<Rightarrow> 'db process \<Rightarrow> 'db process" where
  "set_tasks ts p =
     (case w_queue (pr_world p) of
        Some _ \<Rightarrow> in_world (\<lambda>w. w\<lparr>w_queue := Some ts\<rparr>) p
      | None \<Rightarrow> p\<lparr>pr_left := ts\<rparr>)"

text \<open>\<open>~ClientSession\<close> closes the socket; afterwards no weak pointer to the session can be locked.\<close>

definition ClientSession_delete :: "session \<Rightarrow> 'db process \<Rightarrow> 'db process" where
  "ClientSession_delete s p = in_world (\<lambda>w. w\<lparr>w_sessions := w_sessions w - {s}\<rparr>) p"

fun destroy :: "destruction \<Rightarrow> 'db process \<Rightarrow> 'db process option" where
  "destroy Stop_network p = Some p"
| "destroy (Delete_session s) p = Some (ClientSession_delete s p)"
| "destroy Drop_handlers p = Some (p\<lparr>pr_writing := {}\<rparr>)"
| "destroy Quit_queue p = Some (in_world (\<lambda>w. w\<lparr>w_queue := None\<rparr>) (p\<lparr>pr_left := write_tasks p\<rparr>))"
| "destroy Join_queue p = Some (p\<lparr>pr_left := []\<rparr>)"
| "destroy Stop_pool p = Some p"
| "destroy Join_pool p =
     (if all_idle (pr_server p)
      then Some (p\<lparr>pr_server := (pr_server p)\<lparr>sv_threads := map (\<lambda>_. Exited) (sv_threads (pr_server p))\<rparr>\<rparr>)
      else None)"
| "destroy Delete_engine p = Some (in_world (\<lambda>w. w\<lparr>w_engine := False\<rparr>) p)"
| "destroy Delete_channels p = Some (in_world (\<lambda>w. w\<lparr>idChannels := Map.empty, w_heap := Map.empty\<rparr>) p)"
| "destroy Delete_users p = Some (in_world (\<lambda>w. w\<lparr>w_users := None\<rparr>) p)"
| "destroy Delete_db p = Some (in_world (\<lambda>w. w\<lparr>w_db := None\<rparr>) p)"

section \<open>Steps\<close>

text \<open>
  A header has arrived that announces a body the allocator cannot give room for: \<open>resize\<close> in
  \<open>runRead\<close> throws, out of the handler, out of \<open>run\<close>, and into the handler of \<open>main\<close>.
\<close>

definition oversized :: "(nat \<Rightarrow> bool) \<Rightarrow> env \<Rightarrow> session \<Rightarrow> 'db gateway \<Rightarrow> bool" where
  "oversized alloc E s g =
     (case g_conns g s of
        None \<Rightarrow> False
      | Some k \<Rightarrow>
          (case pending k of
             Some (IntoHeader, n) \<Rightarrow>
               coro (co k) = AfterHeader \<and> n \<le> length (incoming k) \<and>
               \<not> alloc (h_length (ParseHeader E (bufferHeader (store IntoHeader (take n (incoming k)) (co k)))))
           | _ \<Rightarrow> False))"

datatype 'db process_action =
    Serves "'db server_action"
  | Starts_write
  | Write_done session
  | Throws session "session list" \<comment> \<open>and the order \<open>sessions_\<close> will be destroyed in\<close>
  | Unwinds

definition ahead :: "destruction \<Rightarrow> 'db process \<Rightarrow> bool" where
  "ahead d p = (case pr_main p of None \<Rightarrow> True | Some ds \<Rightarrow> d \<in> set ds)"

definition may :: "(nat \<Rightarrow> bool) \<Rightarrow> env \<Rightarrow> 'db server_action \<Rightarrow> 'db process \<Rightarrow> bool" where
  "may alloc E a p =
     (case a of
        Accepts _ _ \<Rightarrow> pr_main p = None
      | Reads_from s \<Rightarrow> pr_main p = None \<and> \<not> oversized alloc E s (sv_gateway (pr_server p))
      | Picks _ _ _ \<Rightarrow> ahead Stop_pool p
      | Runs _ \<Rightarrow> ahead Join_pool p
      | Ends _ \<Rightarrow> ahead Join_pool p
      | Sends \<Rightarrow> False
      | Db_changes _ \<Rightarrow> True)"

definition noted :: "'db server_action \<Rightarrow> 'db process \<Rightarrow> 'db process" where
  "noted a p =
     (case a of
        Picks k i _ \<Rightarrow> p\<lparr>pr_serving := (pr_serving p)(k := Some (fst (g_jobs (sv_gateway (pr_server p)) ! i)))\<rparr>
      | _ \<Rightarrow> p)"

fun process_step ::
  "(nat \<Rightarrow> bool) \<Rightarrow> 'db idatabase \<Rightarrow> env \<Rightarrow> 'db process_action \<Rightarrow> 'db process \<Rightarrow> 'db process option" where
  "process_step alloc D E (Serves a) p =
     (if may alloc E a p then map_option (\<lambda>st. noted a p\<lparr>pr_server := st\<rparr>) (server_step D E a (pr_server p)) else None)"
| "process_step alloc D E Starts_write p =
     (if ahead Join_queue p then
        case write_tasks p of
          [] \<Rightarrow> None
        | (s, m) # ts \<Rightarrow>
            if s \<in> w_sessions (pr_world p) then
              (if s \<in> pr_writing p then None else Some (set_tasks ts (p\<lparr>pr_writing := insert s (pr_writing p)\<rparr>)))
            else Some (set_tasks ts p)
      else None)"
| "process_step alloc D E (Write_done s) p =
     (if pr_main p = None \<and> s \<in> pr_writing p then Some (p\<lparr>pr_writing := pr_writing p - {s}\<rparr>) else None)"
| "process_step alloc D E (Throws s ss) p =
     (if pr_main p = None \<and> oversized alloc E s (sv_gateway (pr_server p)) \<and>
         distinct ss \<and> set ss = set (sessions_ptrs (g_acceptor (sv_gateway (pr_server p))))
      then Some (p\<lparr>pr_main := Some (unwind ss)\<rparr>) else None)"
| "process_step alloc D E Unwinds p =
     (case pr_main p of
        Some (d # ds) \<Rightarrow> map_option (\<lambda>q. q\<lparr>pr_main := Some ds\<rparr>) (destroy d p)
      | _ \<Rightarrow> None)"

inductive process_reach :: "(nat \<Rightarrow> bool) \<Rightarrow> 'db idatabase \<Rightarrow> env \<Rightarrow> 'db process \<Rightarrow> bool"
  for alloc :: "nat \<Rightarrow> bool" and D :: "'db idatabase" and E :: env where
  process_start: "process_main can_bind D ord d = Some p \<Longrightarrow> process_reach alloc D E p"
| process_next: "process_reach alloc D E p \<Longrightarrow> process_step alloc D E a p = Some p' \<Longrightarrow> process_reach alloc D E p'"

fun process_run ::
  "(nat \<Rightarrow> bool) \<Rightarrow> 'db idatabase \<Rightarrow> env \<Rightarrow> 'db process_action list \<Rightarrow> 'db process \<Rightarrow> 'db process option" where
  "process_run alloc D E [] p = Some p"
| "process_run alloc D E (a # as) p =
     (case process_step alloc D E a p of None \<Rightarrow> None | Some p' \<Rightarrow> process_run alloc D E as p')"

text \<open>Steps that use an object already destroyed: a thread that starts a request of a session that is
  gone, a worker that starts a write of a writer that is gone, and the destruction of a handler
  that unlocks the mutex of a writer that is gone.\<close>

definition dangling :: "'db process_action \<Rightarrow> 'db process \<Rightarrow> bool" where
  "dangling a p =
     (case a of
        Serves (Picks k i ord) \<Rightarrow>
          i < length (g_jobs (sv_gateway (pr_server p))) \<and>
          fst (g_jobs (sv_gateway (pr_server p)) ! i) \<notin> w_sessions (pr_world p)
      | Starts_write \<Rightarrow> (case write_tasks p of [] \<Rightarrow> False | t # ts \<Rightarrow> fst t \<notin> w_sessions (pr_world p))
      | Unwinds \<Rightarrow>
          (case pr_main p of
             Some (Drop_handlers # ds) \<Rightarrow> \<not> pr_writing p \<subseteq> w_sessions (pr_world p)
           | _ \<Rightarrow> False)
      | _ \<Rightarrow> False)"

text \<open>
  More cautiously, the steps for which it is enough that an object they work for is gone: also every
  step of a request whose session is gone, reads and writes that complete for a session that is
  gone, an accept without the acceptor, steps of a pool or a queue whose threads have been joined, and
  a session destroyed twice. The buffers of write tasks belong to the tasks, not to \<open>main\<close>; they are
  the matter of theory \<open>Socket_Writer\<close>.
\<close>

definition uses_destroyed :: "'db process_action \<Rightarrow> 'db process \<Rightarrow> bool" where
  "uses_destroyed a p \<longleftrightarrow> dangling a p \<or>
     (case a of
        Serves b \<Rightarrow>
          (case b of
             Accepts _ _ \<Rightarrow> \<not> ahead Stop_network p
           | Reads_from s \<Rightarrow> s \<notin> w_sessions (pr_world p) \<or> \<not> ahead Stop_network p
           | Picks _ _ _ \<Rightarrow> \<not> ahead Join_pool p
           | Runs k \<Rightarrow> \<not> ahead Join_pool p \<or>
               (case pr_serving p k of None \<Rightarrow> True | Some s \<Rightarrow> s \<notin> w_sessions (pr_world p))
           | Ends k \<Rightarrow> \<not> ahead Join_pool p \<or>
               (case pr_serving p k of None \<Rightarrow> True | Some s \<Rightarrow> s \<notin> w_sessions (pr_world p))
           | _ \<Rightarrow> False)
      | Starts_write \<Rightarrow> \<not> ahead Join_queue p
      | Write_done s \<Rightarrow> s \<notin> w_sessions (pr_world p) \<or> \<not> ahead Stop_network p
      | Throws s _ \<Rightarrow> s \<notin> w_sessions (pr_world p) \<or> \<not> ahead Stop_network p
      | Unwinds \<Rightarrow>
          (case pr_main p of
             Some (Delete_session s # ds) \<Rightarrow> s \<notin> w_sessions (pr_world p)
           | _ \<Rightarrow> False))"

section \<open>While main is in run\<close>

declare ClientSession_delete_def [simp]

lemma in_world_fields [simp]:
  "pr_world (in_world f p) = f (pr_world p)" "pr_main (in_world f p) = pr_main p"
  "pr_left (in_world f p) = pr_left p" "pr_writing (in_world f p) = pr_writing p"
  "pr_serving (in_world f p) = pr_serving p"
  "sv_threads (pr_server (in_world f p)) = sv_threads (pr_server p)"
  "sv_holder (pr_server (in_world f p)) = sv_holder (pr_server p)"
  by (simp_all add: in_world_def)

lemma noted_fields [simp]:
  "pr_server (noted a p) = pr_server p" "pr_main (noted a p) = pr_main p" "pr_left (noted a p) = pr_left p"
  "pr_writing (noted a p) = pr_writing p"
  by (simp_all add: noted_def split: server_action.split)

lemma set_tasks_fields [simp]:
  "pr_serving (set_tasks ts p) = pr_serving p" "pr_main (set_tasks ts p) = pr_main p" "pr_writing (set_tasks ts p) = pr_writing p"
  "w_sessions (pr_world (set_tasks ts p)) = w_sessions (pr_world p)"
  "sv_threads (pr_server (set_tasks ts p)) = sv_threads (pr_server p)"
  by (simp_all add: set_tasks_def split: option.split)

lemma server_start_fields:
  assumes "server_main D ord d = Some st"
  shows "g_acceptor (sv_gateway st) = fst runAccept" and "\<not> thread_at k st = Some (Executing q)"
  using assms by (auto simp: server_main_def gateway_main_def AsyncContext_new_def WorkersPool_new_def
      split: outcome.splits prod.splits sum.splits if_splits)

text \<open>Until something is thrown, the process is the server of theory \<open>Server\<close>.\<close>

definition serving :: "'db idatabase \<Rightarrow> env \<Rightarrow> 'db process \<Rightarrow> bool" where
  "serving D E p \<longleftrightarrow> (pr_main p = None \<longrightarrow>
     server_reach D E (pr_server p) \<and> pr_writing p \<subseteq> w_sessions (pr_world p) \<and>
     (\<forall>k q. thread_at k (pr_server p) = Some (Executing q) \<longrightarrow>
        (\<exists>s \<in> w_sessions (pr_world p). pr_serving p k = Some s)))"

text \<open>A thread that executes after a step has executed before it, or has just taken its request.\<close>

lemma executing_step:
  assumes "server_step D E a st = Some st'" and "thread_at k st' = Some (Executing q)"
  shows "(\<exists>p. thread_at k st = Some (Executing p)) \<and> (\<forall>i ord. a \<noteq> Picks k i ord) \<or>
    (\<exists>i ord. a = Picks k i ord \<and> i < length (g_jobs (sv_gateway st)))"
proof (cases a)
  case (Picks j i ord)
  then show ?thesis
    using assms by (cases "j = k")
      (auto simp: Let_def set_thread_def nth_list_update split: option.splits runner.splits if_splits prod.splits)
next
  case (Runs j)
  then show ?thesis
    using assms by (cases "j = k") (auto elim!: runs_cases simp: nth_list_update simp del: server_step.simps)
next
  case (Ends j)
  then have "st' = set_thread j InRun st"
    using assms(1) by (auto simp del: thread_at_Some
        split: option.splits runner.splits prog.splits sum.splits failure.splits)
  then show ?thesis using assms(2) Ends by (cases "j = k") auto
qed (use assms in \<open>auto simp: on_gateway_def simp del: gateway_step.simps\<close>)

lemma serving_start:
  assumes "process_main can_bind D ord d = Some p"
  shows "serving D E p \<and> pr_main p = None"
proof -
  obtain st where st: "server_main D ord d = Some st"
    and p: "p = \<lparr>pr_server = st\<lparr>sv_gateway := (sv_gateway st)\<lparr>g_acceptor := fst runAccept\<rparr>\<rparr>,
                 pr_main = None, pr_left = [], pr_writing = {},
                     pr_serving = (\<lambda>_. None)\<rparr>"
    using assms by (auto simp: process_main_def AcceptProcess_new_def split: option.splits if_splits)
  have "sv_gateway st\<lparr>g_acceptor := fst runAccept\<rparr> = sv_gateway st"
    using server_start_fields(1) [OF st] by (metis gateway.surjective gateway.update_convs(2))
  then have "pr_server p = st" by (simp add: p)
  then show ?thesis using st p server_start_fields(2) [OF st]
    by (auto simp: serving_def simp del: thread_at_Some intro: server_start)
qed

lemma starts_write_sends:
  assumes "w_queue (sv_world st) = Some (t # ts)"
  shows "server_step D E Sends st = Some (set_world ((sv_world st)\<lparr>w_queue := Some ts\<rparr>) st)"
  using assms by (simp add: on_gateway_def sv_world_def set_world_def)

lemma starts_write_cases:
  assumes "process_step alloc D E Starts_write p = Some p'"
  obtains s m ts where "ahead Join_queue p" and "write_tasks p = (s, m) # ts" and "pr_main p' = pr_main p"
    and "p' = set_tasks ts (if s \<in> w_sessions (pr_world p) then p\<lparr>pr_writing := insert s (pr_writing p)\<rparr> else p)"
proof -
  obtain s m ts where q: "write_tasks p = (s, m) # ts"
    using assms by (cases "write_tasks p") (auto split: if_splits)
  then have "ahead Join_queue p"
    "p' = set_tasks ts (if s \<in> w_sessions (pr_world p) then p\<lparr>pr_writing := insert s (pr_writing p)\<rparr> else p)"
    using assms by (auto split: if_splits)
  with q show thesis by (intro that) simp_all
qed

lemma serving_step:
  assumes "serving D E p" and "pr_main p = None \<longrightarrow> pr_left p = []" and "process_step alloc D E a p = Some p'"
  shows "serving D E p' \<and> (pr_main p' = None \<longrightarrow> pr_left p' = [])"
proof (cases a)
  case (Serves b)
  then obtain st where st: "server_step D E b (pr_server p) = Some st" and p': "p' = noted b p\<lparr>pr_server := st\<rparr>"
    using assms(3) by (auto split: if_splits)
  show ?thesis
  proof (cases "pr_main p")
    case None
    then have r: "server_reach D E (pr_server p)" "pr_writing p \<subseteq> w_sessions (pr_world p)"
      and busy: "\<And>k q. thread_at k (pr_server p) = Some (Executing q) \<Longrightarrow>
        \<exists>s \<in> w_sessions (pr_world p). pr_serving p k = Some s"
      using assms(1) by (simp_all add: serving_def del: thread_at_Some)
    have "evolves (pr_world p) (sv_world st)" using server_step_evolves [OF server_reach_ok [OF r(1)] st] .
    then have grown: "w_sessions (pr_world p) \<subseteq> w_sessions (sv_world st)" by (simp add: evolves_def)
    have "\<exists>s \<in> w_sessions (sv_world st). pr_serving p' k = Some s" if exec: "thread_at k st = Some (Executing q)" for k q
    proof -
      consider (before) "\<exists>q'. thread_at k (pr_server p) = Some (Executing q')" "\<forall>i ord. b \<noteq> Picks k i ord"
        | (taken) "\<exists>i ord. b = Picks k i ord \<and> i < length (g_jobs (sv_gateway (pr_server p)))"
        using executing_step [OF st exec] by argo
      then show ?thesis
      proof cases
        case before
        then have "pr_serving p' k = pr_serving p k"
          by (auto simp: p' noted_def simp del: thread_at_Some split: server_action.split)
        then show ?thesis using busy before(1) grown by (metis subsetD)
      next
        case taken
        then obtain i ord where pick: "b = Picks k i ord" "i < length (g_jobs (sv_gateway (pr_server p)))" by blast
        obtain s h r' where job: "g_jobs (sv_gateway (pr_server p)) ! i = (s, h, r')" by (metis prod_cases3)
        have ok: "server_ok D E (pr_server p)" using r(1) by (rule server_reach_ok)
        then have src: "sources_inv E (sv_gateway (pr_server p))" by (simp add: server_ok_def)
        have "s \<in> accepted (sv_gateway (pr_server p))" by (rule job_session [OF src pick(2) job])
        then show ?thesis using ok pick(1) job grown by (auto simp: p' noted_def server_ok_def)
      qed
    qed
    with r st assms(2) p' grown show ?thesis
      by (auto simp: serving_def simp del: thread_at_Some server_step.simps intro: server_next)
  qed (simp add: p' serving_def)
next
  case Starts_write
  show ?thesis
  proof (cases "pr_main p")
    case None
    then have r: "server_reach D E (pr_server p)" "pr_writing p \<subseteq> w_sessions (pr_world p)" "pr_left p = []"
      and busy: "\<forall>k q. thread_at k (pr_server p) = Some (Executing q) \<longrightarrow>
        (\<exists>s \<in> w_sessions (pr_world p). pr_serving p k = Some s)"
      using assms(1,2) by (simp_all add: serving_def del: thread_at_Some)
    obtain s m ts where t: "write_tasks p = (s, m) # ts"
      and p': "p' = set_tasks ts (if s \<in> w_sessions (pr_world p) then p\<lparr>pr_writing := insert s (pr_writing p)\<rparr> else p)"
      using assms(3) unfolding Starts_write by (rule starts_write_cases)
    then have q: "w_queue (pr_world p) = Some ((s, m) # ts)"
      using r(3) by (auto simp: write_tasks_def split: option.splits)
    have "server_reach D E (set_world ((pr_world p)\<lparr>w_queue := Some ts\<rparr>) (pr_server p))"
      using server_next [OF r(1) starts_write_sends [OF q]] .
    then show ?thesis using q r(2,3) busy by (simp add: p' serving_def set_tasks_def in_world_def)
  next
    case (Some ds)
    then have "pr_main p' = Some ds" using assms(3) unfolding Starts_write by (metis starts_write_cases)
    then show ?thesis by (simp add: serving_def)
  qed
next
  case (Write_done s)
  then have "p' = p\<lparr>pr_writing := pr_writing p - {s}\<rparr>" using assms(3) by (auto split: if_splits)
  then show ?thesis using assms(1,2) by (auto simp: serving_def)
next
  case (Throws s ss)
  then show ?thesis using assms(3) by (auto simp: serving_def split: if_splits)
next
  case Unwinds
  then show ?thesis using assms(3) by (auto simp: serving_def split: option.splits list.splits)
qed

lemma process_serving:
  assumes "process_reach alloc D E p"
  shows "serving D E p" and "pr_main p = None \<Longrightarrow> pr_left p = []"
proof -
  have "serving D E p \<and> (pr_main p = None \<longrightarrow> pr_left p = [])"
    using assms
  proof (induction rule: process_reach.induct)
    case (process_start can_bind ord d p)
    then have "pr_left p = []" by (auto simp: process_main_def split: option.splits sum.splits)
    then show ?case using serving_start [OF process_start] by simp
  next
    case (process_next p a p')
    then show ?case by (intro serving_step) simp_all
  qed
  then show "serving D E p" and "pr_main p = None \<Longrightarrow> pr_left p = []" by simp_all
qed

section \<open>What threads can rely on while main destroys\<close>

lemmas held_rules = held_atoms

lemma held_more:
  "keeps held (getUser i)" "keeps held (session_of_user i)" "keeps held (ClientSession_write s b)"
  "keeps held (lock_session s)" "keeps held (deref p)" "keeps held (idUsers_insert r i)"
  "keeps held (on_users m)" "keeps held (boost_format E fm n)"
  by (auto simp: keeps_def held_def getUser_def on_users_def session_of_user_def bind_split lock_session_def
      deref_def idUsers_insert_def boost_format_def enqueue_def split: option.splits sum.splits prod.splits)

lemma held_small [prog_keeps_rules]:
  "prog_keeps held lock_db" "prog_keeps held (ask_db m)" "prog_keeps held (getUser_prog i)"
  "prog_keeps held (getSession_prog i)" "prog_keeps held (push_prog st)" "prog_keeps held (write_prog s b)"
  "prog_keeps held (lock_session_prog s)" "prog_keeps held lock_users" "prog_keeps held (deref_prog p)"
  "prog_keeps held (members_prog r)" "prog_keeps held (insert_prog r i)" "prog_keeps held (find_prog i)"
  "prog_keeps held (register_prog i p)" "prog_keeps held (atom l (eff_gets g))"
  "prog_keeps held (atom l (make_shared_channel c))" "prog_keeps held (atom l (boost_format E fm n))"
  unfolding small_progs by (intro prog_keeps_rules keeps_rules held_atoms held_more)+

lemma held_write_loop [prog_keeps_rules]: "prog_keeps held (write_loop_prog r is b)"
  unfolding write_if_alive_prog_def
  by (induction "is" arbitrary: b)
    (simp_all only: write_loop_prog.simps write_if_alive_prog_def, (intro prog_keeps_rules; assumption?)+)

lemma held_request: "prog_keeps held (processRequest_prog D E ord s h r)"
  unfolding processRequest_prog_def
  by (cases "to_TypeCommand E (h_command h)")
    (simp_all only: type_command.case with_engine_prog_def reply_prog_def reg_prog_def auth_prog_def
      getHistory_prog_def getChannels_prog_def joinRoom_prog_def sendText_prog_def Let_def
      createOrGet_prog_def construct_prog_def Channel_new_prog_def Channel_addUser_prog_def
      Channel_sendHistory_prog_def Channel_write_prog_def write_if_alive_prog_def checkRegUser_prog_def
      checkAuthUser_prog_def getUserNameChannels_prog_def joinClientChannel_prog_def,
      (intro prog_keeps_rules)+)

text \<open>Destructors run in this order, so what is left is always sorted by it.\<close>

fun rank :: "destruction \<Rightarrow> nat" where
  "rank Stop_network = 0"
| "rank (Delete_session s) = 1"
| "rank Drop_handlers = 2"
| "rank Quit_queue = 3"
| "rank Join_queue = 4"
| "rank Stop_pool = 5"
| "rank Join_pool = 6"
| "rank Delete_engine = 7"
| "rank Delete_channels = 8"
| "rank Delete_users = 9"
| "rank Delete_db = 10"

definition in_order :: "destruction list \<Rightarrow> bool" where
  "in_order ds \<longleftrightarrow> sorted (map rank ds) \<and> distinct ds \<and> (Stop_pool \<in> set ds \<longrightarrow> Join_pool \<in> set ds)"

lemma unwind_simp: "unwind ss = Stop_network # map Delete_session ss @
   [Drop_handlers, Quit_queue, Join_queue, Stop_pool, Join_pool, Delete_engine, Delete_channels, Delete_users, Delete_db]"
  by (simp add: unwind_def main_locals_def AcceptProcess_delete_def ThreadSafeQueue_delete_def WorkersPool_delete_def)

lemma sessions_in_order: "sorted (map (rank \<circ> Delete_session) ss)"
  by (induction ss) auto

lemma unwind_in_order: "distinct ss \<Longrightarrow> in_order (unwind ss)"
  using sessions_in_order [of ss] by (auto simp: unwind_simp in_order_def sorted_append distinct_map inj_on_def)

lemma in_order_tail: "in_order (d # ds) \<Longrightarrow> in_order ds"
  by (force simp: in_order_def)

lemma before_join: "in_order (d # ds) \<Longrightarrow> Join_pool \<in> set ds \<Longrightarrow> rank d \<le> 6 \<and> d \<noteq> Join_pool"
  by (force simp: in_order_def)

definition thread_held :: "'db process \<Rightarrow> ('db, unit) request_prog runner \<Rightarrow> bool" where
  "thread_held p x = (case x of Executing q \<Rightarrow> ahead Join_pool p \<and> prog_keeps held q | _ \<Rightarrow> True)"

definition shutdown_ok :: "'db process \<Rightarrow> bool" where
  "shutdown_ok p \<longleftrightarrow>
     (\<forall>ds. pr_main p = Some ds \<longrightarrow> in_order ds) \<and>
     (ahead Join_pool p \<longrightarrow> held (pr_world p)) \<and>
     (\<forall>x \<in> set (sv_threads (pr_server p)). thread_held p x)"

lemma ahead_simps [simp]:
  "pr_main p = None \<Longrightarrow> ahead d p" "pr_main p = Some ds \<Longrightarrow> ahead d p = (d \<in> set ds)"
  by (simp_all add: ahead_def)

lemma held_frame [simp]:
  "held (w\<lparr>w_sessions := S\<rparr>) = held w" "held (w\<lparr>w_queue := q\<rparr>) = held w"
  by (simp_all add: held_def)

lemma set_tasks_held [simp]: "held (pr_world (set_tasks ts p)) = held (pr_world p)"
  by (simp add: set_tasks_def split: option.split)

text \<open>Steps of the server.\<close>

definition exec_held :: "('db, unit) request_prog runner \<Rightarrow> bool" where
  "exec_held x = (case x of Executing q \<Rightarrow> prog_keeps held q | _ \<Rightarrow> True)"

lemma exec_held_simps [simp]:
  "exec_held InRun" "exec_held Exited" "exec_held (Executing q) = prog_keeps held q"
  by (simp_all add: exec_held_def)

lemma exec_held_update:
  "\<forall>x \<in> set xs. exec_held x \<Longrightarrow> exec_held y \<Longrightarrow> \<forall>x \<in> set (xs[k := y]). exec_held x"
  using set_update_subset_insert by fastforce

lemma on_gateway_held:
  assumes "held (sv_world st)" and "on_gateway st (gateway_step D E a (sv_gateway st)) = Some st'"
    and "\<And>i ord. a \<noteq> RunJob i ord"
  shows "held (sv_world st') \<and> sv_threads st' = sv_threads st"
proof -
  obtain g where g: "gateway_step D E a (sv_gateway st) = Some g" and "st' = st\<lparr>sv_gateway := g\<rparr>"
    using assms(2) by (auto simp: on_gateway_def)
  then show ?thesis using assms(1) gateway_step_evolves [OF g assms(3)] by (simp add: held_def sv_world_def)
qed

lemma server_step_held:
  assumes "held (sv_world st)" and "\<forall>x \<in> set (sv_threads st). exec_held x" and "server_step D E a st = Some st'"
  shows "held (sv_world st') \<and> (\<forall>x \<in> set (sv_threads st'). exec_held x)"
proof (cases a)
  case (Accepts ec stream)
  then show ?thesis using assms on_gateway_held [OF assms(1), of D E "AcceptCompletes ec stream" st'] by simp
next
  case (Reads_from s)
  then show ?thesis using assms on_gateway_held [OF assms(1), of D E "ReadCompletes s" st'] by simp
next
  case Sends
  then show ?thesis using assms on_gateway_held [OF assms(1), of D E TakeWrite st'] by simp
next
  case (Picks k i ord)
  then obtain s h r g where "st' = set_thread k (Executing (processRequest_prog D E ord s h r)) (st\<lparr>sv_gateway := g\<rparr>)"
    and "g_world g = sv_world st"
    using assms(3) by (auto simp: Let_def sv_world_def split: option.splits runner.splits if_splits prod.splits)
  then show ?thesis
    using assms(1) exec_held_update [OF assms(2), of "Executing (processRequest_prog D E ord s h r)" k]
    by (simp add: held_request)
next
  case (Runs k)
  with assms(3) obtain p q holder' w' where k: "k < length (sv_threads st)" "sv_threads st ! k = Executing p"
    and step: "prog_step k p (sv_holder st) (sv_world st) = Some (q, holder', w')"
    and st': "st' = set_world w' (set_thread k (Executing q) st)\<lparr>sv_holder := holder'\<rparr>"
    by (auto elim: runs_cases simp del: server_step.simps)
  have "prog_keeps held p" using assms(2) k nth_mem [OF k(1)] by fastforce
  then show ?thesis
    using prog_keeps_step [OF _ step] assms(1) exec_held_update [OF assms(2), of "Executing q" k] by (simp add: st')
next
  case (Ends k)
  then have "st' = set_thread k InRun st"
    using assms(3) by (auto simp del: thread_at_Some split: option.splits runner.splits prog.splits sum.splits failure.splits)
  then show ?thesis using assms(1) exec_held_update [OF assms(2), of InRun k] by simp
next
  case (Db_changes d)
  then show ?thesis using assms by (auto simp: held_def)
qed

text \<open>Every step of the process.\<close>

lemma destroy_before_join:
  assumes "destroy d p = Some q" and "rank d \<le> 6" and "d \<noteq> Join_pool"
  shows "held (pr_world q) = held (pr_world p) \<and> sv_threads (pr_server q) = sv_threads (pr_server p)"
  using assms by (cases d) auto

lemma destroy_threads:
  assumes "destroy d p = Some q"
  shows "d \<noteq> Join_pool \<Longrightarrow> sv_threads (pr_server q) = sv_threads (pr_server p)"
    and "d = Join_pool \<Longrightarrow> all_idle (pr_server p) \<and> (\<forall>x \<in> set (sv_threads (pr_server q)). x = Exited)"
  using assms by (cases d; auto split: if_splits)+

lemma thread_held_alt:
  "(\<forall>x \<in> set xs. thread_held p x) \<longleftrightarrow>
     (\<forall>x \<in> set xs. exec_held x) \<and> (ahead Join_pool p \<or> (\<forall>x \<in> set xs. \<forall>q. x \<noteq> Executing q))"
  by (fastforce simp: thread_held_def exec_held_def split: runner.splits)

lemma after_join_step:
  assumes "may alloc E a p" and "\<not> ahead Join_pool p" and "shutdown_ok p" and "server_step D E a (pr_server p) = Some st"
  shows "sv_threads st = sv_threads (pr_server p)"
proof -
  obtain ds where ds: "pr_main p = Some ds" using assms(2) by (cases "pr_main p") auto
  then have "in_order ds" using assms(3) by (simp add: shutdown_ok_def)
  then have "\<not> ahead Stop_pool p" using assms(2) ds by (simp add: in_order_def)
  then obtain d where "a = Db_changes d" using assms(1,2) ds by (cases a) (auto simp: may_def)
  then show ?thesis using assms(4) by auto
qed

lemma shutdown_step:
  assumes "shutdown_ok p" and "process_step alloc D E a p = Some p'"
  shows "shutdown_ok p'"
proof (cases a)
  case (Serves b)
  then obtain st where may: "may alloc E b p" and st: "server_step D E b (pr_server p) = Some st"
    and p': "p' = noted b p\<lparr>pr_server := st\<rparr>" using assms(2) by (auto split: if_splits)
  have ahead: "ahead d p' = ahead d p" for d by (simp add: p' ahead_def)
  show ?thesis
  proof (cases "ahead Join_pool p")
    case True
    then have "held (sv_world st) \<and> (\<forall>x \<in> set (sv_threads st). exec_held x)"
      using assms(1) by (intro server_step_held [OF _ _ st]) (simp_all add: shutdown_ok_def thread_held_alt)
    then show ?thesis using assms(1) True by (simp add: shutdown_ok_def thread_held_alt ahead) (simp add: p')
  next
    case False
    then have "sv_threads st = sv_threads (pr_server p)" using after_join_step [OF may False assms(1) st] by simp
    then show ?thesis using assms(1) False by (simp add: shutdown_ok_def thread_held_alt ahead) (simp add: p')
  qed
next
  case Starts_write
  obtain s m ts where main: "pr_main p' = pr_main p"
    and p': "p' = set_tasks ts (if s \<in> w_sessions (pr_world p) then p\<lparr>pr_writing := insert s (pr_writing p)\<rparr> else p)"
    using assms(2) unfolding Starts_write by (rule starts_write_cases)
  have "held (pr_world p') = held (pr_world p)" "sv_threads (pr_server p') = sv_threads (pr_server p)"
    by (simp_all add: p')
  then show ?thesis using assms(1) main by (simp add: shutdown_ok_def thread_held_alt ahead_def)
next
  case (Write_done s)
  then have "p' = p\<lparr>pr_writing := pr_writing p - {s}\<rparr>" using assms(2) by (auto split: if_splits)
  then show ?thesis using assms(1) by (simp add: shutdown_ok_def thread_held_alt ahead_def)
next
  case (Throws s ss)
  then have "pr_main p = None" "distinct ss" and p': "p' = p\<lparr>pr_main := Some (unwind ss)\<rparr>"
    using assms(2) by (auto split: if_splits)
  moreover have "Join_pool \<in> set (unwind ss)" by (simp add: unwind_simp)
  ultimately show ?thesis using assms(1) unwind_in_order
    by (auto simp: shutdown_ok_def thread_held_alt ahead_def)
next
  case Unwinds
  then obtain d ds q where ds: "pr_main p = Some (d # ds)" and q: "destroy d p = Some q"
    and p': "p' = q\<lparr>pr_main := Some ds\<rparr>"
    using assms(2) by (auto split: option.splits list.splits)
  have ord: "in_order (d # ds)" using assms(1) ds by (simp add: shutdown_ok_def)
  show ?thesis
  proof (cases "Join_pool \<in> set ds")
    case True
    note d = before_join [OF ord True]
    have "held (pr_world q) = held (pr_world p)" "sv_threads (pr_server q) = sv_threads (pr_server p)"
      using destroy_before_join [OF q] d by blast+
    then show ?thesis
      using assms(1) ds True in_order_tail [OF ord] by (simp add: shutdown_ok_def thread_held_alt p')
  next
    case False
    have "\<forall>x \<in> set (sv_threads (pr_server q)). exec_held x \<and> (\<forall>r. x \<noteq> Executing r)"
    proof (cases "d = Join_pool")
      case True
      then show ?thesis using destroy_threads(2) [OF q] by fastforce
    next
      case other: False
      then have "\<not> ahead Join_pool p" using False ds by simp
      then show ?thesis
        using assms(1) destroy_threads(1) [OF q other] by (auto simp: shutdown_ok_def thread_held_alt)
    qed
    then show ?thesis using False in_order_tail [OF ord] by (simp add: shutdown_ok_def thread_held_alt p')
  qed
qed

lemma process_start_held:
  assumes "process_main can_bind D ord d = Some p"
  shows "shutdown_ok p"
proof -
  obtain st g where st: "server_main D ord d = Some st" and g: "gateway_main D ord d = Serving g"
    and p: "pr_main p = None" "pr_world p = g_world g" "sv_threads (pr_server p) = replicate 4 InRun"
    using assms by (auto simp: process_main_def server_main_def AsyncContext_new_def WorkersPool_new_def sv_world_def
        split: option.splits sum.splits outcome.splits)
  have "held (g_world g)" by (rule held_main [OF g])
  then show ?thesis using p by (simp add: shutdown_ok_def thread_held_def)
qed

lemma process_shutdown_ok: "process_reach alloc D E p \<Longrightarrow> shutdown_ok p"
proof (induction rule: process_reach.induct)
  case (process_start can_bind ord d p)
  then show ?case by (rule process_start_held)
next
  case (process_next p a p')
  then show ?case by (blast intro: shutdown_step)
qed

end
