(* ===== verification/Shutdown_Properties.thy ===== *)
theory Shutdown_Properties
  imports Shutdown
begin

text \<open>
  What holds while the process runs and while it ends: no session, pool or queue is used after its
  destruction as long as \<open>main\<close> is in \<open>run\<close>, and the managers outlive every request. One header that announces too
  much ends the whole server, and while it ends, waiting tasks are run on sessions already gone.
\<close>

section \<open>Runs of the process\<close>

lemma process_run_append:
  "process_run alloc D E (as @ bs) p =
     (case process_run alloc D E as p of None \<Rightarrow> None | Some q \<Rightarrow> process_run alloc D E bs q)"
  by (induction "as" arbitrary: p) (simp_all split: option.split)

lemma process_run_reach:
  "process_reach alloc D E p \<Longrightarrow> process_run alloc D E as p = Some p' \<Longrightarrow> process_reach alloc D E p'"
  by (induction "as" arbitrary: p) (auto split: option.splits intro: process_next simp del: process_step.simps)

text \<open>The pool's steps while \<open>main\<close> is in \<open>run\<close>.\<close>

lemma pool_step_gateway:
  assumes "pool_action a" and "server_step D E a st = Some st'"
  shows "g_conns (sv_gateway st') = g_conns (sv_gateway st) \<and> g_acceptor (sv_gateway st') = g_acceptor (sv_gateway st)"
proof (cases a)
  case (Runs k)
  then show ?thesis using assms(2) by (auto elim: runs_cases simp del: server_step.simps)
next
  case (Ends k)
  then show ?thesis using assms(2)
    by (auto simp del: thread_at_Some split: option.splits runner.splits prog.splits sum.splits failure.splits)
qed (use assms(1) in \<open>simp_all add: pool_action_def\<close>)

lemma serve_pool:
  assumes "list_all pool_action as" and "server_run D E as (pr_server p) = Some st" and "pr_main p = None"
  shows "process_run alloc D E (map Serves as) p = Some (p\<lparr>pr_server := st\<rparr>) \<and>
    g_conns (sv_gateway st) = g_conns (sv_gateway (pr_server p)) \<and>
    g_acceptor (sv_gateway st) = g_acceptor (sv_gateway (pr_server p))"
  using assms
proof (induction "as" arbitrary: p)
  case (Cons a "as")
  obtain st1 where st1: "server_step D E a (pr_server p) = Some st1" "server_run D E as st1 = Some st"
    using Cons.prems(2) by (auto split: option.splits simp del: server_step.simps)
  have "may alloc E a p" using Cons.prems(1,3) by (cases a) (simp_all add: may_def pool_action_def)
  moreover have "noted a p = p" using Cons.prems(1) by (cases a) (simp_all add: noted_def pool_action_def)
  ultimately have "process_step alloc D E (Serves a) p = Some (p\<lparr>pr_server := st1\<rparr>)" using st1(1) by simp
  then show ?case
    using Cons.IH [of "p\<lparr>pr_server := st1\<rparr>"] Cons.prems st1 pool_step_gateway [of a D E "pr_server p" st1]
    by simp
qed simp

text \<open>The destructors.\<close>

lemma write_tasks_main [simp]: "write_tasks (p\<lparr>pr_main := x\<rparr>) = write_tasks p"
  by (simp add: write_tasks_def split: option.split)

lemma delete_sessions:
  assumes "pr_main p = Some (map Delete_session ss @ ds)"
  shows "\<exists>q. process_run alloc D E (replicate (length ss) Unwinds) p = Some q \<and> pr_main q = Some ds \<and>
    w_sessions (pr_world q) = w_sessions (pr_world p) - set ss \<and> write_tasks q = write_tasks p \<and>
    w_queue (pr_world q) = w_queue (pr_world p) \<and>
    pr_writing q = pr_writing p \<and> sv_threads (pr_server q) = sv_threads (pr_server p) \<and>
    g_jobs (sv_gateway (pr_server q)) = g_jobs (sv_gateway (pr_server p))"
  using assms
proof (induction ss arbitrary: p)
  case (Cons s ss)
  let ?q = "in_world (\<lambda>w. w\<lparr>w_sessions := w_sessions w - {s}\<rparr>) p\<lparr>pr_main := Some (map Delete_session ss @ ds)\<rparr>"
  have "process_step alloc D E Unwinds p = Some ?q" using Cons.prems by simp
  moreover have "write_tasks ?q = write_tasks p" "g_jobs (sv_gateway (pr_server ?q)) = g_jobs (sv_gateway (pr_server p))"
    by (simp_all add: write_tasks_def split: option.split) (simp_all add: in_world_def)
  ultimately show ?case using Cons.IH [of ?q] by (auto simp del: process_step.simps)
qed auto

lemma destroy_sessions:
  "destroy d p = Some q \<Longrightarrow> w_sessions (pr_world q) = w_sessions (pr_world p) - {s. d = Delete_session s}"
  by (cases d) (auto simp: sv_world_def in_world_def set_world_def split: if_splits)

lemma destroy_db:
  "destroy d p = Some q \<Longrightarrow> d = Delete_db \<or> w_db (pr_world p) = None \<Longrightarrow> w_db (pr_world q) = None"
  by (cases d) (auto simp: sv_world_def in_world_def set_world_def split: if_splits)

lemma destroy_thread_list:
  "destroy d p = Some q \<Longrightarrow> sv_threads (pr_server q) =
     (if d = Join_pool then map (\<lambda>_. Exited) (sv_threads (pr_server p)) else sv_threads (pr_server p))"
  by (cases d) (auto simp: in_world_def set_world_def split: if_splits)

lemmas destroy_effects = destroy_sessions destroy_db destroy_thread_list

lemma idle_can_destroy:
  assumes "all_idle (pr_server p)"
  obtains q where "destroy d p = Some q" and "all_idle (pr_server q)"
proof -
  obtain q where q: "destroy d p = Some q" using assms by (cases d) simp_all
  moreover have "all_idle (pr_server q)"
    using assms destroy_effects(3) [OF q] by (simp add: all_idle_def idle_def list_all_iff)
  ultimately show thesis by (rule that)
qed

lemma destroy_all:
  assumes "pr_main p = Some ds" and "all_idle (pr_server p)"
  shows "\<exists>q. process_run alloc D E (replicate (length ds) Unwinds) p = Some q \<and> pr_main q = Some [] \<and>
    w_sessions (pr_world q) = w_sessions (pr_world p) - {s. Delete_session s \<in> set ds} \<and>
    (Delete_db \<in> set ds \<or> w_db (pr_world p) = None \<longrightarrow> w_db (pr_world q) = None) \<and>
    (Join_pool \<in> set ds \<longrightarrow> sv_threads (pr_server q) = map (\<lambda>_. Exited) (sv_threads (pr_server p))) \<and>
    (Join_pool \<notin> set ds \<longrightarrow> sv_threads (pr_server q) = sv_threads (pr_server p))"
  using assms
proof (induction ds arbitrary: p)
  case (Cons d ds)
  obtain q1 where d: "destroy d p = Some q1" and idle: "all_idle (pr_server q1)"
    using Cons.prems(2) by (rule idle_can_destroy)
  note facts = destroy_effects [OF d]
  let ?q1 = "q1\<lparr>pr_main := Some ds\<rparr>"
  have step: "process_step alloc D E Unwinds p = Some ?q1" using Cons.prems(1) d by simp
  obtain q where q: "process_run alloc D E (replicate (length ds) Unwinds) ?q1 = Some q" "pr_main q = Some []"
    "w_sessions (pr_world q) = w_sessions (pr_world q1) - {s. Delete_session s \<in> set ds}"
    "Delete_db \<in> set ds \<or> w_db (pr_world q1) = None \<longrightarrow> w_db (pr_world q) = None"
    "Join_pool \<in> set ds \<longrightarrow> sv_threads (pr_server q) = map (\<lambda>_. Exited) (sv_threads (pr_server q1))"
    "Join_pool \<notin> set ds \<longrightarrow> sv_threads (pr_server q) = sv_threads (pr_server q1)"
    using Cons.IH [of ?q1] idle by auto
  have "process_run alloc D E (replicate (length (d # ds)) Unwinds) p = Some q"
    using step q(1) by (simp del: process_step.simps)
  moreover have "w_sessions (pr_world q) = w_sessions (pr_world p) - {s. Delete_session s \<in> set (d # ds)}"
    using q(3) facts(1) by auto
  moreover have "Delete_db \<in> set (d # ds) \<or> w_db (pr_world p) = None \<longrightarrow> w_db (pr_world q) = None"
    using q(4) facts(2) by auto
  moreover have "Join_pool \<in> set (d # ds) \<longrightarrow> sv_threads (pr_server q) = map (\<lambda>_. Exited) (sv_threads (pr_server p))"
    using q(5,6) facts(3) by (cases "d = Join_pool"; cases "Join_pool \<in> set ds") (simp_all add: comp_def)
  moreover have "Join_pool \<notin> set (d # ds) \<longrightarrow> sv_threads (pr_server q) = sv_threads (pr_server p)"
    using q(6) facts(3) by auto
  ultimately show ?case using q(2) by (intro exI [of _ q]) simp
qed auto

text \<open>The destructors before the join of the pool wait for no thread of it.\<close>

lemma destroy_front:
  assumes "pr_main p = Some (ds @ es)" and "Join_pool \<notin> set ds"
  shows "\<exists>q. process_run alloc D E (replicate (length ds) Unwinds) p = Some q \<and> pr_main q = Some es \<and>
    w_sessions (pr_world q) = w_sessions (pr_world p) - {s. Delete_session s \<in> set ds} \<and>
    sv_threads (pr_server q) = sv_threads (pr_server p)"
  using assms
proof (induction ds arbitrary: p)
  case (Cons d ds)
  obtain q1 where d: "destroy d p = Some q1" using Cons.prems(2) by (cases d) simp_all
  let ?q1 = "q1\<lparr>pr_main := Some (ds @ es)\<rparr>"
  have step: "process_step alloc D E Unwinds p = Some ?q1" using Cons.prems(1) d by simp
  obtain q where q: "process_run alloc D E (replicate (length ds) Unwinds) ?q1 = Some q" "pr_main q = Some es"
    "w_sessions (pr_world q) = w_sessions (pr_world q1) - {s. Delete_session s \<in> set ds}"
    "sv_threads (pr_server q) = sv_threads (pr_server q1)"
    using Cons.IH [of ?q1] Cons.prems(2) by auto
  have "process_run alloc D E (replicate (length (d # ds)) Unwinds) p = Some q"
    using step q(1) by (simp del: process_step.simps)
  moreover have "w_sessions (pr_world q) = w_sessions (pr_world p) - {s. Delete_session s \<in> set (d # ds)}"
    using q(3) destroy_sessions [OF d] by auto
  moreover have "sv_threads (pr_server q) = sv_threads (pr_server p)"
    using q(4) destroy_thread_list [OF d] Cons.prems(2) by auto
  ultimately show ?case using q(2) by (intro exI [of _ q]) simp
qed auto

definition until_join :: "session list \<Rightarrow> destruction list" where
  "until_join ss = Stop_network # map Delete_session ss @ [Drop_handlers, Quit_queue, Join_queue, Stop_pool]"

definition from_join :: "destruction list" where
  "from_join = [Join_pool, Delete_engine, Delete_channels, Delete_users, Delete_db]"

lemma unwind_until_join: "unwind ss = until_join ss @ from_join"
  by (simp add: unwind_simp until_join_def from_join_def)

lemma destroy_until_join:
  assumes "pr_main p = Some (unwind ss)" and "w_sessions (pr_world p) = set ss"
  shows "\<exists>q. process_run alloc D E (replicate (length (until_join ss)) Unwinds) p = Some q \<and>
    pr_main q = Some from_join \<and> w_sessions (pr_world q) = {} \<and> sv_threads (pr_server q) = sv_threads (pr_server p)"
proof -
  have "Join_pool \<notin> set (until_join ss)" "{s. Delete_session s \<in> set (until_join ss)} = set ss"
    by (auto simp: until_join_def)
  with assms destroy_front [of p "until_join ss" from_join alloc D E] show ?thesis
    by (simp add: unwind_until_join)
qed

lemma destroy_from_join:
  assumes "pr_main p = Some from_join" and "all_idle (pr_server p)"
  shows "\<exists>q. process_run alloc D E (replicate (length from_join) Unwinds) p = Some q \<and> pr_main q = Some [] \<and>
    w_sessions (pr_world q) = w_sessions (pr_world p) \<and> w_db (pr_world q) = None \<and>
    sv_threads (pr_server q) = map (\<lambda>_. Exited) (sv_threads (pr_server p))"
  using destroy_all [OF assms, of alloc D E] by (simp add: from_join_def)

section \<open>A process for the examples\<close>

text \<open>Bodies of a hundred bytes and more cannot be allocated. Two peers connect; the first sends a
  registration, which is posted, the second a header that announces 200 bytes.\<close>

definition small_heap :: "nat \<Rightarrow> bool" where
  "small_heap n \<longleftrightarrow> n < 100"

definition empty_process :: "storage process" where
  "empty_process = \<lparr>pr_server = empty_server, pr_main = None, pr_left = [], pr_writing = {},
     pr_serving = (\<lambda>_. None)\<rparr>"

lemma empty_process_reach: "process_reach small_heap Storage_db sample_env empty_process"
proof (rule process_start)
  have "sorted_ids {} = []" by (simp add: sorted_ids_def)
  then have "server_main Storage_db sorted_ids empty_storage = Some empty_server"
    by (simp add: server_main_def gateway_main_def empty_server_def createChannelFromDb_def Storage_db_def
        Storage_connect_def Storage_getCurrentChannels_def QueryEngine_new_def start_world_def
        AsyncContext_new_def WorkersPool_new_def)
  then show "process_main (\<lambda>port. True) Storage_db sorted_ids empty_storage = Some empty_process"
    by (simp add: process_main_def AcceptProcess_new_def empty_process_def) (simp add: empty_server_def)
qed

definition huge_header :: "storage process_action list" where
  "huge_header = map Serves [Accepts False [1, 1, 97], Accepts False [1, 200], Reads_from 0, Reads_from 0]"

definition before_throw :: "storage process" where
  "before_throw = the (process_run small_heap Storage_db sample_env huge_header empty_process)"

lemma before_throw_run:
  "process_run small_heap Storage_db sample_env huge_header empty_process = Some before_throw"
  unfolding before_throw_def by (rule ran) code_simp

lemma before_throw_reach: "process_reach small_heap Storage_db sample_env before_throw"
  by (rule process_run_reach [OF empty_process_reach before_throw_run])

lemma before_throw_facts:
  "pr_main before_throw = None" "oversized small_heap sample_env 1 (sv_gateway (pr_server before_throw))"
  "length (g_jobs (sv_gateway (pr_server before_throw))) = 1"
  "case thread_at 0 (pr_server before_throw) of Some InRun \<Rightarrow> True | _ \<Rightarrow> False"
  by code_simp+

text \<open>A thread takes the request, and then the exception comes and \<open>main\<close> destroys both sessions.\<close>

definition into_half_way :: "storage process_action list" where
  "into_half_way = [Serves (Picks 0 0 sorted_ids), Throws 1 [0, 1], Unwinds, Unwinds, Unwinds]"

definition half_way :: "storage process" where
  "half_way = the (process_run small_heap Storage_db sample_env into_half_way before_throw)"

lemma half_way_run: "process_run small_heap Storage_db sample_env into_half_way before_throw = Some half_way"
  unfolding half_way_def by (rule ran) code_simp

lemma half_way_reach: "process_reach small_heap Storage_db sample_env half_way"
  by (rule process_run_reach [OF before_throw_reach half_way_run])

lemma half_way_unwinds: "pr_main half_way \<noteq> None"
  by code_simp

lemma half_way_executes: obtains q where "thread_at 0 (pr_server half_way) = Some (Executing q)"
proof -
  have "case thread_at 0 (pr_server half_way) of Some (Executing q) \<Rightarrow> True | _ \<Rightarrow> False" by code_simp
  then show thesis using that by (auto simp del: thread_at_Some split: option.splits runner.splits)
qed

section \<open>Properties\<close>

text \<open>C21: While \<open>main\<close> is in \<open>run\<close>, no step that can happen uses an object of \<open>main\<close>'s after its destruction:
  a thread that takes a request or is in the middle of one does so for a session that is alive, and so
  do the reads and writes that complete, the worker that starts a write and the handler that throws,
  while the acceptor, the pool and the queue exist; in every reachable state, over every database,
  protocol package and allocator. (What is not promised is the buffer a write is given, which its
  task owns.)\<close>

theorem running_is_safe:
  assumes "process_reach alloc D E p" and "pr_main p = None" and "process_step alloc D E a p = Some p'"
  shows "\<not> uses_destroyed a p"
proof -
  have reach: "server_reach D E (pr_server p)" and writing: "pr_writing p \<subseteq> w_sessions (pr_world p)"
    and busy: "\<And>k q. thread_at k (pr_server p) = Some (Executing q) \<Longrightarrow>
      \<exists>s \<in> w_sessions (pr_world p). pr_serving p k = Some s"
    using process_serving(1) [OF assms(1)] assms(2) by (simp_all add: serving_def del: thread_at_Some)
  then have ok: "server_ok D E (pr_server p)" by (intro server_reach_ok)
  then have sessions: "w_sessions (pr_world p) = accepted (sv_gateway (pr_server p))"
    and src: "sources_inv E (sv_gateway (pr_server p))" and "server_inv (pr_world p)"
    by (simp_all add: server_ok_def)
  then have targets: "targets (w_sessions (pr_world p)) (pr_world p)" by (simp add: server_inv_def)
  have conn: "s \<in> w_sessions (pr_world p)" if "g_conns (sv_gateway (pr_server p)) s \<noteq> None" for s
    using src that sessions by (auto simp: sources_inv_def accepted_def)
  show ?thesis
  proof (cases a)
    case (Serves b)
    then have step: "server_step D E b (pr_server p) \<noteq> None" using assms(3) by (auto split: if_splits)
    have job: "fst (g_jobs (sv_gateway (pr_server p)) ! i) \<in> w_sessions (pr_world p)"
      if "i < length (g_jobs (sv_gateway (pr_server p)))" for i
      using job_session [OF src that] sessions by (cases "g_jobs (sv_gateway (pr_server p)) ! i") simp
    show ?thesis
    proof (cases b)
      case (Reads_from s)
      then have "g_conns (sv_gateway (pr_server p)) s \<noteq> None"
        using step by (cases "g_conns (sv_gateway (pr_server p)) s") (simp_all add: on_gateway_def)
      with Serves Reads_from conn assms(2) show ?thesis by (simp add: uses_destroyed_def dangling_def)
    next
      case (Runs k)
      then obtain q where "thread_at k (pr_server p) = Some (Executing q)"
        using step by (auto elim!: runs_cases simp del: server_step.simps)
      with Serves Runs busy assms(2) show ?thesis by (fastforce simp: uses_destroyed_def dangling_def)
    next
      case (Ends k)
      then obtain q where "thread_at k (pr_server p) = Some (Executing q)"
        using step by (auto simp del: thread_at_Some split: option.splits runner.splits)
      with Serves Ends busy assms(2) show ?thesis by (fastforce simp: uses_destroyed_def dangling_def)
    qed (use Serves job assms(2) in \<open>simp_all add: uses_destroyed_def dangling_def\<close>)
  next
    case Starts_write
    have "fst t \<in> w_sessions (pr_world p)" if "write_tasks p = t # ts" for t ts
      using that targets process_serving(2) [OF assms(1,2)]
      by (auto simp: write_tasks_def targets_def split: option.splits)
    then show ?thesis using Starts_write assms(2) by (auto simp: uses_destroyed_def dangling_def split: list.splits)
  next
    case (Write_done s)
    with assms(2,3) writing show ?thesis by (auto simp: uses_destroyed_def dangling_def split: if_splits)
  next
    case (Throws s ss)
    then have "oversized alloc E s (sv_gateway (pr_server p))" using assms(3) by (auto split: if_splits)
    then have "g_conns (sv_gateway (pr_server p)) s \<noteq> None" by (auto simp: oversized_def split: option.splits)
    with Throws conn assms(2) show ?thesis by (simp add: uses_destroyed_def dangling_def)
  next
    case Unwinds
    with assms(2,3) show ?thesis by simp
  qed
qed

text \<open>Thread 0 takes the request that waits, and makes a step of it.\<close>

definition picked :: "storage process" where
  "picked = the (process_step small_heap Storage_db sample_env (Serves (Picks 0 0 sorted_ids)) before_throw)"

lemma picked_step:
  "process_step small_heap Storage_db sample_env (Serves (Picks 0 0 sorted_ids)) before_throw = Some picked"
  unfolding picked_def by (rule ran) code_simp

lemma picked_goes_on:
  "process_step small_heap Storage_db sample_env (Serves (Runs 0)) picked =
     Some (the (process_step small_heap Storage_db sample_env (Serves (Runs 0)) picked))"
  by (rule ran) code_simp

lemma picked_facts: "pr_main picked = None" "pr_serving picked 0 = Some 0"
  by code_simp+

lemma running_is_safe_witness: "\<not> uses_destroyed (Serves (Runs 0)) picked \<and> pr_serving picked 0 = Some 0"
  using running_is_safe [OF process_next [OF before_throw_reach picked_step] picked_facts(1) picked_goes_on]
    picked_facts(2) by blast

text \<open>C22: The managers outlive the requests: whatever has been destroyed already, as long as a thread of the
  pool is in the middle of a request the database, the user manager and the engine are alive, because
  \<open>main\<close> declares the pool after them and joins its threads before it destroys them.\<close>

theorem managers_outlive_requests:
  assumes "process_reach alloc D E p" and "thread_at k (pr_server p) = Some (Executing q)"
  shows "w_db (pr_world p) \<noteq> None \<and> w_users (pr_world p) \<noteq> None \<and> w_engine (pr_world p)"
proof -
  have ok: "shutdown_ok p" using assms(1) by (rule process_shutdown_ok)
  have "Executing q \<in> set (sv_threads (pr_server p))" using assms(2) by (auto simp: in_set_conv_nth)
  then have "ahead Join_pool p" using ok by (fastforce simp: shutdown_ok_def thread_held_def)
  then show ?thesis using ok by (simp add: shutdown_ok_def held_def)
qed

lemma managers_outlive_requests_witness:
  "w_users (pr_world half_way) \<noteq> None \<and> pr_main half_way \<noteq> None"
proof -
  obtain q where "thread_at 0 (pr_server half_way) = Some (Executing q)" by (rule half_way_executes)
  from managers_outlive_requests [OF half_way_reach this] half_way_unwinds show ?thesis by simp
qed

text \<open>C23: One header ends the server, over any database: whenever a peer's header announces a body the
  allocator cannot give room for, the read cannot complete normally, and from every such state there
  is a schedule in which the exception leaves \<open>run\<close>, every session is closed, and \<open>main\<close> destroys
  everything it owns and returns, with every pool thread ended and the database gone. Only if a
  request is under way at that moment, and then fails in the backend by something that is no
  exception, may \<open>main\<close> not come past the join of the pool.\<close>

theorem one_header_ends_server:
  assumes "process_reach alloc D E p" and "pr_main p = None"
    and "oversized alloc E s (sv_gateway (pr_server p))"
  shows "process_step alloc D E (Serves (Reads_from s)) p = None \<and>
    (\<exists>as p'. process_run alloc D E as p = Some p' \<and> w_sessions (pr_world p') = {} \<and>
      (pr_main p' = Some [] \<and> w_db (pr_world p') = None \<and> (\<forall>x \<in> set (sv_threads (pr_server p')). x = Exited) \<or>
       \<not> all_idle (pr_server p) \<and> pr_main p' \<noteq> None \<and> (\<exists>x \<in> set (sv_threads (pr_server p')). crashed D x)))"
proof
  show "process_step alloc D E (Serves (Reads_from s)) p = None" using assms(2,3) by (simp add: may_def)
  have reach: "server_reach D E (pr_server p)"
    using process_serving(1) [OF assms(1)] assms(2) by (simp add: serving_def)
  obtain as st where run: "list_all pool_action as" "server_run D E as (pr_server p) = Some st" "all_ended D st"
    and still: "all_idle (pr_server p) \<Longrightarrow> all_idle st"
  proof (cases "all_idle (pr_server p)")
    case True
    show thesis by (rule that [of "[]" "pr_server p"]) (use True in \<open>auto simp: all_idle_def all_ended_def list_all_iff\<close>)
  next
    case False
    then show thesis using pool_finishes [OF server_reach_ok [OF reach]] that by blast
  qed
  let ?p1 = "p\<lparr>pr_server := st\<rparr>"
  note served = serve_pool [OF run(1,2) assms(2), of alloc]
  have over: "oversized alloc E s (sv_gateway st)" using assms(3) served by (simp add: oversized_def)
  obtain ss where ss: "distinct ss" "set ss = set (sessions_ptrs (g_acceptor (sv_gateway st)))"
    by (rule that [of "remdups (sessions_ptrs (g_acceptor (sv_gateway st)))"]) simp_all
  let ?p2 = "?p1\<lparr>pr_main := Some (unwind ss)\<rparr>"
  have throw: "process_step alloc D E (Throws s ss) ?p1 = Some ?p2" using assms(2) over ss by simp
  have "server_ok D E st" using server_reach_ok [OF server_run_reach [OF reach run(2)]] .
  then have "w_sessions (sv_world st) = set ss" using ss(2) by (simp add: server_ok_def accepted_def)
  then obtain q where q: "process_run alloc D E (replicate (length (until_join ss)) Unwinds) ?p2 = Some q"
    "pr_main q = Some from_join" "w_sessions (pr_world q) = {}" "sv_threads (pr_server q) = sv_threads st"
    using destroy_until_join [of ?p2 ss alloc D E] by auto
  let ?as = "map Serves as @ Throws s ss # replicate (length (until_join ss)) Unwinds"
  have to_join: "process_run alloc D E ?as p = Some q"
    using served throw q(1) by (simp add: process_run_append del: process_step.simps)
  show "\<exists>as p'. process_run alloc D E as p = Some p' \<and> w_sessions (pr_world p') = {} \<and>
      (pr_main p' = Some [] \<and> w_db (pr_world p') = None \<and> (\<forall>x \<in> set (sv_threads (pr_server p')). x = Exited) \<or>
       \<not> all_idle (pr_server p) \<and> pr_main p' \<noteq> None \<and> (\<exists>x \<in> set (sv_threads (pr_server p')). crashed D x))"
  proof (cases "all_idle st")
    case True
    then have "all_idle (pr_server q)" using q(4) by (simp add: all_idle_def)
    from destroy_from_join [OF q(2) this, of alloc D E] obtain q' where
      q': "process_run alloc D E (replicate (length from_join) Unwinds) q = Some q'" "pr_main q' = Some []"
        "w_sessions (pr_world q') = {}" "w_db (pr_world q') = None"
        "sv_threads (pr_server q') = map (\<lambda>_. Exited) (sv_threads (pr_server q))"
      using q(3) by auto
    have "process_run alloc D E (?as @ replicate (length from_join) Unwinds) p = Some q'"
      using process_run_append [of alloc D E ?as "replicate (length from_join) Unwinds" p] to_join q'(1)
      by (simp del: process_step.simps)
    then show ?thesis using q'(2-5) by (intro exI [of _ "?as @ replicate (length from_join) Unwinds"] exI [of _ q']) simp
  next
    case False
    then obtain x where "x \<in> set (sv_threads st)" "crashed D x"
      using run(3) by (auto simp: all_idle_def all_ended_def list_all_iff)
    then show ?thesis using to_join q(2-4) still False by (intro exI [of _ ?as] exI [of _ q]) auto
  qed
qed

lemma one_header_ends_server_witness:
  "\<exists>as p'. process_run small_heap Storage_db sample_env as before_throw = Some p' \<and> pr_main p' = Some [] \<and>
     w_db (pr_world p') = None"
  using one_header_ends_server [OF before_throw_reach before_throw_facts(1,2)] Storage_never_crashes by blast

text \<open>C24: Ending is not safe: if, when that header arrives, a request waits and a pool thread is free, or a
  write waits in the queue, or a write is in flight, there is a schedule that uses a destroyed
  object: a thread starts the request after its session has been destroyed, a worker runs the write
  on its destroyed writer, or the destruction of the network context unlocks a destroyed mutex.\<close>

theorem ending_uses_destroyed:
  assumes "process_reach alloc D E p" and "pr_main p = None"
    and "oversized alloc E s (sv_gateway (pr_server p))"
    and "g_jobs (sv_gateway (pr_server p)) \<noteq> [] \<and> thread_at k (pr_server p) = Some InRun \<or>
      write_tasks p \<noteq> [] \<or> pr_writing p \<noteq> {}"
  shows "\<exists>as p' a p''. process_run alloc D E as p = Some p' \<and> process_step alloc D E a p' = Some p'' \<and> dangling a p'"
proof -
  have reach: "server_reach D E (pr_server p)"
    using process_serving(1) [OF assms(1)] assms(2) by (simp add: serving_def)
  obtain ss where ss: "distinct ss" "set ss = set (sessions_ptrs (g_acceptor (sv_gateway (pr_server p))))"
    by (rule that [of "remdups (sessions_ptrs (g_acceptor (sv_gateway (pr_server p))))"]) simp_all
  let ?rest = "[Drop_handlers, Quit_queue, Join_queue, Stop_pool, Join_pool, Delete_engine, Delete_channels, Delete_users, Delete_db]"
  let ?p1 = "p\<lparr>pr_main := Some (unwind ss)\<rparr>" and ?p2 = "p\<lparr>pr_main := Some (map Delete_session ss @ ?rest)\<rparr>"
  have steps: "process_step alloc D E (Throws s ss) p = Some ?p1" "process_step alloc D E Unwinds ?p1 = Some ?p2"
    using assms(2,3) ss by (simp_all add: unwind_simp)
  obtain q where q: "process_run alloc D E (replicate (length ss) Unwinds) ?p2 = Some q" "pr_main q = Some ?rest"
    "w_sessions (pr_world q) = w_sessions (pr_world p) - set ss" "write_tasks q = write_tasks ?p2"
    "pr_writing q = pr_writing p" "sv_threads (pr_server q) = sv_threads (pr_server p)"
    "g_jobs (sv_gateway (pr_server q)) = g_jobs (sv_gateway (pr_server p))"
    by (rule exE [OF delete_sessions [of ?p2 ss ?rest alloc D E]], simp) (elim conjE, erule that, simp_all)
  have "w_sessions (pr_world p) = set ss"
    using server_reach_ok [OF reach] ss(2) by (simp add: server_ok_def accepted_def)
  then have gone: "w_sessions (pr_world q) = {}" using q(3) by simp
  have run: "process_run alloc D E (Throws s ss # Unwinds # replicate (length ss) Unwinds) p = Some q"
    using steps q(1) by (simp del: process_step.simps)
  have "\<exists>a p''. process_step alloc D E a q = Some p'' \<and> dangling a q"
    using assms(4)
  proof (elim disjE conjE)
    assume jobs: "g_jobs (sv_gateway (pr_server p)) \<noteq> []" and k: "thread_at k (pr_server p) = Some InRun"
    have "thread_at k (pr_server q) = Some InRun" using k q(6) by simp
    moreover have "may alloc E (Picks k 0 sorted_ids) q" using q(2) by (simp add: may_def)
    ultimately have "process_step alloc D E (Serves (Picks k 0 sorted_ids)) q \<noteq> None"
      using jobs q(7) by (simp add: Let_def split: prod.split del: thread_at_Some)
    moreover have "dangling (Serves (Picks k 0 sorted_ids)) q" using jobs q(7) gone by (simp add: dangling_def)
    ultimately show ?thesis by blast
  next
    assume "write_tasks p \<noteq> []"
    then obtain t ts where t: "write_tasks q = t # ts" using q(4) by (cases "write_tasks p") simp_all
    then have "process_step alloc D E Starts_write q = Some (set_tasks ts q)"
      using q(2) gone by (cases t) simp
    moreover have "dangling Starts_write q" using t gone by (simp add: dangling_def)
    ultimately show ?thesis by blast
  next
    assume "pr_writing p \<noteq> {}"
    then have "dangling Unwinds q" using q(2,5) gone by (simp add: dangling_def)
    moreover have "\<exists>p''. process_step alloc D E Unwinds q = Some p''" using q(2) by simp
    ultimately show ?thesis by blast
  qed
  with run show ?thesis by blast
qed

lemma ending_uses_destroyed_witness:
  "\<exists>as p' a p''. process_run small_heap Storage_db sample_env as before_throw = Some p' \<and>
     process_step small_heap Storage_db sample_env a p' = Some p'' \<and> dangling a p'"
proof (rule ending_uses_destroyed [OF before_throw_reach before_throw_facts(1,2), of 0])
  have "g_jobs (sv_gateway (pr_server before_throw)) \<noteq> []" using before_throw_facts(3) by auto
  moreover have "thread_at 0 (pr_server before_throw) = Some InRun"
    using before_throw_facts(4) by (auto simp del: thread_at_Some split: option.splits runner.splits)
  ultimately show "g_jobs (sv_gateway (pr_server before_throw)) \<noteq> [] \<and>
      thread_at 0 (pr_server before_throw) = Some InRun \<or> write_tasks before_throw \<noteq> [] \<or> pr_writing before_throw \<noteq> {}"
    by blast
qed

end
