(* ===== verification/Pg_Programs.thy ===== *)
theory Pg_Programs
  imports Wrapper_Pg Programs
begin

text \<open>
  The member functions of \<open>WrapperPg\<close> as programs of the steps between which other threads run:
  \<open>mutex_\<close> is the mutex of the programs, and a step that sends a query says that it uses the
  connection, which libpq lets only one thread use at a time. \<open>execThreadSafe\<close> holds the mutex
  while it does. Every program run by itself is the function of theory \<open>Wrapper_Pg\<close>.
\<close>

section \<open>Queries\<close>

datatype pg_access = Uses_connection

type_synonym ('pg, 'a) pg_prog = "(pg_access list, 'pg wrapper, 'a) prog"

definition connected_prog :: "('pg, bool) pg_prog" where
  "connected_prog = atom [] (eff_gets isConnected)"

definition exec_prog :: "'pg libpq \<Rightarrow> string \<Rightarrow> ('pg, pg_result) pg_prog" where
  "exec_prog L query = atom [Uses_connection] (exec_query L query)"

definition execThreadSafe_prog :: "'pg libpq \<Rightarrow> string \<Rightarrow> ('pg, pg_result) pg_prog" where
  "execThreadSafe_prog L query = with_lock (exec_prog L query)"

text \<open>Reading a result, which belongs to the call, or formatting a message.\<close>

definition on_result :: "('pg wrapper, 'a) eff \<Rightarrow> ('pg, 'a) pg_prog" where
  "on_result m = atom [] m"

fun prog_map :: "('a \<Rightarrow> ('pg, 'b) pg_prog) \<Rightarrow> 'a list \<Rightarrow> ('pg, 'b list) pg_prog" where
  "prog_map f [] = prog_return []"
| "prog_map f (x # xs) =
     prog_bind (f x) (\<lambda>y.
     prog_bind (prog_map f xs) (\<lambda>ys.
     prog_return (y # ys)))"

section \<open>The member functions\<close>

definition Pg_getClientId_prog :: "'pg libpq \<Rightarrow> string \<Rightarrow> ('pg, type_id_user) pg_prog" where
  "Pg_getClientId_prog L client_name =
     prog_bind connected_prog (\<lambda>connected.
     if connected then
       prog_bind (execThreadSafe_prog L
           (''SELECT id FROM clients WHERE login='' @ sq client_name @ '';'')) (\<lambda>res.
       if result_status res \<noteq> PGRES_TUPLES_OK then prog_return REG_LOGIN_IS_BUSY
       else if PQntuples res \<noteq> 0 then on_result (value_id res 0 0)
       else prog_return 0)
     else prog_return REG_LOGIN_IS_BUSY)"

definition Pg_getChannelId_prog :: "'pg libpq \<Rightarrow> string \<Rightarrow> ('pg, type_id_user) pg_prog" where
  "Pg_getChannelId_prog L channel_name =
     prog_bind connected_prog (\<lambda>connected.
     if \<not> connected then prog_return LOGIN_IS_FREE
     else
       prog_bind (execThreadSafe_prog L
           (''SELECT DISTINCT id FROM channels WHERE channel_name='' @ sq channel_name @ '';'')) (\<lambda>res.
       if result_status res = PGRES_TUPLES_OK then
         if PQntuples res \<noteq> 0 then on_result (value_id res 0 0)
         else prog_return LOGIN_IS_FREE
       else prog_return LOGIN_IS_FREE))"

definition Pg_getChannelName_prog :: "'pg libpq \<Rightarrow> type_id_user \<Rightarrow> ('pg, string) pg_prog" where
  "Pg_getChannelName_prog L channel_id =
     prog_bind connected_prog (\<lambda>connected.
     if connected then
       prog_bind (execThreadSafe_prog L
           (''SELECT channel_name FROM channels WHERE id='' @ sq (to_string channel_id) @ '';'')) (\<lambda>res.
       if result_status res \<noteq> PGRES_TUPLES_OK then prog_return []
       else if PQntuples res \<noteq> 0 then on_result (PQgetvalue res 0 0)
       else prog_return [])
     else prog_return [])"

definition Pg_getClientName_prog :: "'pg libpq \<Rightarrow> type_id_user \<Rightarrow> ('pg, string) pg_prog" where
  "Pg_getClientName_prog L client_id =
     prog_bind connected_prog (\<lambda>connected.
     if \<not> connected then prog_return []
     else
       prog_bind (execThreadSafe_prog L
           (''SELECT login FROM clients WHERE id='' @ sq (to_string client_id) @ '';'')) (\<lambda>res.
       if result_status res \<noteq> PGRES_TUPLES_OK then prog_return []
       else if PQntuples res \<noteq> 0 then on_result (PQgetvalue res 0 0)
       else prog_return []))"

definition Pg_checkRegUser_prog ::
  "'pg libpq \<Rightarrow> input_settings \<Rightarrow> ('pg, type_id_user) pg_prog" where
  "Pg_checkRegUser_prog L settings =
     prog_bind connected_prog (\<lambda>connected.
     if \<not> connected then prog_return LOGIN_IS_FREE
     else
       prog_bind (Pg_getClientId_prog L (clientName settings)) (\<lambda>found.
       if found = LOGIN_IS_FREE then
         prog_bind (execThreadSafe_prog L
             (''INSERT INTO clients(login, password) VALUES ('' @ sq (clientName settings) @ '', ''
              @ sq (clientPassword settings) @ '');'')) (\<lambda>res.
         Pg_getClientId_prog L (clientName settings))
       else prog_return LOGIN_IS_FREE))"

definition Pg_checkAuthUser_prog ::
  "'pg libpq \<Rightarrow> input_settings \<Rightarrow> ('pg, type_id_user) pg_prog" where
  "Pg_checkAuthUser_prog L settings =
     prog_bind connected_prog (\<lambda>connected.
     if \<not> connected then prog_return AUTH_LOGIN_IS_NOT_AVAILABLE
     else
       prog_bind (execThreadSafe_prog L
           (''SELECT id, password FROM clients WHERE login='' @ sq (clientName settings) @ '';'')) (\<lambda>res.
       if result_status res \<noteq> PGRES_TUPLES_OK then prog_return AUTH_LOGIN_IS_NOT_AVAILABLE
       else if PQntuples res \<noteq> 0 then
         prog_bind (on_result (PQgetvalue res 0 1)) (\<lambda>stored.
         if clientPassword settings = stored then on_result (value_id res 0 0)
         else prog_return AUTH_LOGIN_IS_NOT_AVAILABLE)
       else prog_return AUTH_LOGIN_IS_NOT_AVAILABLE))"

definition Pg_getUserNameChannels_prog ::
  "'pg libpq \<Rightarrow> type_id_user \<Rightarrow> ('pg, string list) pg_prog" where
  "Pg_getUserNameChannels_prog L client_id =
     prog_bind connected_prog (\<lambda>connected.
     if \<not> connected then prog_return []
     else
       prog_bind (execThreadSafe_prog L
           (''SELECT DISTINCT channel_name FROM history WHERE client_id='' @ to_string client_id @ '';''))
         (\<lambda>res.
       if result_status res = PGRES_TUPLES_OK then
         prog_map (\<lambda>i. on_result (PQgetvalue res i 0)) [0..<PQntuples res]
       else prog_return []))"

definition Pg_getChannelUsers_prog ::
  "'pg libpq \<Rightarrow> type_id_user \<Rightarrow> ('pg, type_id_user list) pg_prog" where
  "Pg_getChannelUsers_prog L channel_id =
     prog_bind connected_prog (\<lambda>connected.
     if \<not> connected then prog_return []
     else
       prog_bind (execThreadSafe_prog L
           (''SELECT DISTINCT client_id FROM subscriptions WHERE channel_id='' @ to_string channel_id @ '';''))
         (\<lambda>res.
       if result_status res = PGRES_TUPLES_OK then
         prog_map (\<lambda>i. on_result (value_id res i 0)) [0..<PQntuples res]
       else prog_return []))"

definition Pg_hasChannel_prog :: "'pg libpq \<Rightarrow> string \<Rightarrow> ('pg, bool) pg_prog" where
  "Pg_hasChannel_prog L channelName =
     prog_bind connected_prog (\<lambda>connected.
     if \<not> connected then prog_return False
     else
       prog_bind (execThreadSafe_prog L
           (''SELECT channel_name FROM channels WHERE channel_name='' @ sq channelName @ '';'')) (\<lambda>res.
       if result_status res = PGRES_TUPLES_OK then prog_return (PQntuples res > 0)
       else prog_fail (Thrown (Invalid_argument ''wrong hasChannel''))))"

definition Pg_createChannel_prog :: "'pg libpq \<Rightarrow> string \<Rightarrow> ('pg, type_id_user) pg_prog" where
  "Pg_createChannel_prog L channel_name =
     prog_bind connected_prog (\<lambda>connected.
     if \<not> connected then prog_return LOGIN_IS_FREE
     else
       prog_bind (Pg_getChannelId_prog L channel_name) (\<lambda>channel_id.
       if channel_id = LOGIN_IS_FREE then
         prog_bind (execThreadSafe_prog L
             (''INSERT INTO channels(channel_name) VALUES ('' @ sq channel_name @ '');'')) (\<lambda>res.
         Pg_getChannelId_prog L channel_name)
       else prog_return channel_id))"

definition Pg_hasChannelClient_prog ::
  "'pg libpq \<Rightarrow> type_id_user \<Rightarrow> type_id_user \<Rightarrow> ('pg, bool) pg_prog" where
  "Pg_hasChannelClient_prog L channel_id client_id =
     prog_bind connected_prog (\<lambda>connected.
     if \<not> connected then prog_return False
     else
       prog_bind (execThreadSafe_prog L
           (''SELECT * FROM subscriptions WHERE client_id='' @ sq (to_string client_id)
            @ '' AND channel_id='' @ sq (to_string channel_id) @ '';'')) (\<lambda>res.
       if result_status res = PGRES_TUPLES_OK then prog_return (PQntuples res > 0)
       else prog_return False))"

definition Pg_joinClientChannel_prog ::
  "'pg libpq \<Rightarrow> env \<Rightarrow> type_id_user \<Rightarrow> string \<Rightarrow> ('pg, unit) pg_prog" where
  "Pg_joinClientChannel_prog L E client_id channel_name =
     prog_bind connected_prog (\<lambda>connected.
     if \<not> connected then prog_return ()
     else
       prog_bind (Pg_getChannelId_prog L channel_name) (\<lambda>channel_id.
       prog_bind (Pg_hasChannelClient_prog L channel_id client_id) (\<lambda>subscribed.
       if subscribed then prog_return ()
       else
         prog_bind (execThreadSafe_prog L
             (''INSERT INTO subscriptions VALUES('' @ to_string client_id @ '', ''
              @ to_string channel_id @ '');'')) (\<lambda>res.
         if result_status res = PGRES_COMMAND_OK then
           on_result (boost_format E ''joinClientChannel: successfully add client_id=%1% to channel='' 2)
         else prog_return ()))))"

definition Pg_addMsgHistory_prog ::
  "'pg libpq \<Rightarrow> type_id_user \<Rightarrow> text_msg \<Rightarrow> ('pg, unit) pg_prog" where
  "Pg_addMsgHistory_prog L channel_id message =
     (let ss = format_datetime (msg_dt message) in
      prog_bind (Pg_getClientId_prog L (msg_author message)) (\<lambda>client_id.
      prog_bind (exec_prog L
          (''insert into history(client_id, channel_name, datetime, message) '' @
           ''values ('' @ to_string client_id @ '', '' @ sq (msg_channel_name message) @ '', ''
           @ sq ss @ '', '' @ sq (msg_text message) @ '');'')) (\<lambda>res.
      prog_return ())))"

definition Pg_history_row_prog ::
  "'pg libpq \<Rightarrow> env \<Rightarrow> string \<Rightarrow> pg_result \<Rightarrow> nat \<Rightarrow> ('pg, text_msg) pg_prog" where
  "Pg_history_row_prog L E channel_name res i =
     prog_bind (on_result (value_id res i 0)) (\<lambda>client_id.
     prog_bind (Pg_getClientName_prog L client_id) (\<lambda>author.
     prog_bind (on_result (PQgetvalue res i 2)) (\<lambda>dt.
     prog_bind (on_result (PQgetvalue res i 3)) (\<lambda>message.
     prog_return \<lparr>msg_author = author, msg_text = message, msg_channel_name = channel_name,
                 msg_dt = datetime_of_tm E (get_time dt (unset_tm E))\<rparr>))))"

definition Pg_getHistory_prog ::
  "'pg libpq \<Rightarrow> env \<Rightarrow> type_id_user \<Rightarrow> ('pg, text_msg list) pg_prog" where
  "Pg_getHistory_prog L E channel_id =
     prog_bind connected_prog (\<lambda>connected.
     if \<not> connected then prog_return []
     else
       prog_bind (Pg_getChannelName_prog L channel_id) (\<lambda>channel_name.
       prog_bind (execThreadSafe_prog L
           (''SELECT * FROM history WHERE channel_name='' @ sq channel_name @ '';'')) (\<lambda>res.
       if result_status res = PGRES_TUPLES_OK then
         prog_map (Pg_history_row_prog L E channel_name res) [0..<PQntuples res]
       else prog_return [])))"

definition Pg_getCurrentChannels_prog ::
  "'pg libpq \<Rightarrow> ('pg, type_id_user \<rightharpoonup> string) pg_prog" where
  "Pg_getCurrentChannels_prog L =
     prog_bind connected_prog (\<lambda>connected.
     if \<not> connected then prog_return Map.empty
     else
       prog_bind (execThreadSafe_prog L ''SELECT * FROM channels;'') (\<lambda>res.
       if result_status res = PGRES_TUPLES_OK then
         prog_bind (prog_map (\<lambda>i. on_result (channel_row res i)) [0..<PQntuples res]) (\<lambda>channels.
         prog_return (assign_all channels Map.empty))
       else prog_return Map.empty))"

section \<open>By itself, a program is the function\<close>

lemma run_query [run_simps]:
  "run connected_prog = eff_gets isConnected" "run (exec_prog L q) = exec_query L q"
  "run (execThreadSafe_prog L q) = execThreadSafe L q" "run (on_result m) = m"
  by (simp_all add: connected_prog_def exec_prog_def execThreadSafe_prog_def execThreadSafe_def on_result_def run_simps)

lemma run_map [run_simps]: "run (prog_map f xs) = eff_map (\<lambda>x. run (f x)) xs"
  by (induction xs) (simp_all add: run_simps)

lemmas pg_branch_cong = if_cong option.case_cong

lemma run_lookups [run_simps]:
  "run (Pg_getClientId_prog L n) = WrapperPg_getClientId L n"
  "run (Pg_getChannelId_prog L n) = WrapperPg_getChannelId L n"
  "run (Pg_getChannelName_prog L i) = WrapperPg_getChannelName L i"
  "run (Pg_getClientName_prog L i) = WrapperPg_getClientName L i"
  "run (Pg_hasChannelClient_prog L i j) = WrapperPg_hasChannelClient L i j"
  by (simp_all add: Pg_getClientId_prog_def WrapperPg_getClientId_def Pg_getChannelId_prog_def
      WrapperPg_getChannelId_def Pg_getChannelName_prog_def WrapperPg_getChannelName_def
      Pg_getClientName_prog_def WrapperPg_getClientName_def Pg_hasChannelClient_prog_def
      WrapperPg_hasChannelClient_def run_simps cong: pg_branch_cong)

lemma run_history_row [run_simps]: "run (Pg_history_row_prog L E n res i) = history_row L E n res i"
  by (simp add: Pg_history_row_prog_def history_row_def run_simps)

lemma run_calls [run_simps]:
  "run (Pg_checkRegUser_prog L s) = WrapperPg_checkRegUser L s"
  "run (Pg_checkAuthUser_prog L s) = WrapperPg_checkAuthUser L s"
  "run (Pg_getUserNameChannels_prog L i) = WrapperPg_getUserNameChannels L i"
  "run (Pg_getChannelUsers_prog L i) = WrapperPg_getChannelUsers L i"
  "run (Pg_hasChannel_prog L n) = WrapperPg_hasChannel L n"
  "run (Pg_createChannel_prog L n) = WrapperPg_createChannel L n"
  "run (Pg_joinClientChannel_prog L E i n) = WrapperPg_joinClientChannel L E i n"
  "run (Pg_addMsgHistory_prog L i m) = WrapperPg_addMsgHistory L i m"
  "run (Pg_getHistory_prog L E i) = WrapperPg_getHistory L E i"
  "run (Pg_getCurrentChannels_prog L) = WrapperPg_getCurrentChannels L"
  by (simp_all add: Pg_checkRegUser_prog_def WrapperPg_checkRegUser_def Pg_checkAuthUser_prog_def
      WrapperPg_checkAuthUser_def Pg_getUserNameChannels_prog_def WrapperPg_getUserNameChannels_def
      Pg_getChannelUsers_prog_def WrapperPg_getChannelUsers_def Pg_hasChannel_prog_def
      WrapperPg_hasChannel_def Pg_createChannel_prog_def WrapperPg_createChannel_def
      Pg_joinClientChannel_prog_def WrapperPg_joinClientChannel_def Pg_addMsgHistory_prog_def
      WrapperPg_addMsgHistory_def Pg_getHistory_prog_def WrapperPg_getHistory_def
      Pg_getCurrentChannels_prog_def WrapperPg_getCurrentChannels_def eff_throw_def Let_def run_simps
      cong: pg_branch_cong)

section \<open>The mutex\<close>

text \<open>All but \<open>addMsgHistory\<close> use the connection only while they hold the mutex.\<close>

definition uses_connection :: "pg_access list \<Rightarrow> bool" where
  "uses_connection as \<longleftrightarrow> as \<noteq> []"

lemma query_discipline [discipline_rules]:
  "disciplined uses_connection connected_prog False"
  "disciplined uses_connection (execThreadSafe_prog L q) False"
  "disciplined uses_connection (on_result m) False"
  unfolding connected_prog_def execThreadSafe_prog_def exec_prog_def on_result_def
  by (intro discipline_rules; simp add: uses_connection_def)+

lemma map_discipline [discipline_rules]:
  assumes "\<And>x. disciplined uses_connection (f x) False"
  shows "disciplined uses_connection (prog_map f xs) False"
  by (induction xs) (simp_all only: prog_map.simps, (intro discipline_rules assms; assumption?)+)

lemma lookup_discipline [discipline_rules]:
  "disciplined uses_connection (Pg_getClientId_prog L n) False"
  "disciplined uses_connection (Pg_getChannelId_prog L n) False"
  "disciplined uses_connection (Pg_getChannelName_prog L i) False"
  "disciplined uses_connection (Pg_getClientName_prog L i) False"
  "disciplined uses_connection (Pg_hasChannelClient_prog L i j) False"
  unfolding Pg_getClientId_prog_def Pg_getChannelId_prog_def Pg_getChannelName_prog_def
    Pg_getClientName_prog_def Pg_hasChannelClient_prog_def
  by (intro discipline_rules)+

lemma row_discipline [discipline_rules]: "disciplined uses_connection (Pg_history_row_prog L E n res i) False"
  unfolding Pg_history_row_prog_def by (intro discipline_rules)

lemma call_discipline [discipline_rules]:
  "disciplined uses_connection (Pg_checkRegUser_prog L s) False"
  "disciplined uses_connection (Pg_checkAuthUser_prog L s) False"
  "disciplined uses_connection (Pg_getUserNameChannels_prog L i) False"
  "disciplined uses_connection (Pg_getChannelUsers_prog L i) False"
  "disciplined uses_connection (Pg_hasChannel_prog L n) False"
  "disciplined uses_connection (Pg_createChannel_prog L n) False"
  "disciplined uses_connection (Pg_joinClientChannel_prog L E i n) False"
  "disciplined uses_connection (Pg_getHistory_prog L E i) False"
  "disciplined uses_connection (Pg_getCurrentChannels_prog L) False"
  unfolding Pg_checkRegUser_prog_def Pg_checkAuthUser_prog_def Pg_getUserNameChannels_prog_def
    Pg_getChannelUsers_prog_def Pg_hasChannel_prog_def Pg_createChannel_prog_def
    Pg_joinClientChannel_prog_def Pg_getHistory_prog_def Pg_getCurrentChannels_prog_def
  by (intro discipline_rules)+

section \<open>Calls on several threads\<close>

text \<open>The calls of the interface that requests make; each thread makes one.\<close>

datatype pg_call =
    Call_checkRegUser input_settings
  | Call_checkAuthUser input_settings
  | Call_getUserNameChannels type_id_user
  | Call_getChannelUsers type_id_user
  | Call_hasChannel string
  | Call_createChannel string
  | Call_joinClientChannel type_id_user string
  | Call_addMsgHistory type_id_user text_msg
  | Call_getHistory type_id_user
  | Call_getChannelId string
  | Call_getCurrentChannels

definition ignore_value :: "('pg, 'a) pg_prog \<Rightarrow> ('pg, unit) pg_prog" where
  "ignore_value p = prog_bind p (\<lambda>_. prog_return ())"

fun pg_call_prog :: "'pg libpq \<Rightarrow> env \<Rightarrow> pg_call \<Rightarrow> ('pg, unit) pg_prog" where
  "pg_call_prog L E (Call_checkRegUser s) = ignore_value (Pg_checkRegUser_prog L s)"
| "pg_call_prog L E (Call_checkAuthUser s) = ignore_value (Pg_checkAuthUser_prog L s)"
| "pg_call_prog L E (Call_getUserNameChannels i) = ignore_value (Pg_getUserNameChannels_prog L i)"
| "pg_call_prog L E (Call_getChannelUsers i) = ignore_value (Pg_getChannelUsers_prog L i)"
| "pg_call_prog L E (Call_hasChannel n) = ignore_value (Pg_hasChannel_prog L n)"
| "pg_call_prog L E (Call_createChannel n) = ignore_value (Pg_createChannel_prog L n)"
| "pg_call_prog L E (Call_joinClientChannel i n) = Pg_joinClientChannel_prog L E i n"
| "pg_call_prog L E (Call_addMsgHistory i m) = Pg_addMsgHistory_prog L i m"
| "pg_call_prog L E (Call_getHistory i) = ignore_value (Pg_getHistory_prog L E i)"
| "pg_call_prog L E (Call_getChannelId n) = ignore_value (Pg_getChannelId_prog L n)"
| "pg_call_prog L E Call_getCurrentChannels = ignore_value (Pg_getCurrentChannels_prog L)"

fun adds_message :: "pg_call \<Rightarrow> bool" where
  "adds_message (Call_addMsgHistory i m) = True"
| "adds_message _ = False"

record 'pg crew =
  cr_wrapper :: "'pg wrapper"
  cr_holder :: "nat option" \<comment> \<open>the thread that has \<open>mutex_\<close>\<close>
  cr_threads :: "('pg, unit) pg_prog list"

definition crew_start :: "'pg libpq \<Rightarrow> env \<Rightarrow> pg_call list \<Rightarrow> 'pg wrapper \<Rightarrow> 'pg crew" where
  "crew_start L E calls w = \<lparr>cr_wrapper = w, cr_holder = None, cr_threads = map (pg_call_prog L E) calls\<rparr>"

definition crew_step :: "nat \<Rightarrow> 'pg crew \<Rightarrow> 'pg crew option" where
  "crew_step k c =
     (if k < length (cr_threads c) then
        case prog_step k (cr_threads c ! k) (cr_holder c) (cr_wrapper c) of
          None \<Rightarrow> None
        | Some (p, h, w) \<Rightarrow> Some \<lparr>cr_wrapper = w, cr_holder = h, cr_threads = (cr_threads c)[k := p]\<rparr>
      else None)"

inductive crew_reach :: "'pg crew \<Rightarrow> 'pg crew \<Rightarrow> bool" for c0 where
  crew_here: "crew_reach c0 c0"
| crew_next: "crew_reach c0 c \<Longrightarrow> crew_step k c = Some c' \<Longrightarrow> crew_reach c0 c'"

text \<open>No crew runs for ever: each step brings one of its programs nearer to its end.\<close>

definition crew_order :: "('pg crew \<times> 'pg crew) set" where
  "crew_order = {(c', c). \<exists>k. crew_step k c = Some c'}"

lemma wf_crew: "wf (crew_order :: ('pg crew \<times> 'pg crew) set)"
proof (rule wf_subset)
  show "wf (inv_image (mult prog_order) (\<lambda>c :: 'pg crew. mset (cr_threads c)))"
    by (intro wf_inv_image wf_mult wf_prog_order)
  show "(crew_order :: ('pg crew \<times> 'pg crew) set) \<subseteq> inv_image (mult prog_order) (\<lambda>c :: 'pg crew. mset (cr_threads c))"
  proof (rule subrelI)
    fix c' c :: "'pg crew"
    assume "(c', c) \<in> crew_order"
    then obtain k where "crew_step k c = Some c'" by (auto simp: crew_order_def)
    then obtain p h w where k: "k < length (cr_threads c)"
      and step: "prog_step k (cr_threads c ! k) (cr_holder c) (cr_wrapper c) = Some (p, h, w)"
      and c': "c' = \<lparr>cr_wrapper = w, cr_holder = h, cr_threads = (cr_threads c)[k := p]\<rparr>"
      by (auto simp: crew_step_def split: if_splits option.splits)
    have "mset (cr_threads c') + {#cr_threads c ! k#} = mset (cr_threads c) + {#p#}"
      using mset_concat_update [OF k, of "\<lambda>x. [x]" p] by (simp add: c')
    from replaced_smaller [OF this prog_step_order [OF step]]
    show "(c', c) \<in> inv_image (mult prog_order) (\<lambda>c :: 'pg crew. mset (cr_threads c))" by simp
  qed
qed

text \<open>Two threads that are both about to use the connection.\<close>

definition about_to_query :: "nat \<Rightarrow> 'pg crew \<Rightarrow> bool" where
  "about_to_query k c \<longleftrightarrow>
     k < length (cr_threads c) \<and> (case next_label (cr_threads c ! k) of Some l \<Rightarrow> uses_connection l | None \<Rightarrow> False)"

definition connection_shared :: "'pg crew \<Rightarrow> bool" where
  "connection_shared c \<longleftrightarrow>
     (\<exists>j < length (cr_threads c). \<exists>k < length (cr_threads c). j \<noteq> k \<and> about_to_query j c \<and> about_to_query k c)"

text \<open>The steps of one thread are steps of the crew.\<close>

lemma alone_crew:
  assumes "steps_alone k x y" and "crew_reach c0 \<lparr>cr_wrapper = snd (snd x), cr_holder = fst (snd x), cr_threads = ps\<rparr>"
    and "k < length ps" and "ps ! k = fst x"
  shows "crew_reach c0 \<lparr>cr_wrapper = snd (snd y), cr_holder = fst (snd y), cr_threads = ps[k := fst y]\<rparr>"
  using assms
proof (induction arbitrary: ps rule: steps_alone.induct)
  case (alone_refl x)
  then show ?case by (metis list_update_id)
next
  case (alone_step p h s y z)
  obtain q h' t where y: "y = (q, h', t)" by (cases y)
  have "crew_step k \<lparr>cr_wrapper = s, cr_holder = h, cr_threads = ps\<rparr> =
      Some \<lparr>cr_wrapper = t, cr_holder = h', cr_threads = ps[k := q]\<rparr>"
    using alone_step.hyps(1) alone_step.prems y by (simp add: crew_step_def)
  with alone_step.prems(1) have "crew_reach c0 \<lparr>cr_wrapper = t, cr_holder = h', cr_threads = ps[k := q]\<rparr>"
    by (auto intro: crew_next)
  then show ?case using alone_step.IH [of "ps[k := q]"] alone_step.prems y by simp
qed

section \<open>The first query of a call\<close>

definition comes_to_query :: "('pg, 'a) pg_prog \<Rightarrow> 'pg wrapper \<Rightarrow> bool" where
  "comes_to_query p w \<longleftrightarrow>
     (\<forall>k. \<exists>q. steps_alone k (p, None, w) (q, Some k, w) \<and> next_label q = Some [Uses_connection])"

named_theorems query_rules \<open>calls that come to a query\<close>

lemma query_connected [query_rules]:
  assumes "isConnected w" and "comes_to_query (f True) w"
  shows "comes_to_query (prog_bind connected_prog f) w"
  unfolding comes_to_query_def
proof
  fix k
  obtain q where "steps_alone k (f True, None, w) (q, Some k, w)" "next_label q = Some [Uses_connection]"
    using assms(2) unfolding comes_to_query_def by blast
  moreover have "prog_step k (prog_bind connected_prog f) None w = Some (f True, None, w)"
    using assms(1) by (simp add: connected_prog_def atom_def)
  ultimately show "\<exists>q. steps_alone k (prog_bind connected_prog f, None, w) (q, Some k, w) \<and>
      next_label q = Some [Uses_connection]"
    by (blast intro: alone_step)
qed

lemma query_exec [query_rules]: "comes_to_query (prog_bind (execThreadSafe_prog L q) f) w"
proof -
  have "\<exists>q'. steps_alone k (prog_bind (execThreadSafe_prog L q) f, None, w) (q', Some k, w) \<and>
      next_label q' = Some [Uses_connection]" for k
    by (intro exI conjI, rule alone_step [OF _ alone_refl])
      (simp add: execThreadSafe_prog_def with_lock_def exec_prog_def atom_def)+
  then show ?thesis by (simp add: comes_to_query_def)
qed

lemma query_lookup [query_rules]:
  "isConnected w \<Longrightarrow> comes_to_query (prog_bind (Pg_getClientId_prog L n) f) w"
  "isConnected w \<Longrightarrow> comes_to_query (prog_bind (Pg_getChannelId_prog L n) f) w"
  "isConnected w \<Longrightarrow> comes_to_query (prog_bind (Pg_getChannelName_prog L i) g) w"
  unfolding Pg_getClientId_prog_def Pg_getChannelId_prog_def Pg_getChannelName_prog_def prog_bind_assoc
  by (rule query_connected, assumption, simp only: if_True simp_thms if_False prog_bind_assoc, rule query_exec)+

lemma call_queries:
  assumes "isConnected w"
  shows "comes_to_query (pg_call_prog L E x) w"
proof (cases x)
  case (Call_getChannelId n)
  then show ?thesis using assms by (simp add: ignore_value_def query_rules)
next
  case (Call_addMsgHistory i m)
  then show ?thesis using assms by (simp add: Pg_addMsgHistory_prog_def Let_def query_rules)
qed (use assms in \<open>simp_all only: pg_call_prog.simps ignore_value_def prog_bind_assoc Pg_checkRegUser_prog_def
  Pg_checkAuthUser_prog_def Pg_getUserNameChannels_prog_def Pg_getChannelUsers_prog_def Pg_hasChannel_prog_def
  Pg_createChannel_prog_def Pg_joinClientChannel_prog_def Pg_getHistory_prog_def Pg_getCurrentChannels_prog_def\<close>,
  (rule query_connected, assumption, simp only: if_True simp_thms if_False prog_bind_assoc, rule query_rules, assumption?)+)

lemma exec_connected: "exec_query L q w = (r, w') \<Longrightarrow> isConnected w' = isConnected w"
  by (auto simp: exec_query_def split: option.splits prod.splits)

lemma getClientId_connected: "WrapperPg_getClientId L n w = (r, w') \<Longrightarrow> isConnected w' = isConnected w"
  by (auto simp: WrapperPg_getClientId_def execThreadSafe_def bind_split value_id_def PQgetvalue_def stoi_id_def
      dest!: exec_connected split: prod.splits sum.splits if_splits)

section \<open>A server for the witnesses\<close>

text \<open>It is connected and answers every statement with no rows.\<close>

definition silent_libpq :: "unit libpq" where
  "silent_libpq = \<lparr>PQconnectdb = (\<lambda>_. ()), connection_ok = (\<lambda>_. True),
     PQexec = (\<lambda>_ _. (\<lparr>result_status = PGRES_TUPLES_OK, tuples = []\<rparr>, ()))\<rparr>"

definition silent_wrapper :: "unit wrapper" where
  "silent_wrapper = \<lparr>connection = Some (), isConnected = True\<rparr>"

definition silent_message :: text_msg where
  "silent_message = \<lparr>msg_author = ''ann'', msg_text = ''hi'', msg_channel_name = ''c'',
     msg_dt = \<lparr>dt_time = \<lparr>hours = 0, minutes = 0, seconds = 0\<rparr>, dt_date = \<lparr>day = 1, month = 1, year = 1\<rparr>\<rparr>\<rparr>"

section \<open>Properties\<close>

definition crew_ok :: "'pg crew \<Rightarrow> bool" where
  "crew_ok c \<longleftrightarrow>
     (\<forall>k < length (cr_threads c). disciplined uses_connection (cr_threads c ! k) (cr_holder c = Some k)) \<and>
     (\<forall>k. cr_holder c = Some k \<longrightarrow> k < length (cr_threads c))"

lemma crew_start_ok:
  assumes "\<forall>x \<in> set calls. \<not> adds_message x"
  shows "crew_ok (crew_start L E calls w)"
proof -
  have "disciplined uses_connection (pg_call_prog L E x) False" if "\<not> adds_message x" for x
    using that by (cases x) (simp_all only: pg_call_prog.simps adds_message.simps ignore_value_def simp_thms,
      (intro discipline_rules)+)
  then show ?thesis using assms by (simp add: crew_ok_def crew_start_def)
qed

lemma crew_step_ok:
  assumes "crew_ok c" and "crew_step k c = Some c'"
  shows "crew_ok c'"
proof -
  obtain p h w where k: "k < length (cr_threads c)"
    and step: "prog_step k (cr_threads c ! k) (cr_holder c) (cr_wrapper c) = Some (p, h, w)"
    and c': "c' = \<lparr>cr_wrapper = w, cr_holder = h, cr_threads = (cr_threads c)[k := p]\<rparr>"
    using assms(2) by (auto simp: crew_step_def split: if_splits option.splits)
  have d: "disciplined uses_connection (cr_threads c ! j) (cr_holder c = Some j)" if "j < length (cr_threads c)" for j
    using assms(1) that by (simp add: crew_ok_def)
  note next_ok = disciplined_step [OF d [OF k] step]
  have "disciplined uses_connection (cr_threads c' ! j) (cr_holder c' = Some j)" if "j < length (cr_threads c')" for j
    using that next_ok d [of j] by (cases "j = k") (simp_all add: c')
  moreover have "j < length (cr_threads c')" if "cr_holder c' = Some j" for j
    using that next_ok(2) [of j] assms(1) k by (cases "j = k") (simp_all add: c' crew_ok_def)
  ultimately show ?thesis by (simp add: crew_ok_def)
qed

lemma crew_reach_ok: "crew_reach c0 c \<Longrightarrow> crew_ok c0 \<Longrightarrow> crew_ok c"
  by (induction rule: crew_reach.induct) (auto intro: crew_step_ok)

lemma about_to_query_holds:
  assumes "crew_ok c" and "about_to_query k c"
  shows "cr_holder c = Some k"
proof -
  obtain l where k: "k < length (cr_threads c)" and l: "next_label (cr_threads c ! k) = Some l" "uses_connection l"
    using assms(2) by (auto simp: about_to_query_def split: option.splits)
  then obtain g where "cr_threads c ! k = Step l g" by (cases "cr_threads c ! k") simp_all
  moreover have "disciplined uses_connection (cr_threads c ! k) (cr_holder c = Some k)"
    using assms(1) k by (simp add: crew_ok_def)
  ultimately show ?thesis using l(2) by simp
qed

text \<open>C19: The mutex of \<open>WrapperPg\<close> does its work for all calls but \<open>addMsgHistory\<close>: in every interleaving of
  any number of them, over any libpq, two threads are never both about to use the connection; no
  interleaving goes on for ever, and none is stuck before every call has ended, though calls take
  the mutex many times.\<close>

theorem connection_guarded:
  fixes c :: "'pg crew"
  assumes "crew_reach (crew_start L E calls w) c" and "\<forall>x \<in> set calls. \<not> adds_message x"
  shows "\<not> connection_shared c \<and> wf (crew_order :: ('pg crew \<times> 'pg crew) set) \<and>
    ((\<forall>k. crew_step k c = None) \<longrightarrow> (\<forall>p \<in> set (cr_threads c). \<exists>r. p = Done r))"
proof (intro conjI wf_crew)
  have ok: "crew_ok c" using assms by (blast intro: crew_reach_ok crew_start_ok)
  show "\<not> connection_shared c"
    using about_to_query_holds [OF ok] unfolding connection_shared_def by (metis option.inject)
  show "(\<forall>k. crew_step k c = None) \<longrightarrow> (\<forall>p \<in> set (cr_threads c). \<exists>r. p = Done r)"
  proof
    assume stuck: "\<forall>k. crew_step k c = None"
    have d: "disciplined uses_connection (cr_threads c ! k) (cr_holder c = Some k)" if "k < length (cr_threads c)" for k
      using ok that by (simp add: crew_ok_def)
    have ended: "\<exists>r. cr_threads c ! k = Done r \<and> cr_holder c = None"
      if k: "k < length (cr_threads c)" "cr_holder c = Some k \<or> cr_holder c = None" for k
    proof -
      have "crew_step k c = None" using stuck by simp
      then have "prog_step k (cr_threads c ! k) (cr_holder c) (cr_wrapper c) = None"
        using k(1) by (auto simp: crew_step_def split: option.splits)
      then show ?thesis using disciplined_can_step [OF d [OF k(1)] k(2), of "cr_wrapper c"] by auto
    qed
    have "cr_holder c = None"
      using ended ok by (cases "cr_holder c") (auto simp: crew_ok_def)
    then show "\<forall>p \<in> set (cr_threads c). \<exists>r. p = Done r" using ended by (metis in_set_conv_nth)
  qed
qed

theorem connection_guarded_witness:
  "\<exists>c. crew_reach (crew_start silent_libpq sample_env [Call_hasChannel ''c'', Call_getChannelId ''c''] silent_wrapper) c \<and>
     cr_holder c = Some 0 \<and> \<not> connection_shared c"
proof -
  let ?calls = "[Call_hasChannel ''c'', Call_getChannelId ''c'']"
  let ?c0 = "crew_start silent_libpq sample_env ?calls silent_wrapper"
  obtain q where q: "steps_alone 0 (pg_call_prog silent_libpq sample_env (Call_hasChannel ''c''), None, silent_wrapper)
      (q, Some 0, silent_wrapper)"
    using call_queries [of silent_wrapper silent_libpq sample_env "Call_hasChannel ''c''"]
    unfolding comes_to_query_def by (auto simp: silent_wrapper_def)
  obtain c where c: "crew_reach ?c0 c" "cr_holder c = Some 0"
    using alone_crew [OF q, of ?c0 "cr_threads ?c0"] that
    by (simp add: crew_start_def crew_here del: pg_call_prog.simps)
  with connection_guarded [OF c(1)] show ?thesis by auto
qed

text \<open>C20: \<open>addMsgHistory\<close> breaks it: its insert is sent without the mutex, so next to any other call of a
  connected wrapper, over any libpq, there is an interleaving in which both threads are about to use
  the connection, which libpq does not allow, as soon as the author's id is read without a failure.\<close>

theorem connection_race:
  assumes "isConnected w" and "WrapperPg_getClientId L (msg_author m) w = (Inr i, w')"
  shows "\<exists>c. crew_reach (crew_start L E [Call_addMsgHistory n m, x] w) c \<and> connection_shared c"
proof -
  let ?c0 = "crew_start L E [Call_addMsgHistory n m, x] w" and ?x = "pg_call_prog L E x"
  obtain f q where add: "pg_call_prog L E (Call_addMsgHistory n m) =
      prog_bind (Pg_getClientId_prog L (msg_author m)) (\<lambda>i. prog_bind (exec_prog L (q i)) f)"
    by (simp add: Pg_addMsgHistory_prog_def Let_def)
  let ?p = "prog_bind (exec_prog L (q i)) f"
  have first: "steps_alone 0 (pg_call_prog L E (Call_addMsgHistory n m), None, w) (?p, None, w')"
    unfolding add
    by (rule run_steps_bind [of uses_connection]) (simp_all add: discipline_rules run_simps assms(2))
  have c1: "crew_reach ?c0 \<lparr>cr_wrapper = w', cr_holder = None, cr_threads = [?p, ?x]\<rparr>"
    using alone_crew [OF first, of ?c0 "[pg_call_prog L E (Call_addMsgHistory n m), ?x]"]
    by (simp add: crew_start_def crew_here del: pg_call_prog.simps)
  have "isConnected w'" using getClientId_connected [OF assms(2)] assms(1) by simp
  from call_queries [OF this] obtain p' where
    second: "steps_alone 1 (?x, None, w') (p', Some 1, w')" "next_label p' = Some [Uses_connection]"
    unfolding comes_to_query_def by blast
  have "crew_reach ?c0 \<lparr>cr_wrapper = w', cr_holder = Some 1, cr_threads = [?p, p']\<rparr>"
    using alone_crew [OF second(1), of ?c0 "[?p, ?x]"] c1 by simp
  moreover have "connection_shared \<lparr>cr_wrapper = w', cr_holder = Some 1, cr_threads = [?p, p']\<rparr>"
    unfolding connection_shared_def
    by (rule exI [of _ 0], simp, rule exI [of _ 1])
      (use second(2) in \<open>simp add: about_to_query_def uses_connection_def exec_prog_def atom_def\<close>)
  ultimately show ?thesis by blast
qed

theorem connection_race_witness:
  "\<exists>c. crew_reach (crew_start silent_libpq sample_env [Call_addMsgHistory 1 silent_message, Call_getChannelId ''c'']
       silent_wrapper) c \<and> connection_shared c"
proof (rule connection_race)
  show "isConnected silent_wrapper" by (simp add: silent_wrapper_def)
  show "WrapperPg_getClientId silent_libpq (msg_author silent_message) silent_wrapper = (Inr 0, silent_wrapper)"
    by (simp add: WrapperPg_getClientId_def execThreadSafe_def exec_query_def silent_libpq_def silent_wrapper_def
        PQntuples_def eff_bind_def eff_gets_def eff_return_def)
qed

end
