(* ===== verification/Spec2Isabelle.thy ===== *)
theory Spec2Isabelle
  imports Logger Socket_Writer Channel_Race Registration_Race Pg_Gateway Server_Races Shutdown_Properties
    Pg_Programs
begin

text \<open>
  A verification development for the GatewayServer chat gateway (C++20, \<open>src/src\<close>).

  The program. \<open>app/gateway/main.cpp\<close> connects a database, builds the user and channel managers
  and the query engine, starts four queue workers and serves connections on one network thread.
  \<open>AcceptProcess\<close> makes a \<open>ClientSession\<close> for each connection. A session reads frames (a header,
  then a body) in a coroutine and posts each to \<open>AsyncContext\<close>, a pool of four threads, which runs
  \<open>ClientSession::processRequest\<close>. That dispatches to \<open>QueryEngine\<close>, which works on
  \<open>UserManager\<close>, \<open>ChannelsManager\<close>, the \<open>Channel\<close> objects and an \<open>IDatabase\<close>. Answers go
  back through \<open>SocketWriter::write\<close>, which pushes a task on the \<open>ThreadSafeQueue\<close>; a queue worker
  runs it and starts an \<open>async_write\<close>.

  Theories, in the order they build on each other, with the code they model (paths under
  \<open>src/src/sdk\<close> unless said otherwise).

  \<^item> \<open>Prelude\<close>: machine integers, C++ failures, and effects \<open>'s \<Rightarrow> (failure + 'a) \<times> 's\<close> with their
    pre- and postconditions (\<open>ensures\<close>) and invariants (\<open>keeps\<close>).
  \<^item> \<open>Protocol\<close>: what the code takes from the \<open>protocol\<close> package, protobuf and Boost.Format, as the
    record \<open>env\<close> of parameters, and one computable instance, \<open>sample_env\<close>, for the examples.
  \<^item> \<open>Decimal\<close>: the conversions between numbers, time stamps and text that \<open>WrapperPg.cpp\<close> takes
    from the standard library, and their round trips.
  \<^item> \<open>Database\<close>: \<open>database/IDatabase.h\<close> and \<open>Settings.h\<close>; the interface as a table of effects, and
    the contracts a backend can promise as locales over a common \<open>observed_backend\<close>:
    \<open>user_registry\<close>, \<open>channel_directory\<close>, its extension \<open>channel_lookup\<close>, and \<open>history_log\<close>.
  \<^item> \<open>Storage\<close>: \<open>database/Storage.h\<close>, \<open>.cpp\<close>; the in-memory backend, its invariant
    (\<open>storage_inv\<close>), the interpretations of the contracts on it, and its refinement of the
    abstract \<open>backend\<close> (\<open>storage_abs\<close>). It does not keep \<open>channel_lookup\<close>: its \<open>getChannelId\<close> is a
    stub.
  \<^item> \<open>Wrapper_Pg\<close>: \<open>database/WrapperPg.h\<close>, \<open>.cpp\<close>; every member function of the PostgreSQL backend
    with the text of each statement it sends, over the parameter \<open>libpq\<close>.
  \<^item> \<open>Postgres\<close>: the tables, the statements as a datatype with their text (\<open>render\<close>), what each
    does to the tables, and \<open>postgres_documented\<close>, the hypothesis that a server answers them so; a
    parser that reads the text back, and on it a small server that fulfils the hypothesis.
  \<^item> \<open>Pg_Contracts\<close>, \<open>Pg_History\<close>: the member functions as operations on the tables (\<open>gives\<close>), the
    invariant \<open>tables_ok\<close>, and the contracts \<open>WrapperPg\<close> keeps, for every documented server, with
    their interpretations on the small one.
  \<^item> \<open>Users\<close>: \<open>channels/users\<close>; the user object and the table of connected users.
  \<^item> \<open>World\<close>: the shared objects in one record \<open>world\<close>: what each weak pointer gives when locked, a
    store of channel objects, the live sessions and the write queue; the invariant \<open>world_inv\<close>.
  \<^item> \<open>Session_Write\<close>: the sending side of \<open>network/session/ClientSession.cpp\<close>.
  \<^item> \<open>Channels\<close>: \<open>channels/Channel.h\<close>, \<open>.cpp\<close>; construction, \<open>addUser\<close>, \<open>sendHistory\<close>, \<open>write\<close>.
  \<^item> \<open>Channels_Manager\<close>: \<open>channels/ChannelsManager.h\<close>, \<open>.cpp\<close>; the directory of channels;
    the locale \<open>manager_backend\<close> shows what it does over every backend with \<open>channel_lookup\<close>.
  \<^item> \<open>Query_Engine\<close>: \<open>engine/QueryEngine.h\<close>, \<open>.cpp\<close>; the six requests. The locale
    \<open>engine_accounts\<close> proves registration and authorisation for every backend with the account
    contract; \<open>storage_engine\<close> interprets it on \<open>Storage\<close>, \<open>mini_engine\<close> on \<open>WrapperPg\<close>.
  \<^item> \<open>Pg_Backend\<close>: the engine and the manager over PostgreSQL, and what the contracts leave out: a
    quote in a password, a wrapper that never connected, a lost message, a join that throws.
  \<^item> \<open>Interleaving\<close>: calls of several threads as programs of atomic steps, their invariants, and
    \<open>thread_program\<close>, a locale of programs that end.
  \<^item> \<open>Channel_Race\<close>, \<open>Registration_Race\<close>: \<open>createOrGetChannelByName\<close> and \<open>checkRegUser\<close> as such
    programs; alone they are the sequential functions, together they can go wrong.
  \<^item> \<open>Client_Session\<close>: \<open>processRequest\<close> and the read coroutine over a byte stream.
  \<^item> \<open>Task_Queue\<close>: \<open>common/ThreadSafeQueue.h\<close>, \<open>.cpp\<close>; a state machine of workers, mutex,
    condition variable and destructor (\<open>pool_step\<close>), its invariants by rule induction.
  \<^item> \<open>Socket_Writer\<close>: \<open>SocketWriter::writeImpl_\<close> run by those workers: locking the socket, taking the
    mutex, the write in flight, and its handler, which may be told of an error.
  \<^item> \<open>Workers_Pool\<close>: \<open>context\<close>; the request pool and its task counter.
  \<^item> \<open>Accept_Process\<close>: \<open>network/AcceptProcess.h\<close>; the accept coroutine.
  \<^item> \<open>Logger\<close>: \<open>common/log\<close>; severities, sinks, the filter and the overloads of \<open>write\<close>.
  \<^item> \<open>Gateway\<close>: \<open>main.cpp\<close>; start-up, and the server as a state machine whose steps are the
    completion of an accept, the completion of a read, a whole request, and the removal of a write
    task. \<open>Write_Targets\<close> shows to whom it writes, \<open>Pg_Gateway\<close> how it starts over PostgreSQL.
  \<^item> \<open>Programs\<close>, \<open>Rely_Guarantee\<close>: effects cut into steps between which other threads run, with a
    mutex; a program run by itself (\<open>run\<close>), the lock discipline, a well-founded order every step
    goes down, and the locale \<open>rely_guarantee\<close> of assertions that survive the other threads.
  \<^item> \<open>Request_Programs\<close>: every member function on the way of a request as such a program, each step
    with the shared memory it accesses (\<open>place\<close>, \<open>access\<close>). \<open>run\<close> of each is the
    function of the theories above. \<open>Request_Safety\<close> proves them under any interleaving.
  \<^item> \<open>Pg_Programs\<close>: the member functions of \<open>WrapperPg\<close> as such programs, with \<open>mutex_\<close> and the
    steps that use the connection; \<open>crew\<close> runs calls on several threads.
  \<^item> \<open>Server\<close>: the server again, with the four threads of \<open>AsyncContext\<close> (\<open>context\<close>) stepping
    through the requests they have taken, in any interleaving with accepts, reads, writes, and
    changes other clients make to the database. \<open>Server_Properties\<close> states what holds of it,
    \<open>Server_Races\<close> where accesses of two requests meet.
  \<^item> \<open>Shutdown\<close>: what \<open>main\<close> owns, from the constructors of \<open>AcceptProcess\<close>, \<open>ClientSession\<close> and
    \<open>SocketWriter\<close> to the destructors (\<open>destroy\<close>), which run one after the other, in the order \<open>unwind\<close>,
    while the threads of both pools go on; \<open>Shutdown_Properties\<close> states what holds of it.

  Correspondence. A member function is a definition with the name of its class in front where the
  bare name is taken (\<open>Storage_checkRegUser\<close>, \<open>Channel_write\<close>). \<open>std::size_t\<close> ids are 64-bit words.
  A loop over an unordered container takes the order it runs in as an argument \<open>ord\<close>, and theorems
  hold for every order; \<open>enumerates\<close> says \<open>ord\<close> lists each element once. An exception or a call
  through null is the \<open>Inl\<close> of the result, with the state as it was left. An exception of a request is
  caught by the pool; a failure that is no exception has no step after it, and theorems name it
  (\<open>crashed\<close>) instead of assuming it away, since a backend that libpq answers oddly can fail so.

  What the lemmas show. Every operation of the engine keeps \<open>world_inv\<close>, whatever the database and
  the protocol package do (\<open>keeps_rules\<close>), so every reachable state of the server does. Each
  operation's functional behaviour is given by branch. \<open>Storage\<close> refines its abstract backend.
  With requests interleaved step by step, the shared state stays well formed, no request follows a
  null pointer of the server's own, only one thread at a time touches the directory of channels, and
  every request can come to its end; but the table of users and the members of a channel are accessed
  by two threads at once, and so is the backend, which only \<open>WrapperPg\<close> guards. The connection to
  PostgreSQL is used by one thread at a time, except that \<open>addMsgHistory\<close> does not take the mutex. The
  sequential server is one of the schedules, so what is proved of a request alone holds there.
  Until \<open>main\<close> leaves \<open>run\<close> no step uses a session, its writer, the acceptor, the pool or the queue
  after its destruction (\<open>uses_destroyed\<close>), and the managers outlive every request; the buffer of a
  write, though, can be destroyed while it is being sent (\<open>Socket_Writer\<close>). And one header that
  announces too long a body ends the whole process, and then tasks can run on sessions already
  destroyed.
  The read loop posts exactly the frames a peer sends, and of any stream what \<open>requests_in\<close> says: only
  a body cut short is filled up from the buffer. The queue is first-in first-out in every
  interleaving and loses no wake-up until the destructor runs. The theorems also record what the
  code does wrong: a channel message reaches only the first connected member, a known channel
  cannot be used twice over \<open>Storage\<close>, the queue's destructor can hang, writes can be reordered and
  can outlive their buffer. Over PostgreSQL the account, channel and history contracts hold for
  texts without quotes, of the length of their columns, and ids below \<open>2 ^ 31\<close> (\<open>good_input\<close>,
  \<open>good_channel\<close>, \<open>good_message\<close>); outside them a password can inject an account, and concurrent
  requests can make two channel objects for one id or two accounts for one login.

  Bounds. There is no fuel: loops over containers are recursion over lists, and the loops that
  never end (workers, accept, read) are step relations or steps iterated any number of times. The
  id generator is a 64-bit word; theorems that need it not to wrap say so
  (\<open>storage_room\<close>, fewer than \<open>2 ^ 64\<close> calls). The parser of client rows takes as fuel the length
  of the text, which is at least the number of rows.

  Not modelled. Log output (a log call appears only where its format string and arguments do not
  match, since that throws); Boost.Asio, Boost.ProgramOptions, protobuf, libpq and PostgreSQL
  beyond the behaviour stated where they are used; and the release of \<open>PGresult\<close> objects. In
  \<open>Server\<close> a call of the database is one step, as is a push on the table of users or on the write
  queue: the statements of \<open>WrapperPg\<close> interleave in \<open>Pg_Programs\<close> and \<open>Registration_Race\<close>, and the queue's own
  threads in \<open>Task_Queue\<close> and \<open>Socket_Writer\<close>. What two threads do to one container in a data race
  has no meaning in C++ and none here: the theorems of \<open>Server_Races\<close> stop where a race begins, and
  the others say what holds when each access takes effect at once. Likewise a step of \<open>Shutdown\<close>
  that uses a destroyed object (\<open>dangling\<close>) has no meaning: the theorems say when there is none and
  that there can be one, not what follows. A session that a thread has locked a moment before its
  destruction is destroyed at once there, not when the thread lets go of it. In \<open>Shutdown\<close> the allocator
  is the parameter \<open>alloc\<close>; elsewhere every allocation succeeds. That a
  request can come to its end is shown by a well-founded order on programs, not by a number of steps.
\<close>

section \<open>Properties of the whole server\<close>

text \<open>
  The server of the examples: over \<open>Storage\<close> and \<open>sample_env\<close>, one peer connects and sends a
  registration for the login \<open>a\<close> and then half a header.
\<close>

definition one_peer :: "gateway_action list" where
  "one_peer = [AcceptCompletes False [1, 1, 97, 3], ReadCompletes 0, ReadCompletes 0,
     RunJob 0 sorted_ids]"

definition sample_start :: "storage gateway" where
  "sample_start = \<lparr>g_world = start_world empty_storage, g_acceptor = fst runAccept,
     g_conns = Map.empty, g_jobs = [], g_streams = (\<lambda>_. []), g_processed = []\<rparr>"

lemma sample_start_reach: "gateway_reach Storage_db sample_env sample_start"
proof (rule gateway_start)
  have "sorted_ids {} = []" by (simp add: sorted_ids_def)
  then show "gateway_main Storage_db sorted_ids empty_storage = Serving sample_start"
    by (simp add: gateway_main_def sample_start_def createChannelFromDb_def Storage_db_def Storage_connect_def
        Storage_getCurrentChannels_def QueryEngine_new_def start_world_def)
qed

definition peer_served :: "storage gateway" where
  "peer_served = the (gateway_run Storage_db sample_env one_peer sample_start)"

lemma peer_served_run:
  "gateway_run Storage_db sample_env one_peer sample_start = Some peer_served"
  "g_processed peer_served = [(0, \<lparr>h_command = 1, h_length = 1\<rparr>, sample_request [97])]"
  "g_streams peer_served 0 = [1, 1, 97, 3]"
  "w_queue (g_world peer_served) = Some [(0, [2, 1])]"
proof -
  show "gateway_run Storage_db sample_env one_peer sample_start = Some peer_served"
    unfolding peer_served_def by (rule ran) code_simp
qed code_simp+

lemma peer_served_reach: "gateway_reach Storage_db sample_env peer_served"
  by (rule gateway_run_reach [OF sample_start_reach peer_served_run(1)])

text \<open>In every reachable state of the server, over every database, protocol package and schedule of
  accepts, reads, requests and writes, and whatever requests failed half-way, the shared state is
  well formed: connected users are filed under their own non-zero ids, every channel object has a
  name and a non-zero id, and the directory maps each id to an existing channel with that id.\<close>

theorem server_state_wellformed:
  assumes "gateway_reach D E g"
  shows "world_inv (g_world g)"
  using assms by (rule gateway_reach_inv)

lemma server_state_wellformed_witness:
  "world_inv (g_world peer_served) \<and> w_queue (g_world peer_served) = Some [(0, [2, 1])]"
  using server_state_wellformed [OF peer_served_reach] peer_served_run(4) by blast

text \<open>The server acts only on what was sent: if a peer's stream is well-formed frames and a part of
  a header, then every request processed for its session, under any schedule, is the parse of one
  of those frames.\<close>

theorem processed_requests_were_sent:
  assumes "gateway_reach D E g" and "(s, h, r) \<in> set (g_processed g)"
    and "g_streams g s = concat (map (\<lambda>f. fst f @ snd f) fs) @ rest"
    and "\<forall>f \<in> set fs. is_frame E f" and "length rest < size_header E"
  shows "(h, r) \<in> parse_frame E ` set fs"
proof (rule sources_parsed [OF _ _ assms(3-5)])
  show "sources_inv E g" using assms(1) by (rule gateway_reach_sources)
  show "(h, r) \<in> jobs_of s (g_jobs g @ g_processed g)" using assms(2) by (simp add: jobs_of_def)
qed

lemma processed_requests_were_sent_witness:
  "(\<lparr>h_command = 1, h_length = 1\<rparr>, sample_request [97]) \<in> {parse_frame sample_env ([1, 1], [97])}"
  using processed_requests_were_sent [OF peer_served_reach, of 0 "\<lparr>h_command = 1, h_length = 1\<rparr>"
      "sample_request [97]" "[([1, 1], [97])]" "[3]"]
  by (simp add: peer_served_run is_frame_def)

text \<open>In every reachable state of the server, over every database, protocol package and schedule,
  the server only writes to clients it has accepted: each task on the write queue is for the socket
  of a session made by the accept coroutine, whatever sessions and ids the requests name.\<close>

theorem writes_to_accepted:
  assumes "gateway_reach D E g" and "w_queue (g_world g) = Some q" and "(s, b) \<in> set q"
  shows "s \<in> set (sessions_ptrs (g_acceptor g)) \<and> g_conns g s \<noteq> None"
proof -
  have "targets (accepted g) (g_world g)" using assms(1) by (rule gateway_reach_targets)
  then have "s \<in> accepted g" using assms(2,3) by (force simp: targets_def)
  moreover have "sources_inv E g" using assms(1) by (rule gateway_reach_sources)
  ultimately show ?thesis by (auto simp: accepted_def sources_inv_def)
qed

lemma writes_to_accepted_witness:
  "(0 :: session) \<in> set (sessions_ptrs (g_acceptor peer_served))"
  using writes_to_accepted [OF peer_served_reach peer_served_run(4), of 0 "[2, 1]"] by simp

end
